(* ===== verification/GoPrelude.thy ===== *)
theory GoPrelude
  imports Main "HOL-Library.Sublist" "HOL-Library.Multiset"
begin

text \<open>
  What every component shares and no component owns: the named collections the
  component proofs rest on, and generic facts on lists that the library does not have
  in the form the proofs use.  A Go slice is a list, a Go \<open>map\<close> that is only read
  by key is a function into \<open>option\<close> or a predicate, a Go \<open>map\<close> used as a set of
  seen keys is the list of the keys put in it.  A Go function returning a value and an
  \<open>error\<close> returns a sum: \<open>Inl\<close> the error, \<open>Inr\<close> the value.  A Go method whose
  only result is an \<open>error\<close> returns an option: \<open>None\<close> for \<open>nil\<close>.
\<close>

named_theorems go_simps "equations that compute the Go string and number primitives"
named_theorems go_intros "well-formedness facts an operation establishes"

type_synonym ('e, 'a) result = "'e + 'a"

definition ok :: "('e, 'a) result \<Rightarrow> bool" where
  "ok r = (case r of Inl _ \<Rightarrow> False | Inr _ \<Rightarrow> True)"

lemma ok_simps [simp]: "ok (Inr a)" "\<not> ok (Inl e)"
  by (simp_all add: ok_def)

lemma ok_iff: "ok r \<longleftrightarrow> (\<exists>a. r = Inr a)"
  by (cases r) auto

subsection \<open>Lists\<close>

lemma takeWhile_dropWhile_split:
  "takeWhile P xs @ dropWhile P xs = xs"
  by simp

lemma dropWhile_all_False: "(\<And>x. x \<in> set xs \<Longrightarrow> \<not> P x) \<Longrightarrow> dropWhile P xs = xs"
  by (cases xs) auto

lemma hd_dropWhile_not: "dropWhile P xs \<noteq> [] \<Longrightarrow> \<not> P (hd (dropWhile P xs))"
  by (induction xs) auto

lemma subseq_filter_same: "subseq (filter P xs) xs"
  by simp

lemma distinct_length_le_card:
  "distinct xs \<Longrightarrow> set xs \<subseteq> A \<Longrightarrow> finite A \<Longrightarrow> length xs \<le> card A"
  by (metis card_mono distinct_card)

lemma list_nth_cong: "xs = ys \<Longrightarrow> i = j \<Longrightarrow> xs ! i = ys ! j"
  by simp

lemma find_SomeD: "List.find P xs = Some x \<Longrightarrow> x \<in> set xs \<and> P x"
  by (induction xs) (auto split: if_splits)

lemma find_None_iff': "List.find P xs = None \<longleftrightarrow> (\<forall>x \<in> set xs. \<not> P x)"
  by (induction xs) auto

lemma subseq_distinct: "subseq xs ys \<Longrightarrow> distinct ys \<Longrightarrow> distinct xs"
  by (metis distinct_nthsI subseq_conv_nths)

subsection \<open>Times\<close>

text \<open>
  A Go \<open>time.Time\<close> is its nanoseconds since Go's zero time, so \<open>IsZero\<close> is \<open>= 0\<close>;
  \<open>Sub\<close> gives a \<open>time.Duration\<close>, 64 bits of nanoseconds, and clips to them.
\<close>

type_synonym gotime = int
type_synonym duration = int

definition duration_max :: duration where "duration_max = 2 ^ 63 - 1"
definition duration_min :: duration where "duration_min = - (2 ^ 63)"

definition time_sub :: "gotime \<Rightarrow> gotime \<Rightarrow> duration" where
  "time_sub a b = max duration_min (min duration_max (a - b))"

definition second :: duration where "second = 1000000000"
definition minute :: duration where "minute = 60 * second"

lemma time_sub_greater: "0 \<le> n \<Longrightarrow> n < duration_max \<Longrightarrow> n < time_sub a b \<longleftrightarrow> n < a - b"
  by (auto simp: time_sub_def duration_max_def duration_min_def)

end
