(* ===== verification/GoStrings.thy ===== *)
theory GoStrings
  imports GoPrelude "HOL-Library.Char_ord"
begin

text \<open>
  Go's strings and the functions of the packages \<open>strings\<close> and \<open>strconv\<close> the program
  uses.  A Go string is a sequence of bytes, so it is an Isabelle \<open>string\<close> (a list of
  8-bit \<open>char\<close>s) holding UTF-8; lengths and offsets are in bytes, as in Go.

  White space is Unicode's, as \<open>strings.TrimSpace\<close> and \<open>strings.Fields\<close> have it:
  \<open>space_len\<close> recognises the byte sequences of every rune \<open>unicode.IsSpace\<close> accepts.
  UTF-8 is self-synchronising, so a byte-wise match finds exactly those runes.

  Case mapping is that of ASCII together with the runes outside ASCII that map into it
  (U+212A, the Kelvin sign, and U+0130 for \<open>strings.ToLower\<close>; U+212A and U+017F for
  \<open>strings.EqualFold\<close>); any other byte outside ASCII is left as it is.  Every place
  the program maps case it then compares with an ASCII word, or with another text mapped
  the same way, so what the model leaves out are two texts that differ only in the case
  of a letter outside ASCII.
\<close>

subsection \<open>Bytes\<close>

definition byte :: "char \<Rightarrow> nat" where
  "byte c = of_char c"

definition is_digit :: "char \<Rightarrow> bool" where
  "is_digit c \<longleftrightarrow> 48 \<le> byte c \<and> byte c \<le> 57"

definition is_upper :: "char \<Rightarrow> bool" where
  "is_upper c \<longleftrightarrow> 65 \<le> byte c \<and> byte c \<le> 90"

definition is_lower :: "char \<Rightarrow> bool" where
  "is_lower c \<longleftrightarrow> 97 \<le> byte c \<and> byte c \<le> 122"

definition lower_byte :: "char \<Rightarrow> char" where
  "lower_byte c = (if is_upper c then char_of (byte c + 32) else c)"

lemma byte_lt [simp]: "byte c < 256"
  by (simp add: byte_def)

lemma byte_inj [simp]: "byte a = byte b \<longleftrightarrow> a = b"
  by (simp add: byte_def)

definition newline :: string where "newline = [CHR 0x0A]"

subsection \<open>White space\<close>

definition ascii_space :: "char \<Rightarrow> bool" where
  "ascii_space c \<longleftrightarrow> (9 \<le> byte c \<and> byte c \<le> 13) \<or> byte c = 32"

definition space2 :: "char \<Rightarrow> char \<Rightarrow> bool" where
  "space2 a b \<longleftrightarrow> byte a = 0xC2 \<and> (byte b = 0x85 \<or> byte b = 0xA0)"

definition space3 :: "char \<Rightarrow> char \<Rightarrow> char \<Rightarrow> bool" where
  "space3 a b c \<longleftrightarrow>
     (byte a = 0xE1 \<and> byte b = 0x9A \<and> byte c = 0x80) \<or>
     (byte a = 0xE2 \<and> byte b = 0x80 \<and>
        ((0x80 \<le> byte c \<and> byte c \<le> 0x8A) \<or> byte c = 0xA8 \<or> byte c = 0xA9 \<or> byte c = 0xAF)) \<or>
     (byte a = 0xE2 \<and> byte b = 0x81 \<and> byte c = 0x9F) \<or>
     (byte a = 0xE3 \<and> byte b = 0x80 \<and> byte c = 0x80)"

text \<open>The length of the white-space rune a text begins with, 0 for none.\<close>

fun space_len :: "string \<Rightarrow> nat" where
  "space_len [] = 0"
| "space_len [a] = (if ascii_space a then 1 else 0)"
| "space_len [a, b] = (if ascii_space a then 1 else if space2 a b then 2 else 0)"
| "space_len (a # b # c # s) =
     (if ascii_space a then 1 else if space2 a b then 2 else if space3 a b c then 3 else 0)"

text \<open>The same from the end: the text is given reversed.\<close>

fun rspace_len :: "string \<Rightarrow> nat" where
  "rspace_len [] = 0"
| "rspace_len [a] = (if ascii_space a then 1 else 0)"
| "rspace_len [a, b] = (if ascii_space a then 1 else if space2 b a then 2 else 0)"
| "rspace_len (a # b # c # s) =
     (if ascii_space a then 1 else if space2 b a then 2 else if space3 c b a then 3 else 0)"

lemma space_len_le: "space_len s \<le> length s"
  by (cases s rule: space_len.cases) auto

lemma rspace_len_le: "rspace_len s \<le> length s"
  by (cases s rule: rspace_len.cases) auto

function trim_left_space :: "string \<Rightarrow> string" where
  "trim_left_space s = (if space_len s = 0 then s else trim_left_space (drop (space_len s) s))"
  by pat_completeness auto
termination
proof (relation "measure length")
  fix s :: string
  assume "space_len s \<noteq> 0"
  then show "(drop (space_len s) s, s) \<in> measure length"
    using space_len_le [of s] by (cases s) auto
qed simp

function trim_rspace :: "string \<Rightarrow> string" where
  "trim_rspace s = (if rspace_len s = 0 then s else trim_rspace (drop (rspace_len s) s))"
  by pat_completeness auto
termination
proof (relation "measure length")
  fix s :: string
  assume "rspace_len s \<noteq> 0"
  then show "(drop (rspace_len s) s, s) \<in> measure length"
    using rspace_len_le [of s] by (cases s) auto
qed simp

declare trim_left_space.simps [simp del] trim_rspace.simps [simp del]

text \<open>\<open>strings.TrimSpace\<close>.\<close>

definition trim_right_space :: "string \<Rightarrow> string" where
  "trim_right_space s = rev (trim_rspace (rev s))"

definition trim_space :: "string \<Rightarrow> string" where
  "trim_space s = trim_right_space (trim_left_space s)"

lemma trim_left_space_id [simp]: "space_len s = 0 \<Longrightarrow> trim_left_space s = s"
  by (subst trim_left_space.simps) simp

lemma trim_left_space_nil [simp]: "trim_left_space [] = []"
  by simp

lemma space_len_trim_left [simp]: "space_len (trim_left_space s) = 0"
proof (induction s rule: trim_left_space.induct)
  case (1 s)
  then show ?case by (cases "space_len s = 0") (simp_all add: trim_left_space.simps [of s])
qed

lemma trim_left_space_suffix: "\<exists>p. s = p @ trim_left_space s"
proof (induction s rule: trim_left_space.induct)
  case (1 s)
  show ?case
  proof (cases "space_len s = 0")
    case True
    then show ?thesis by simp
  next
    case False
    with 1 obtain p where "drop (space_len s) s = p @ trim_left_space (drop (space_len s) s)"
      by blast
    then have "s = (take (space_len s) s @ p) @ trim_left_space (drop (space_len s) s)"
      by (metis append.assoc append_take_drop_id)
    moreover from False have "trim_left_space s = trim_left_space (drop (space_len s) s)"
      by (simp add: trim_left_space.simps [of s])
    ultimately show ?thesis by metis
  qed
qed

lemma length_trim_left_space: "length (trim_left_space s) \<le> length s"
  using trim_left_space_suffix [of s] by (metis le_add2 length_append)

lemma rspace_len_trim [simp]: "rspace_len (trim_rspace s) = 0"
proof (induction s rule: trim_rspace.induct)
  case (1 s)
  then show ?case by (cases "rspace_len s = 0") (simp_all add: trim_rspace.simps [of s])
qed

lemma trim_rspace_id [simp]: "rspace_len s = 0 \<Longrightarrow> trim_rspace s = s"
  by (subst trim_rspace.simps) simp

lemma trim_rspace_suffix: "\<exists>p. s = p @ trim_rspace s"
proof (induction s rule: trim_rspace.induct)
  case (1 s)
  show ?case
  proof (cases "rspace_len s = 0")
    case True
    then show ?thesis by simp
  next
    case False
    with 1 obtain p where "drop (rspace_len s) s = p @ trim_rspace (drop (rspace_len s) s)"
      by blast
    then have "s = (take (rspace_len s) s @ p) @ trim_rspace (drop (rspace_len s) s)"
      by (metis append.assoc append_take_drop_id)
    moreover from False have "trim_rspace s = trim_rspace (drop (rspace_len s) s)"
      by (simp add: trim_rspace.simps [of s])
    ultimately show ?thesis by metis
  qed
qed

lemma trim_right_space_prefix: "\<exists>q. s = trim_right_space s @ q"
proof -
  obtain p where "rev s = p @ trim_rspace (rev s)"
    using trim_rspace_suffix by blast
  then have "s = rev (trim_rspace (rev s)) @ rev p"
    by (metis rev_append rev_rev_ident)
  then show ?thesis by (auto simp: trim_right_space_def)
qed

text \<open>White space at the front of a prefix is white space at the front of the whole.\<close>

lemma space_len_append: "space_len s \<noteq> 0 \<Longrightarrow> space_len (s @ t) = space_len s"
proof (cases s rule: space_len.cases)
  case (2 a)
  assume "space_len s \<noteq> 0"
  with 2 show ?thesis by (cases "[a] @ t" rule: space_len.cases) (auto split: if_splits)
next
  case (3 a b)
  assume "space_len s \<noteq> 0"
  with 3 show ?thesis by (cases t) (auto split: if_splits)
qed auto

lemma space_len_trim_right: "space_len s = 0 \<Longrightarrow> space_len (trim_right_space s) = 0"
  using trim_right_space_prefix [of s] space_len_append [of "trim_right_space s"]
  by (metis)

lemma space_len_trim_space [simp]: "space_len (trim_space s) = 0"
  by (simp add: trim_space_def space_len_trim_right)

lemma trim_right_space_idem [simp]: "trim_right_space (trim_right_space s) = trim_right_space s"
  by (simp add: trim_right_space_def)

lemma trim_space_idem [simp]: "trim_space (trim_space s) = trim_space s"
proof -
  have "trim_left_space (trim_space s) = trim_space s" by simp
  then have "trim_space (trim_space s) = trim_right_space (trim_space s)"
    by (simp add: trim_space_def)
  then show ?thesis by (simp add: trim_space_def)
qed

lemma trim_space_nil [simp]: "trim_space [] = []"
  by (simp add: trim_space_def trim_right_space_def)

subsection \<open>Fields\<close>

text \<open>\<open>strings.Fields\<close>: the maximal runs of bytes that are no white space.\<close>

fun span_word :: "string \<Rightarrow> string \<times> string" where
  "span_word [] = ([], [])"
| "span_word (a # s) =
     (if space_len (a # s) \<noteq> 0 then ([], a # s)
      else (let (w, r) = span_word s in (a # w, r)))"

lemma span_word_append: "span_word s = (w, r) \<Longrightarrow> s = w @ r"
  by (induction s arbitrary: w r) (auto split: if_splits prod.splits)

function str_fields :: "string \<Rightarrow> string list" where
  "str_fields s =
     (let t = trim_left_space s
      in if t = [] then [] else fst (span_word t) # str_fields (snd (span_word t)))"
  by pat_completeness auto
termination
proof (relation "measure length")
  fix s t :: string
  assume t: "t = trim_left_space s" and ne: "t \<noteq> []"
  then have "space_len t = 0" by simp
  with ne have "fst (span_word t) \<noteq> []"
    by (cases t) (auto split: prod.splits)
  moreover have "t = fst (span_word t) @ snd (span_word t)"
    by (rule span_word_append) simp
  ultimately have "length (snd (span_word t)) < length t"
    by (metis append_self_conv2 le_add2 length_append linorder_not_less nat_less_le append_eq_conv_conj drop_eq_Nil length_drop diff_is_0_eq add_diff_cancel_right')
  with length_trim_left_space [of s] t show "(snd (span_word t), s) \<in> measure length"
    by simp
qed simp

declare str_fields.simps [simp del]

text \<open>A text with no white space in it.\<close>

fun no_space :: "string \<Rightarrow> bool" where
  "no_space [] = True"
| "no_space (a # s) = (space_len (a # s) = 0 \<and> no_space s)"

definition word :: "string \<Rightarrow> bool" where
  "word w \<longleftrightarrow> w \<noteq> [] \<and> no_space w"

text \<open>A visible or control ASCII byte is no white space, whatever follows it.\<close>

definition plain :: "char \<Rightarrow> bool" where
  "plain c \<longleftrightarrow> byte c < 128 \<and> \<not> ascii_space c"

lemma space_len_plain: "plain a \<Longrightarrow> space_len (a # s) = 0"
  by (cases "a # s" rule: space_len.cases) (auto simp: plain_def space2_def space3_def)

lemma rspace_len_plain: "plain a \<Longrightarrow> rspace_len (a # s) = 0"
  by (cases "a # s" rule: rspace_len.cases) (auto simp: plain_def space2_def space3_def)

lemma plain_no_space: "list_all plain s \<Longrightarrow> no_space s"
  by (induction s) (auto simp: space_len_plain)

lemma plain_word: "s \<noteq> [] \<Longrightarrow> list_all plain s \<Longrightarrow> word s"
  by (simp add: word_def plain_no_space)

lemma no_space_space_len: "no_space s \<Longrightarrow> space_len s = 0"
  by (cases s) auto

text \<open>An ASCII byte after a text changes nothing about the white space the text begins with.\<close>

lemma space_len_ascii_after:
  "s \<noteq> [] \<Longrightarrow> byte c < 128 \<Longrightarrow> space_len (s @ c # t) = space_len s"
proof (cases s rule: space_len.cases)
  case (2 a)
  assume "byte c < 128"
  with 2 show ?thesis by (cases t) (auto simp: space2_def space3_def)
next
  case (3 a b)
  assume "byte c < 128"
  with 3 show ?thesis by (auto simp: space3_def)
qed auto

lemma span_word_word:
  "no_space w \<Longrightarrow> byte c < 128 \<Longrightarrow> ascii_space c \<Longrightarrow> span_word (w @ c # t) = (w, c # t)"
proof (induction w)
  case Nil
  then have "space_len (c # t) \<noteq> 0" by (cases "c # t" rule: space_len.cases) auto
  then show ?case by simp
next
  case (Cons a w)
  then have "space_len ((a # w) @ c # t) = 0"
    by (subst space_len_ascii_after) simp_all
  with Cons show ?case by simp
qed

lemma span_word_all: "no_space w \<Longrightarrow> span_word w = (w, [])"
  by (induction w) auto

lemma trim_left_space_ascii [simp]:
  assumes "ascii_space c"
  shows "trim_left_space (c # s) = trim_left_space s"
proof -
  have "space_len (c # s) = 1"
    using assms by (cases "c # s" rule: space_len.cases) auto
  then show ?thesis by (subst trim_left_space.simps) simp
qed

lemma trim_right_space_plain: "plain c \<Longrightarrow> trim_right_space (s @ [c]) = s @ [c]"
  by (simp add: trim_right_space_def rspace_len_plain)

lemma trim_space_plain:
  assumes "s \<noteq> []" "plain (hd s)" "plain (last s)"
  shows "trim_space s = s"
proof -
  have "space_len s = 0" using assms by (cases s) (simp_all add: space_len_plain)
  moreover have "trim_right_space s = s"
    using trim_right_space_plain [OF assms(3), of "butlast s"] assms(1) by simp
  ultimately show ?thesis by (simp add: trim_space_def)
qed

lemma trim_space_ascii [simp]: "ascii_space c \<Longrightarrow> trim_space (c # s) = trim_space s"
  by (simp add: trim_space_def)

lemma str_fields_nil [simp]: "str_fields [] = []"
  by (subst str_fields.simps) simp

lemma str_fields_ascii_space [simp]: "ascii_space c \<Longrightarrow> str_fields (c # s) = str_fields s"
  by (subst (1 2) str_fields.simps) simp

lemma str_fields_word: "word w \<Longrightarrow> str_fields w = [w]"
  by (subst str_fields.simps) (simp add: word_def span_word_all no_space_space_len)

lemma ascii_space_lt: "ascii_space c \<Longrightarrow> byte c < 128"
  by (auto simp: ascii_space_def)

lemma str_fields_word_space:
  assumes w: "word w" and c: "ascii_space c"
  shows "str_fields (w @ c # s) = w # str_fields s"
proof -
  from w have ne: "w \<noteq> []" and ns: "no_space w" by (auto simp: word_def)
  have "space_len (w @ c # s) = 0"
    using space_len_ascii_after [OF ne ascii_space_lt [OF c], of s] no_space_space_len [OF ns] by simp
  then have "trim_left_space (w @ c # s) = w @ c # s" by simp
  moreover have "span_word (w @ c # s) = (w, c # s)"
    using span_word_word [OF ns ascii_space_lt [OF c] c] .
  ultimately show ?thesis using c by (subst str_fields.simps) simp
qed

lemma str_fields_words: "list_all word ws \<Longrightarrow> ascii_space c \<Longrightarrow> str_fields (concat (map (\<lambda>w. w @ [c]) ws)) = ws"
  by (induction ws) (simp_all add: str_fields_word_space)

lemma span_word_no_space: "no_space (fst (span_word s))"
proof (induction s)
  case (Cons a s)
  obtain w r where w: "span_word s = (w, r)" by (cases "span_word s")
  then have "s = w @ r" by (rule span_word_append)
  then have "space_len (a # s) = 0 \<Longrightarrow> space_len (a # w) = 0"
    using space_len_append [of "a # w" r] by fastforce
  with Cons w show ?case by auto
qed simp

lemma str_fields_word_mem:
  "w \<in> set (str_fields s) \<Longrightarrow> word w"
proof (induction s rule: str_fields.induct)
  case (1 s)
  define t where "t = trim_left_space s"
  show ?case
  proof (cases "t = []")
    case True
    with 1 show ?thesis by (simp add: str_fields.simps [of s] t_def)
  next
    case False
    have "space_len t = 0" by (simp add: t_def)
    with False have "fst (span_word t) \<noteq> []" by (cases t) (auto split: prod.splits)
    then have "word (fst (span_word t))" by (simp add: word_def span_word_no_space)
    with False 1 show ?thesis by (auto simp: str_fields.simps [of s] t_def Let_def)
  qed
qed

subsection \<open>Prefixes, suffixes, splitting and joining\<close>

definition has_prefix :: "string \<Rightarrow> string \<Rightarrow> bool" where
  "has_prefix s p \<longleftrightarrow> take (length p) s = p"

definition has_suffix :: "string \<Rightarrow> string \<Rightarrow> bool" where
  "has_suffix s p \<longleftrightarrow> has_prefix (rev s) (rev p)"

definition trim_prefix :: "string \<Rightarrow> string \<Rightarrow> string" where
  "trim_prefix s p = (if has_prefix s p then drop (length p) s else s)"

definition trim_suffix :: "string \<Rightarrow> string \<Rightarrow> string" where
  "trim_suffix s p = (if has_suffix s p then take (length s - length p) s else s)"

lemma has_prefix_iff: "has_prefix s p \<longleftrightarrow> (\<exists>t. s = p @ t)"
  by (metis append_eq_conv_conj append_take_drop_id has_prefix_def)

lemma has_prefix_append [simp]: "has_prefix (p @ t) p"
  by (simp add: has_prefix_def)

lemma has_suffix_iff: "has_suffix s p \<longleftrightarrow> (\<exists>t. s = t @ p)"
  by (metis has_prefix_iff has_suffix_def rev_append rev_rev_ident)

lemma has_suffix_append [simp]: "has_suffix (t @ p) p"
  by (auto simp: has_suffix_iff)

text \<open>\<open>strings.CutPrefix\<close>: what is left, when the text begins so.\<close>

definition cut_prefix :: "string \<Rightarrow> string \<Rightarrow> string option" where
  "cut_prefix s p = (if has_prefix s p then Some (drop (length p) s) else None)"

fun split_on :: "char \<Rightarrow> string \<Rightarrow> string list" where
  "split_on c [] = [[]]"
| "split_on c (a # s) =
     (if a = c then [] # split_on c s
      else (case split_on c s of [] \<Rightarrow> [[a]] | w # ws \<Rightarrow> (a # w) # ws))"

fun join :: "string \<Rightarrow> string list \<Rightarrow> string" where
  "join sep [] = []"
| "join sep [w] = w"
| "join sep (w # v # ws) = w @ sep @ join sep (v # ws)"

lemma split_on_nonempty [simp]: "split_on c s \<noteq> []"
  by (cases s) (auto split: list.splits)

lemma join_Cons: "ws \<noteq> [] \<Longrightarrow> join sep (w # ws) = w @ sep @ join sep ws"
  by (cases ws) auto

lemma join_split_on [simp]: "join [c] (split_on c s) = s"
proof (induction s)
  case Nil
  show ?case by simp
next
  case (Cons a s)
  obtain w ws where w: "split_on c s = w # ws"
    by (cases "split_on c s") auto
  show ?case
  proof (cases "a = c")
    case True
    with Cons w show ?thesis by simp
  next
    case False
    with Cons w show ?thesis by (cases ws) auto
  qed
qed

lemma split_on_no_sep: "w \<in> set (split_on c s) \<Longrightarrow> c \<notin> set w"
  by (induction s arbitrary: w) (auto split: if_splits list.splits)

lemma split_on_absent: "c \<notin> set s \<Longrightarrow> split_on c s = [s]"
  by (induction s) auto

lemma split_on_append: "c \<notin> set w \<Longrightarrow> split_on c (w @ c # s) = w # split_on c s"
  by (induction w) auto

lemma split_on_lines: "split_on c (a @ c # b) = split_on c a @ split_on c b"
proof (induction a)
  case (Cons x a)
  then show ?case by (cases "split_on c a") auto
qed simp

lemma split_on_join:
  "ws \<noteq> [] \<Longrightarrow> (\<And>w. w \<in> set ws \<Longrightarrow> c \<notin> set w) \<Longrightarrow> split_on c (join [c] ws) = ws"
  by (induction "[c]" ws rule: join.induct) (auto simp: split_on_absent split_on_append)

lemma set_split_on_sub: "w \<in> set (split_on c s) \<Longrightarrow> set w \<subseteq> set s"
  by (induction s arbitrary: w) (auto split: if_splits list.splits, blast+)

subsection \<open>Searching\<close>

fun index_of :: "string \<Rightarrow> string \<Rightarrow> nat option" where
  "index_of [] sub = (if sub = [] then Some 0 else None)"
| "index_of (a # s) sub =
     (if has_prefix (a # s) sub then Some 0 else map_option Suc (index_of s sub))"

definition contains :: "string \<Rightarrow> string \<Rightarrow> bool" where
  "contains s sub \<longleftrightarrow> index_of s sub \<noteq> None"

definition contains_any :: "string \<Rightarrow> string \<Rightarrow> bool" where
  "contains_any s chars \<longleftrightarrow> list_ex (\<lambda>c. c \<in> set chars) s"

text \<open>\<open>strings.Cut\<close>: the text before the separator, the text after it, and whether it is there.\<close>

definition cut :: "string \<Rightarrow> string \<Rightarrow> string \<times> string \<times> bool" where
  "cut s sep = (case index_of s sep of
      None \<Rightarrow> (s, [], False)
    | Some i \<Rightarrow> (take i s, drop (i + length sep) s, True))"

fun last_index_byte :: "string \<Rightarrow> char \<Rightarrow> nat option" where
  "last_index_byte [] c = None"
| "last_index_byte (a # s) c =
     (case last_index_byte s c of
        Some i \<Rightarrow> Some (Suc i)
      | None \<Rightarrow> (if a = c then Some 0 else None))"

lemma index_of_Some:
  "index_of s sub = Some i \<Longrightarrow> s = take i s @ sub @ drop (i + length sub) s"
proof (induction s arbitrary: i)
  case Nil
  then show ?case by (auto split: if_splits)
next
  case (Cons a s)
  show ?case
  proof (cases "has_prefix (a # s) sub")
    case True
    with Cons.prems have "i = 0" by simp
    with True show ?thesis by (auto simp: has_prefix_iff)
  next
    case False
    with Cons.prems obtain j where "index_of s sub = Some j" "i = Suc j" by auto
    with Cons.IH show ?thesis by auto
  qed
qed

lemma index_of_single: "index_of s [c] = (if c \<in> set s then Some (length (takeWhile (\<lambda>a. a \<noteq> c) s)) else None)"
  by (induction s) (auto simp: has_prefix_def)

lemma last_index_byte_absent: "c \<notin> set s \<Longrightarrow> last_index_byte s c = None"
  by (induction s) auto

lemma last_index_byte_last: "c \<notin> set t \<Longrightarrow> last_index_byte (s @ c # t) c = Some (length s)"
  by (induction s) (auto simp: last_index_byte_absent)

lemma last_index_byte_Some:
  "last_index_byte s c = Some i \<Longrightarrow> s = take i s @ c # drop (Suc i) s"
  by (induction s arbitrary: i) (auto split: option.splits if_splits)

lemma last_index_byte_bound: "last_index_byte s c = Some i \<Longrightarrow> i < length s"
  by (induction s arbitrary: i) (auto split: option.splits if_splits)

lemma last_index_byte_append:
  "last_index_byte (a @ b) c =
     (case last_index_byte b c of Some i \<Rightarrow> Some (length a + i) | None \<Rightarrow> last_index_byte a c)"
  by (induction a) (auto split: option.splits)

lemma last_index_byte_none: "last_index_byte s c = None \<longleftrightarrow> c \<notin> set s"
  by (induction s) (auto split: option.splits)

lemma index_of_within: "index_of s [c] = Some i \<Longrightarrow> i < length s"
  by (induction s arbitrary: i) (auto simp: has_prefix_def split: if_splits)

lemma cut_sep: "c \<notin> set a \<Longrightarrow> cut (a @ c # b) [c] = (a, b, True)"
proof -
  assume "c \<notin> set a"
  then have "takeWhile (\<lambda>x. x \<noteq> c) (a @ c # b) = a"
    by (induction a) auto
  then show ?thesis by (simp add: cut_def index_of_single)
qed

text \<open>\<open>strings.ReplaceAll\<close> of a text that is not empty.\<close>

function replace_all :: "string \<Rightarrow> string \<Rightarrow> string \<Rightarrow> string" where
  "replace_all [] old new = []"
| "replace_all (a # s) old new =
     (if old \<noteq> [] \<and> has_prefix (a # s) old
      then new @ replace_all (drop (length old) (a # s)) old new
      else a # replace_all s old new)"
  by pat_completeness auto
termination by (relation "measure (\<lambda>(s, old, new). length s)") auto

subsection \<open>Trimming ASCII cut sets\<close>

definition trim_left_set :: "string \<Rightarrow> string \<Rightarrow> string" where
  "trim_left_set s cs = dropWhile (\<lambda>c. c \<in> set cs) s"

definition trim_right_set :: "string \<Rightarrow> string \<Rightarrow> string" where
  "trim_right_set s cs = rev (dropWhile (\<lambda>c. c \<in> set cs) (rev s))"

definition trim_set :: "string \<Rightarrow> string \<Rightarrow> string" where
  "trim_set s cs = trim_right_set (trim_left_set s cs) cs"

subsection \<open>Case mapping\<close>

fun to_lower :: "string \<Rightarrow> string" where
  "to_lower [] = []"
| "to_lower [a] = [lower_byte a]"
| "to_lower [a, b] =
     (if byte a = 0xC4 \<and> byte b = 0xB0 then ''i'' else lower_byte a # to_lower [b])"
| "to_lower (a # b # c # s) =
     (if byte a = 0xE2 \<and> byte b = 0x84 \<and> byte c = 0xAA then CHR ''k'' # to_lower s
      else if byte a = 0xC4 \<and> byte b = 0xB0 then CHR ''i'' # to_lower (c # s)
      else lower_byte a # to_lower (b # c # s))"

fun fold_case :: "string \<Rightarrow> string" where
  "fold_case [] = []"
| "fold_case [a] = [lower_byte a]"
| "fold_case [a, b] =
     (if byte a = 0xC5 \<and> byte b = 0xBF then ''s'' else lower_byte a # fold_case [b])"
| "fold_case (a # b # c # s) =
     (if byte a = 0xE2 \<and> byte b = 0x84 \<and> byte c = 0xAA then CHR ''k'' # fold_case s
      else if byte a = 0xC5 \<and> byte b = 0xBF then CHR ''s'' # fold_case (c # s)
      else lower_byte a # fold_case (b # c # s))"

definition equal_fold :: "string \<Rightarrow> string \<Rightarrow> bool" where
  "equal_fold s t \<longleftrightarrow> fold_case s = fold_case t"

lemma equal_fold_refl [simp]: "equal_fold s s"
  by (simp add: equal_fold_def)

lemma equal_fold_sym: "equal_fold s t \<longleftrightarrow> equal_fold t s"
  by (auto simp: equal_fold_def)

lemma equal_fold_trans: "equal_fold s t \<Longrightarrow> equal_fold t u \<Longrightarrow> equal_fold s u"
  by (simp add: equal_fold_def)

subsection \<open>Texts with no white space\<close>

lemma no_space_append: "no_space (s @ t) \<Longrightarrow> no_space t"
  by (induction s) auto

lemma rspace_suffix:
  assumes "rspace_len s \<noteq> 0"
  shows "space_len (rev (take (rspace_len s) s)) \<noteq> 0"
  using assms by (cases s rule: rspace_len.cases)
    (auto simp: numeral_2_eq_2 numeral_3_eq_3 split: if_splits)

lemma no_space_rspace: "no_space s \<Longrightarrow> rspace_len (rev s) = 0"
proof (rule ccontr)
  assume s: "no_space s" and "rspace_len (rev s) \<noteq> 0"
  then have *: "space_len (rev (take (rspace_len (rev s)) (rev s))) \<noteq> 0" by (rule_tac rspace_suffix)
  have "s = rev (drop (rspace_len (rev s)) (rev s)) @ rev (take (rspace_len (rev s)) (rev s))"
    by (metis append_take_drop_id rev_append rev_rev_ident)
  then have "no_space (rev (take (rspace_len (rev s)) (rev s)))"
    using s no_space_append by metis
  then have "space_len (rev (take (rspace_len (rev s)) (rev s))) = 0" by (rule no_space_space_len)
  with * show False by contradiction
qed

lemma no_space_trim: "no_space s \<Longrightarrow> trim_space s = s"
  by (simp add: trim_space_def trim_right_space_def no_space_space_len no_space_rspace)

lemma no_space_ascii_between: "no_space s \<Longrightarrow> plain c \<Longrightarrow> no_space t \<Longrightarrow> no_space (s @ c # t)"
proof (induction s)
  case (Cons a s)
  have "space_len ((a # s) @ c # t) = space_len (a # s)"
    by (rule space_len_ascii_after) (use Cons.prems in \<open>simp_all add: plain_def\<close>)
  with Cons show ?case by simp
qed (simp add: space_len_plain)

lemma no_space_join: "plain c \<Longrightarrow> list_all no_space ws \<Longrightarrow> no_space (join [c] ws)"
  by (induction "[c]" ws rule: join.induct) (simp_all add: no_space_ascii_between)

lemma no_space_plain_append: "list_all plain p \<Longrightarrow> no_space s \<Longrightarrow> no_space (p @ s)"
  by (induction p) (auto simp: space_len_plain)

text \<open>A byte of the lower case that is no lower-case letter was there before.\<close>

lemma lower_byte_other: "\<not> is_lower (lower_byte c) \<Longrightarrow> lower_byte c = c"
  by (auto simp: lower_byte_def is_upper_def is_lower_def byte_def split: if_splits)

lemma is_lower_ik [simp]: "is_lower (CHR ''i'')" "is_lower (CHR ''k'')"
  by (simp_all add: is_lower_def byte_def)

lemma to_lower_head:
  "to_lower s = x # t \<Longrightarrow> \<not> is_lower x \<Longrightarrow> \<exists>r. s = x # r \<and> t = to_lower r"
  by (induction s rule: to_lower.induct) (auto dest: lower_byte_other [symmetric] split: if_splits)

lemma space_bytes_not_lower:
  "ascii_space x \<Longrightarrow> \<not> is_lower x"
  "space2 x y \<Longrightarrow> \<not> is_lower x \<and> \<not> is_lower y"
  "space3 x y z \<Longrightarrow> \<not> is_lower x \<and> \<not> is_lower y \<and> \<not> is_lower z"
  by (auto simp: ascii_space_def space2_def space3_def is_lower_def)

lemma space_len_to_lower: "space_len (to_lower s) \<noteq> 0 \<Longrightarrow> space_len s \<noteq> 0"
proof -
  assume *: "space_len (to_lower s) \<noteq> 0"
  then consider x t where "to_lower s = x # t" "ascii_space x"
    | x y t where "to_lower s = x # y # t" "space2 x y"
    | x y z t where "to_lower s = x # y # z # t" "space3 x y z"
    by (cases "to_lower s" rule: space_len.cases) (auto split: if_splits)
  then show ?thesis
  proof cases
    case 1
    then obtain r where "s = x # r" using to_lower_head space_bytes_not_lower by blast
    then show ?thesis using 1 by (cases s rule: space_len.cases) auto
  next
    case 2
    then obtain r where r: "s = x # r" "y # t = to_lower r"
      using to_lower_head [of s x "y # t"] space_bytes_not_lower by blast
    then obtain q where "r = y # q" using to_lower_head [of r y t] 2 space_bytes_not_lower by metis
    then show ?thesis using 2 r by (cases s rule: space_len.cases) auto
  next
    case 3
    then obtain r where r: "s = x # r" "y # z # t = to_lower r"
      using to_lower_head [of s x "y # z # t"] space_bytes_not_lower by blast
    then obtain q where q: "r = y # q" "z # t = to_lower q"
      using to_lower_head [of r y "z # t"] 3 space_bytes_not_lower by metis
    then obtain u where "q = z # u" using to_lower_head [of q z t] 3 space_bytes_not_lower by metis
    then show ?thesis using 3 r q by (cases s rule: space_len.cases) auto
  qed
qed

lemma to_lower_step:
  assumes "s \<noteq> []"
  obtains a r where "s = a # r" "to_lower s = lower_byte a # to_lower r"
  | c p q where "c = CHR ''i'' \<or> c = CHR ''k''" "to_lower s = c # to_lower q" "s = p @ q" "p \<noteq> []"
proof (cases s rule: to_lower.cases)
  case (2 a)
  then show thesis using that(1) [of a "[]"] by simp
next
  case (3 a b)
  then show thesis using that(1) [of a "[b]"] that(2) [of "CHR ''i''" "[]" "[a, b]"]
    by (cases "byte a = 0xC4 \<and> byte b = 0xB0") auto
next
  case (4 a b c r)
  show thesis
  proof (cases "byte a = 0xE2 \<and> byte b = 0x84 \<and> byte c = 0xAA")
    case True
    then show thesis using 4 that(2) [of "CHR ''k''" r "[a, b, c]"] by simp
  next
    case False
    then show thesis using 4 that(1) [of a "b # c # r"] that(2) [of "CHR ''i''" "c # r" "[a, b]"]
      by (cases "byte a = 0xC4 \<and> byte b = 0xB0") auto
  qed
qed (use assms in simp)

lemma no_space_to_lower: "no_space s \<Longrightarrow> no_space (to_lower s)"
proof (induction s rule: length_induct)
  case (1 s)
  have p: "plain (CHR ''k'')" "plain (CHR ''i'')"
    by (simp_all add: plain_def ascii_space_def byte_def)
  have IH: "no_space (to_lower t)" if "length t < length s" "no_space t" for t
    using 1 that by blast
  have "space_len s = 0" using "1.prems" by (rule no_space_space_len)
  then have head: "space_len (to_lower s) = 0" using space_len_to_lower [of s] by blast
  show ?case
  proof (cases "s = []")
    case False
    then show ?thesis
    proof (cases rule: to_lower_step)
      case (1 a r)
      then have "no_space (to_lower r)" using "1.prems" by (intro IH) auto
      then show ?thesis using head 1 by (metis no_space.simps(2))
    next
      case (2 c p q)
      then have "no_space (to_lower q)" using "1.prems" no_space_append by (intro IH) auto
      moreover have "plain c" using 2(1) p by auto
      ultimately show ?thesis using 2 by (simp add: space_len_plain)
    qed
  qed simp
qed

text \<open>ASCII text in front folds by itself.\<close>

lemma fold_case_ascii: "list_all (\<lambda>c. byte c < 128) p \<Longrightarrow> fold_case (p @ s) = map lower_byte p @ fold_case s"
proof (induction p)
  case (Cons a p)
  have "byte a < 128 \<Longrightarrow> fold_case (a # t) = lower_byte a # fold_case t" for t
    by (cases "a # t" rule: fold_case.cases) auto
  with Cons show ?case by simp
qed simp

lemma rspace_len_low_after:
  assumes "s \<noteq> []" "rspace_len s = 0" "list_all (\<lambda>c. byte c < 128) p"
  shows "rspace_len (s @ p) = 0"
proof (cases s rule: rspace_len.cases)
  case (2 a)
  with assms show ?thesis
    by (cases "[a] @ p" rule: rspace_len.cases) (auto simp: space2_def space3_def split: if_splits)
next
  case (3 a b)
  with assms show ?thesis by (cases p) (auto simp: space3_def split: if_splits)
qed (use assms in auto)

lemma trim_space_id_rspace: "trim_space s = s \<Longrightarrow> rspace_len (rev s) = 0"
  by (metis rev_rev_ident rspace_len_trim trim_right_space_def trim_space_def)

lemma trim_space_low_before:
  assumes "trim_space s = s" "s \<noteq> []" "list_all (\<lambda>c. byte c < 128) p" "p = [] \<or> plain (hd p)"
  shows "trim_space (p @ s) = p @ s"
proof -
  have "rspace_len (rev s @ rev p) = 0"
    by (rule rspace_len_low_after) (use assms trim_space_id_rspace in simp_all)
  moreover have "space_len (p @ s) = 0"
    using assms space_len_trim_space [of s] by (cases p) (auto simp: space_len_plain)
  ultimately show ?thesis by (simp add: trim_space_def trim_right_space_def)
qed



lemma trim_space_word_newline: "word w \<Longrightarrow> trim_space (w @ newline) = w"
proof -
  assume "word w"
  then have w: "no_space w" "w \<noteq> []" by (simp_all add: word_def)
  have "space_len (w @ CHR 0x0A # []) = 0"
  proof -
    obtain a v where v: "w = a # v" using w(2) by (cases w) auto
    have "space_len ((a # v) @ CHR 0x0A # []) = space_len (a # v)"
      by (rule space_len_ascii_after) (simp_all add: byte_def)
    then show ?thesis using w(1) v by simp
  qed
  moreover have "trim_rspace (CHR 0x0A # rev w) = rev w"
  proof -
    have "rspace_len (CHR 0x0A # rev w) = 1"
      by (cases "CHR 0x0A # rev w" rule: rspace_len.cases) (auto simp: ascii_space_def byte_def)
    then show ?thesis using no_space_rspace [OF w(1)] by (subst trim_rspace.simps) simp
  qed
  ultimately show ?thesis
    by (simp add: trim_space_def trim_right_space_def newline_def)
qed

end
