(* ===== verification/Utf8.thy ===== *)
theory Utf8
  imports GoStrings
begin

text \<open>
  UTF-8 as the package \<open>unicode/utf8\<close> reads and writes it: the width of the rune a text
  begins with (0 when what it begins with is no well-formed rune: a stray or missing
  continuation byte, an overlong form, a surrogate or a value past U+10FFFF), validity,
  and the conversion of a text to its runes and back.  A byte that begins no rune is read
  as U+FFFD, one byte wide.
\<close>

definition cont_byte :: "char \<Rightarrow> bool" where
  "cont_byte c \<longleftrightarrow> 0x80 \<le> byte c \<and> byte c \<le> 0xBF"

text \<open>\<open>utf8.RuneStart\<close>.\<close>

definition rune_start :: "char \<Rightarrow> bool" where
  "rune_start c \<longleftrightarrow> \<not> cont_byte c"

text \<open>The range the second byte must be in, by the first.\<close>

definition second_ok :: "nat \<Rightarrow> char \<Rightarrow> bool" where
  "second_ok x b \<longleftrightarrow>
     (if x = 0xE0 then 0xA0 else if x = 0xF0 then 0x90 else 0x80) \<le> byte b \<and>
     byte b \<le> (if x = 0xED then 0x9F else if x = 0xF4 then 0x8F else 0xBF)"

fun rune_width :: "string \<Rightarrow> nat" where
  "rune_width [] = 0"
| "rune_width (a # r) =
     (let x = byte a
      in if x < 0x80 then 1
         else if 0xC2 \<le> x \<and> x \<le> 0xDF then
           (case r of b # _ \<Rightarrow> if cont_byte b then 2 else 0 | _ \<Rightarrow> 0)
         else if 0xE0 \<le> x \<and> x \<le> 0xEF then
           (case r of b # c # _ \<Rightarrow> if second_ok x b \<and> cont_byte c then 3 else 0 | _ \<Rightarrow> 0)
         else if 0xF0 \<le> x \<and> x \<le> 0xF4 then
           (case r of b # c # d # _ \<Rightarrow>
              if second_ok x b \<and> cont_byte c \<and> cont_byte d then 4 else 0 | _ \<Rightarrow> 0)
         else 0)"

lemma rune_width_le: "rune_width s \<le> length s"
  by (cases s) (auto simp: Let_def split: list.splits)

lemma rune_width_le4: "rune_width s \<le> 4"
  by (cases s) (auto simp: Let_def split: list.splits)

text \<open>\<open>utf8.ValidString\<close>.\<close>

function valid_utf8 :: "string \<Rightarrow> bool" where
  "valid_utf8 s =
     (if s = [] then True
      else if rune_width s = 0 then False
      else valid_utf8 (drop (rune_width s) s))"
  by pat_completeness auto
termination
  by (relation "measure length") (auto simp: rune_width_le)

declare valid_utf8.simps [simp del]

lemma valid_utf8_nil [simp]: "valid_utf8 []"
  by (subst valid_utf8.simps) simp

text \<open>The width is decided by the first four bytes at most: by those it takes in.\<close>

lemma rune_width_append: "rune_width s \<noteq> 0 \<Longrightarrow> rune_width (s @ t) = rune_width s"
proof (cases s)
  case (Cons a r)
  assume "rune_width s \<noteq> 0"
  with Cons show ?thesis
    by (cases r; cases "tl r"; cases "tl (tl r)") (simp_all add: Let_def split: if_splits)
qed simp

lemma rune_width_take:
  assumes "rune_width s \<noteq> 0" "rune_width s \<le> n"
  shows "rune_width (take n s) = rune_width s"
proof -
  have "rune_width (take (rune_width s) s) = rune_width s"
  proof (cases s)
    case (Cons a r)
    with assms(1) show ?thesis
      by (cases r; cases "tl r"; cases "tl (tl r)")
         (simp_all add: Let_def numeral_eq_Suc split: if_splits)
  qed simp
  moreover have "take n s = take (rune_width s) s @ take (n - rune_width s) (drop (rune_width s) s)"
    using assms(2) by (metis le_add_diff_inverse take_add)
  ultimately show ?thesis using assms(1) rune_width_append by metis
qed

text \<open>A prefix of a valid text is valid once at most three bytes more are cut off.\<close>

lemma valid_utf8_take:
  "valid_utf8 s \<Longrightarrow> n \<le> length s \<Longrightarrow> \<exists>k \<le> 3. k \<le> n \<and> valid_utf8 (take (n - k) s)"
proof (induction s arbitrary: n rule: valid_utf8.induct)
  case (1 s)
  let ?w = "rune_width s"
  show ?case
  proof (cases "s = [] \<or> n < ?w")
    case True
    then have "n \<le> 3" using rune_width_le4 [of s] "1.prems"(2) by auto
    then show ?thesis by (intro exI [of _ n]) simp
  next
    case False
    then have w: "?w \<noteq> 0" "valid_utf8 (drop ?w s)" "?w \<le> n"
      using "1.prems"(1) valid_utf8.simps [of s] by (auto split: if_splits)
    have "n - ?w \<le> length (drop ?w s)" using "1.prems"(2) by simp
    moreover have "s \<noteq> []" using False by simp
    ultimately obtain k where
      k: "k \<le> 3" "k \<le> n - ?w" "valid_utf8 (take (n - ?w - k) (drop ?w s))"
      using "1.IH" w by blast
    have "?w \<le> n - k" using k(2) w(3) by simp
    then have "rune_width (take (n - k) s) = ?w"
      using rune_width_take [OF w(1)] by simp
    moreover have "drop ?w (take (n - k) s) = take (n - ?w - k) (drop ?w s)"
      by (simp add: drop_take add.commute)
    ultimately have "valid_utf8 (take (n - k) s)"
      using k(3) w(1) by (subst valid_utf8.simps) simp
    with k show ?thesis by auto
  qed
qed

lemma valid_utf8_append: "valid_utf8 s \<Longrightarrow> valid_utf8 t \<Longrightarrow> valid_utf8 (s @ t)"
proof (induction s rule: valid_utf8.induct)
  case (1 s)
  show ?case
  proof (cases "s = []")
    case True
    with 1 show ?thesis by simp
  next
    case False
    with 1 have w: "rune_width s \<noteq> 0" "valid_utf8 (drop (rune_width s) s @ t)"
      using valid_utf8.simps [of s] by (auto split: if_splits)
    have "rune_width (s @ t) = rune_width s"
      using rune_width_append [OF w(1)] .
    with w rune_width_le [of s] show ?thesis
      by (subst valid_utf8.simps) simp
  qed
qed

subsection \<open>Runes\<close>

definition rune_value :: "string \<Rightarrow> nat \<Rightarrow> nat" where
  "rune_value s w =
     (let b = (\<lambda>i. byte (s ! i))
      in if w = 1 then b 0
         else if w = 2 then (b 0 mod 0x20) * 0x40 + b 1 mod 0x40
         else if w = 3 then (b 0 mod 0x10) * 0x1000 + (b 1 mod 0x40) * 0x40 + b 2 mod 0x40
         else (b 0 mod 0x08) * 0x40000 + (b 1 mod 0x40) * 0x1000 + (b 2 mod 0x40) * 0x40 + b 3 mod 0x40)"

text \<open>\<open>[]rune(s)\<close>.\<close>

function decode_runes :: "string \<Rightarrow> nat list" where
  "decode_runes s =
     (if s = [] then []
      else if rune_width s = 0 then 0xFFFD # decode_runes (tl s)
      else rune_value s (rune_width s) # decode_runes (drop (rune_width s) s))"
  by pat_completeness auto
termination
  by (relation "measure length") auto

declare decode_runes.simps [simp del]

text \<open>\<open>strings.Builder.WriteRune\<close>: a value that is no rune is written as U+FFFD.\<close>

definition encode_rune :: "nat \<Rightarrow> string" where
  "encode_rune v =
     (let r = (if 0x10FFFF < v \<or> (0xD800 \<le> v \<and> v \<le> 0xDFFF) then 0xFFFD else v)
      in if r < 0x80 then [char_of r]
         else if r < 0x800 then [char_of (0xC0 + r div 0x40), char_of (0x80 + r mod 0x40)]
         else if r < 0x10000 then
           [char_of (0xE0 + r div 0x1000), char_of (0x80 + r div 0x40 mod 0x40),
            char_of (0x80 + r mod 0x40)]
         else
           [char_of (0xF0 + r div 0x40000), char_of (0x80 + r div 0x1000 mod 0x40),
            char_of (0x80 + r div 0x40 mod 0x40), char_of (0x80 + r mod 0x40)])"

definition encode_runes :: "nat list \<Rightarrow> string" where
  "encode_runes rs = concat (map encode_rune rs)"

lemma decode_runes_ascii: "list_all (\<lambda>c. byte c < 0x80) s \<Longrightarrow> decode_runes s = map byte s"
proof (induction s)
  case (Cons a s)
  then show ?case by (subst decode_runes.simps) (simp add: rune_value_def)
qed (simp add: decode_runes.simps)

text \<open>A rune read from well-formed bytes is written back as those bytes.\<close>

lemma char_of_byte [simp]: "char_of (byte c) = c"
  by (simp add: byte_def)

lemma cont_byte_split: "cont_byte c \<Longrightarrow> \<exists>j < 0x40. byte c = 0x80 + j"
  by (intro exI [of _ "byte c - 0x80"]) (auto simp: cont_byte_def)

lemma digit_mod: "x = k * m + i \<Longrightarrow> i < m \<Longrightarrow> x mod m = i" for x :: nat
  by simp

lemma digit_div: "x = k * m + i \<Longrightarrow> i < m \<Longrightarrow> x div m = k" for x :: nat
  by simp

text \<open>A value by its base 64 digits, as the bytes of a rune have them.\<close>

lemma digits64:
  fixes h k l :: nat
  assumes "k < 0x40" "l < 0x40"
  shows "(h * 0x1000 + k * 0x40 + l) mod 0x40 = l" "(h * 0x1000 + k * 0x40 + l) div 0x40 mod 0x40 = k"
    "(h * 0x1000 + k * 0x40 + l) div 0x1000 = h"
proof -
  have "(h * 0x1000 + k * 0x40 + l) div 0x40 = h * 0x40 + k"
    by (rule digit_div [where i = l]) (use assms in simp_all)
  with assms show "(h * 0x1000 + k * 0x40 + l) div 0x40 mod 0x40 = k" by simp
  show "(h * 0x1000 + k * 0x40 + l) mod 0x40 = l"
    by (rule digit_mod [where k = "h * 0x40 + k"]) (use assms in simp_all)
  show "(h * 0x1000 + k * 0x40 + l) div 0x1000 = h"
    by (rule digit_div [where i = "k * 0x40 + l"]) (use assms in simp_all)
qed

lemma encode_rune_value:
  assumes "rune_width s \<noteq> 0"
  shows "encode_rune (rune_value s (rune_width s)) = take (rune_width s) s"
proof -
  obtain a r where s: "s = a # r" using assms by (cases s) auto
  define x where "x = byte a"
  have a: "char_of x = a" by (simp add: x_def)
  have cont: "char_of (0x80 + j) = b" if "byte b = 0x80 + j" for b j using that char_of_byte [of b] by simp
  consider (one) "x < 0x80" | (two) "0xC2 \<le> x" "x \<le> 0xDF" | (three) "0xE0 \<le> x" "x \<le> 0xEF" | (four) "0xF0 \<le> x" "x \<le> 0xF4"
    using assms by (auto simp: s x_def Let_def split: if_splits)
  then show ?thesis
  proof cases
    case one
    then show ?thesis by (simp add: s x_def rune_value_def encode_rune_def)
  next
    case two
    then obtain b t where r: "r = b # t" "cont_byte b" using assms by (auto simp: s x_def Let_def split: list.splits if_splits)
    obtain j where j: "j < 0x40" "byte b = 0x80 + j" using cont_byte_split [OF r(2)] by blast
    define i where "i = x - 0xC0"
    have i: "x = 0xC0 + i" "2 \<le> i" "i < 0x20" using two by (auto simp: i_def)
    have mods: "x mod 0x20 = i" "byte b mod 0x40 = j"
      by (rule digit_mod [of _ 6], use i in simp_all, rule digit_mod [of _ 2], use j in simp_all)
    have "rune_width s = 2" using two r by (simp add: s x_def [symmetric])
    moreover have "rune_value s 2 = i * 0x40 + j" using mods by (simp add: rune_value_def s r x_def [symmetric])
    moreover have "(i * 0x40 + j) div 0x40 = i" "(i * 0x40 + j) mod 0x40 = j" using j by simp_all
    ultimately show ?thesis using i j cont [OF j(2)] a by (simp add: encode_rune_def s r Let_def)
  next
    case three
    then obtain b c t where r: "r = b # c # t" "second_ok x b" "cont_byte c"
      using assms by (auto simp: s x_def [symmetric] Let_def split: list.splits if_splits)
    have "cont_byte b" using r(2) by (auto simp: second_ok_def cont_byte_def split: if_splits)
    then obtain j where j: "j < 0x40" "byte b = 0x80 + j" using cont_byte_split by blast
    obtain k where k: "k < 0x40" "byte c = 0x80 + k" using cont_byte_split [OF r(3)] by blast
    define i where "i = x - 0xE0"
    have i: "x = 0xE0 + i" "i < 0x10" using three by (auto simp: i_def)
    define v where "v = i * 0x1000 + j * 0x40 + k"
    have range: "0x800 \<le> v" "v < 0x10000" "v < 0xD800 \<or> 0xDFFF < v"
      using r(2) i j k by (auto simp: second_ok_def v_def split: if_splits)
    have mods: "x mod 0x10 = i" "byte b mod 0x40 = j" "byte c mod 0x40 = k"
      by (rule digit_mod [of _ 14], use i in simp_all, rule digit_mod [of _ 2], use j in simp_all,
          rule digit_mod [of _ 2], use k in simp_all)
    have "rune_width s = 3" using three r by (simp add: s x_def [symmetric])
    moreover have "rune_value s 3 = v" using mods by (simp add: rune_value_def s r x_def [symmetric] v_def)
    moreover have "v mod 0x40 = k" "v div 0x40 mod 0x40 = j" "v div 0x1000 = i"
      unfolding v_def by (rule digits64 [OF j(1) k(1)])+
    ultimately show ?thesis using range i cont [OF j(2)] cont [OF k(2)] a by (auto simp: encode_rune_def s r Let_def)
  next
    case four
    then obtain b c d t where r: "r = b # c # d # t" "second_ok x b" "cont_byte c" "cont_byte d"
      using assms by (auto simp: s x_def [symmetric] Let_def split: list.splits if_splits)
    have "cont_byte b" using r(2) by (auto simp: second_ok_def cont_byte_def split: if_splits)
    then obtain j where j: "j < 0x40" "byte b = 0x80 + j" using cont_byte_split by blast
    obtain k where k: "k < 0x40" "byte c = 0x80 + k" using cont_byte_split [OF r(3)] by blast
    obtain l where l: "l < 0x40" "byte d = 0x80 + l" using cont_byte_split [OF r(4)] by blast
    define i where "i = x - 0xF0"
    have i: "x = 0xF0 + i" "i < 5" using four by (auto simp: i_def)
    define v where "v = (i * 0x40 + j) * 0x1000 + k * 0x40 + l"
    have range: "0x10000 \<le> v" "v \<le> 0x10FFFF"
      using r(2) i j k l by (auto simp: v_def second_ok_def split: if_splits)
    have mods: "x mod 0x08 = i" "byte b mod 0x40 = j" "byte c mod 0x40 = k" "byte d mod 0x40 = l"
      by (rule digit_mod [of _ 30], use i in simp_all, rule digit_mod [of _ 2], use j in simp_all,
          rule digit_mod [of _ 2], use k in simp_all, rule digit_mod [of _ 2], use l in simp_all)
    have "rune_width s = 4" using four r by (simp add: s x_def [symmetric])
    moreover have "rune_value s 4 = v" using mods by (simp add: rune_value_def s r x_def [symmetric] v_def)
    moreover have low: "v mod 0x40 = l" "v div 0x40 mod 0x40 = k" "v div 0x1000 = i * 0x40 + j"
      unfolding v_def by (rule digits64 [OF k(1) l(1)])+
    moreover have "v div 0x1000 mod 0x40 = j" using low(3) j by simp
    moreover have "v div 0x40000 = i"
      by (rule digit_div [where i = "j * 0x1000 + k * 0x40 + l"]) (use j k l in \<open>simp_all add: v_def\<close>)
    ultimately show ?thesis using range i cont [OF j(2)] cont [OF k(2)] cont [OF l(2)] a
      by (auto simp: encode_rune_def s r Let_def)
  qed
qed

end
