(* ===== verification/Ansi.thy ===== *)
theory Ansi
  imports Utf8
begin

text \<open>
  \<^verbatim>\<open>domain/ansi.go\<close>: the terminal escape sequences taken out of a text.  The loop over
  the index \<open>i\<close> of the runes is a recursion over the runes that are left; \<open>i--\<close> before
  the loop's own \<open>i++\<close> leaves the rune at \<open>i\<close> to be read again.
\<close>

definition esc :: nat where "esc = 0x1B"
definition bel :: nat where "bel = 0x07"

definition csi_param :: "nat \<Rightarrow> bool" where "csi_param r \<longleftrightarrow> 0x30 \<le> r \<and> r \<le> 0x3F"
definition csi_inter :: "nat \<Rightarrow> bool" where "csi_inter r \<longleftrightarrow> 0x20 \<le> r \<and> r \<le> 0x2F"
definition csi_final :: "nat \<Rightarrow> bool" where "csi_final r \<longleftrightarrow> 0x40 \<le> r \<and> r \<le> 0x7E"

text \<open>What is left after a CSI sequence whose \<open>ESC [\<close> is read already.\<close>

definition after_csi :: "nat list \<Rightarrow> nat list" where
  "after_csi rs =
     (case dropWhile csi_inter (dropWhile csi_param rs) of
        [] \<Rightarrow> []
      | f # t \<Rightarrow> if csi_final f then t else f # t)"

text \<open>What is left after an OSC sequence whose \<open>ESC ]\<close> is read already.\<close>

fun after_osc :: "nat list \<Rightarrow> nat list" where
  "after_osc [] = []"
| "after_osc (r # rs) =
     (if r = bel then rs
      else if r = esc \<and> rs \<noteq> [] \<and> hd rs = 0x5C then tl rs
      else if r = 0x0A then r # rs
      else after_osc rs)"

lemma after_csi_le: "length (after_csi rs) \<le> length rs"
proof -
  have "length (dropWhile csi_inter (dropWhile csi_param rs)) \<le> length rs"
    by (meson le_trans length_dropWhile_le)
  moreover have "length (case d of [] \<Rightarrow> [] | f # t \<Rightarrow> if csi_final f then t else f # t) \<le> length d" for d
    by (cases d) auto
  ultimately show ?thesis unfolding after_csi_def by (rule order_trans [rotated])
qed

lemma after_osc_le: "length (after_osc rs) \<le> length rs"
  by (induction rs) auto

function strip_runes :: "nat list \<Rightarrow> nat list" where
  "strip_runes [] = []"
| "strip_runes (r # rs) =
     (if r \<noteq> esc then r # strip_runes rs
      else (case rs of
              [] \<Rightarrow> []
            | k # t \<Rightarrow>
                if k = 0x5B then strip_runes (after_csi t)
                else if k = 0x5D then strip_runes (after_osc t)
                else strip_runes (k # t)))"
  by pat_completeness auto
termination
  by (relation "measure length") (auto simp: less_Suc_eq_le le_SucI after_csi_le after_osc_le)

definition strip_ansi :: "string \<Rightarrow> string" where
  "strip_ansi s =
     (if CHR 0x1B \<notin> set s then s else encode_runes (strip_runes (decode_runes s)))"

subsection \<open>Nothing of a sequence is left\<close>

lemma strip_runes_no_esc: "esc \<notin> set (strip_runes rs)"
  by (induction rs rule: strip_runes.induct) (auto split: list.splits)

lemma after_csi_suffix: "suffix (after_csi rs) rs"
proof -
  have "suffix (dropWhile csi_inter (dropWhile csi_param rs)) rs"
    by (meson suffix_dropWhile suffix_order.trans)
  moreover have "suffix (case d of [] \<Rightarrow> [] | f # t \<Rightarrow> if csi_final f then t else f # t) d" for d
    by (cases d) (auto simp: suffix_def)
  ultimately show ?thesis unfolding after_csi_def by (rule suffix_order.trans [rotated])
qed

lemma after_osc_suffix: "suffix (after_osc rs) rs"
proof (induction rs)
  case (Cons r rs)
  then show ?case by (cases rs) (auto intro: suffix_ConsI)
qed simp

lemma suffix_subseq: "suffix xs ys \<Longrightarrow> subseq xs ys"
  by (auto simp: suffix_def)

lemma strip_runes_subseq: "subseq (strip_runes rs) rs"
proof (induction rs rule: strip_runes.induct)
  case (2 r rs)
  show ?case
  proof (cases "r = esc")
    case True
    show ?thesis
    proof (cases rs)
      case (Cons k t)
      have "subseq (after_csi t) rs" "subseq (after_osc t) rs"
        using suffix_subseq [OF after_csi_suffix [of t]] suffix_subseq [OF after_osc_suffix [of t]]
        by (auto simp: Cons)
      then show ?thesis
        using 2 True Cons by (auto intro: subseq_order.trans)
    qed (use True in simp)
  qed (use 2 in simp)
qed simp

lemma encode_rune_esc: "CHR 0x1B \<in> set (encode_rune v) \<longleftrightarrow> v = esc"
proof -
  have high: "CHR 0x1B \<noteq> char_of n" if "0x80 \<le> n" "n < 256" for n :: nat
  proof
    assume "CHR 0x1B = char_of n"
    then have "(of_char (CHR 0x1B) :: nat) = of_char (char_of n :: char)" by simp
    then show False using that by simp
  qed
  have low: "CHR 0x1B = char_of v \<longleftrightarrow> v = 0x1B" if "v < 0x80"
  proof
    assume "CHR 0x1B = char_of v"
    then have "(of_char (CHR 0x1B) :: nat) = of_char (char_of v :: char)" by simp
    then show "v = 0x1B" using that by simp
  next
    assume "v = 0x1B"
    moreover have "CHR 0x1B = char_of (0x1B :: nat)" by code_simp
    ultimately show "CHR 0x1B = char_of v" by simp
  qed
  show ?thesis
  proof (cases "v < 0x80")
    case True
    then show ?thesis using low by (auto simp: encode_rune_def esc_def)
  next
    case False
    have d: "v div 0x40000 < 0x10 \<or> 0x10FFFF < v" by (cases "0x10FFFF < v") auto
    have "v div 0x1000 < 0x10 \<or> \<not> v < 0x10000" "v div 0x40 < 0x20 \<or> \<not> v < 0x800" by auto
    then show ?thesis
      using False d high by (auto simp: encode_rune_def Let_def esc_def split: if_splits)
  qed
qed

text \<open>What is left of a text holds no escape character, stripping it again changes nothing,
  and it is made of the text's own runes in their own order, none added.\<close>

theorem stripped_has_no_escape:
  "\<not> List.member (strip_ansi s) (CHR 0x1B) \<and> strip_ansi (strip_ansi s) = strip_ansi s \<and>
   subseq (strip_runes (decode_runes s)) (decode_runes s)"
proof -
  have "CHR 0x1B \<notin> set (encode_runes (strip_runes rs))" for rs
    using strip_runes_no_esc [of rs] by (auto simp: encode_runes_def encode_rune_esc)
  then show ?thesis by (simp add: strip_ansi_def strip_runes_subseq)
qed

lemma strip_runes_plain: "esc \<notin> set rs \<Longrightarrow> strip_runes (rs @ ts) = rs @ strip_runes ts"
  by (induction rs) auto

lemma after_csi_sequence:
  assumes "list_all csi_param ps" "list_all csi_inter is'" "csi_final f"
  shows "after_csi (ps @ is' @ f # t) = t"
proof -
  have "\<not> csi_param f" "\<not> csi_inter f" using assms(3) by (auto simp: csi_final_def csi_param_def csi_inter_def)
  moreover have "\<not> csi_param (hd is')" if "is' \<noteq> []"
    using assms(2) that by (cases is') (auto simp: csi_inter_def csi_param_def)
  then have "dropWhile csi_param (ps @ is' @ f # t) = is' @ f # t"
    using assms(1) \<open>\<not> csi_param f\<close> by (cases is') (auto simp: dropWhile_append list_all_iff)
  moreover have "dropWhile csi_inter (is' @ f # t) = f # t"
    using assms(2) \<open>\<not> csi_inter f\<close> by (auto simp: dropWhile_append list_all_iff)
  ultimately show ?thesis using assms(3) by (simp add: after_csi_def)
qed

text \<open>A whole control sequence is taken out and nothing else: the text before it stays as
  it is, and what comes after it is read as if the sequence had never been there.\<close>

theorem control_sequence_taken_out:
  assumes "esc \<notin> set before" and "list_all csi_param ps" and "list_all csi_inter is'"
    and "csi_final f"
  shows "strip_runes (before @ [esc, 0x5B] @ ps @ is' @ f # after) = before @ strip_runes after"
  using after_csi_sequence [OF assms(2-4)] by (simp add: strip_runes_plain assms(1))

lemma control_sequence_taken_out_witness:
  "strip_runes ([0x4F] @ [esc, 0x5B] @ [0x33, 0x32] @ [] @ 0x6D # [0x4B]) = [0x4F] @ strip_runes [0x4B]"
  by (rule control_sequence_taken_out)
    (simp_all add: esc_def csi_param_def csi_final_def)

end
