(* ===== verification/GoNumbers.thy ===== *)
theory GoNumbers
  imports GoStrings
begin

text \<open>
  Go's integers as text: \<open>strconv.Itoa\<close> and the \<open>%d\<close> verb, and \<open>strconv.Atoi\<close> and
  \<open>strconv.ParseUint(s, 10, 64)\<close>.  Go's \<open>int\<close> is 64 bits wide; a value read out of
  text is an \<open>int\<close> inside that range or one of the two errors of \<open>strconv\<close>, the
  range error keeping the clipped value Go returns beside it.
\<close>

subsection \<open>Writing\<close>

definition digit_char :: "nat \<Rightarrow> char" where
  "digit_char d = char_of (48 + d)"

fun nat_str :: "nat \<Rightarrow> string" where
  "nat_str n = (if n < 10 then [digit_char n] else nat_str (n div 10) @ [digit_char (n mod 10)])"

declare nat_str.simps [simp del]

definition itoa :: "int \<Rightarrow> string" where
  "itoa i = (if i < 0 then CHR ''-'' # nat_str (nat (- i)) else nat_str (nat i))"

subsection \<open>Reading\<close>

definition digit_val :: "char \<Rightarrow> nat" where
  "digit_val c = byte c - 48"

definition digits_val :: "string \<Rightarrow> nat" where
  "digits_val s = foldl (\<lambda>n c. 10 * n + digit_val c) 0 s"

datatype num_result =
    NumOk int
  | NumSyntax
  | NumRange int

definition int_max :: int where "int_max = 2 ^ 63 - 1"
definition int_min :: int where "int_min = - (2 ^ 63)"

definition all_digits :: "string \<Rightarrow> bool" where
  "all_digits s \<longleftrightarrow> s \<noteq> [] \<and> list_all is_digit s"

definition atoi :: "string \<Rightarrow> num_result" where
  "atoi s =
     (let signed = s \<noteq> [] \<and> (hd s = CHR ''-'' \<or> hd s = CHR ''+'');
          d = (if signed then tl s else s)
      in if \<not> all_digits d then NumSyntax
         else let v = (if signed \<and> hd s = CHR ''-'' then - int (digits_val d) else int (digits_val d))
              in if int_max < v then NumRange int_max
                 else if v < int_min then NumRange int_min
                 else NumOk v)"

text \<open>The value Go returns beside the error: 0 for a syntax error, clipped for a range error.\<close>

fun num_value :: "num_result \<Rightarrow> int" where
  "num_value (NumOk v) = v"
| "num_value NumSyntax = 0"
| "num_value (NumRange v) = v"

fun num_ok :: "num_result \<Rightarrow> int option" where
  "num_ok (NumOk v) = Some v"
| "num_ok NumSyntax = None"
| "num_ok (NumRange v) = None"

text \<open>\<open>strconv.ParseUint(s, 10, 64)\<close>, its errors taken together.\<close>

definition parse_uint64 :: "string \<Rightarrow> nat option" where
  "parse_uint64 s =
     (if all_digits s \<and> digits_val s < 2 ^ 64 then Some (digits_val s) else None)"

subsection \<open>What is written is read back\<close>

lemma byte_digit_char [simp]: "d < 10 \<Longrightarrow> byte (digit_char d) = 48 + d"
  by (simp add: byte_def digit_char_def)

lemma is_digit_digit_char [simp]: "d < 10 \<Longrightarrow> is_digit (digit_char d)"
  by (simp add: is_digit_def)

lemma digit_val_digit_char [simp]: "d < 10 \<Longrightarrow> digit_val (digit_char d) = d"
  by (simp add: digit_val_def)

lemma nat_str_nonempty [simp]: "nat_str n \<noteq> []"
  by (subst nat_str.simps) simp

lemma nat_str_digits: "list_all is_digit (nat_str n)"
proof (induction n rule: nat_str.induct)
  case (1 n)
  then show ?case by (subst nat_str.simps) auto
qed

lemma all_digits_nat_str [simp]: "all_digits (nat_str n)"
  by (simp add: all_digits_def nat_str_digits)

lemma digits_val_snoc: "digits_val (s @ [c]) = 10 * digits_val s + digit_val c"
  by (simp add: digits_val_def)

lemma digits_val_nat_str [simp]: "digits_val (nat_str n) = n"
proof (induction n rule: nat_str.induct)
  case (1 n)
  show ?case
  proof (cases "n < 10")
    case True
    then show ?thesis by (subst nat_str.simps) (simp add: digits_val_def)
  next
    case False
    with 1 have "digits_val (nat_str (n div 10)) = n div 10" by simp
    with False show ?thesis by (subst nat_str.simps) (simp add: digits_val_snoc)
  qed
qed

lemma is_digit_bounds: "is_digit c \<Longrightarrow> c \<noteq> CHR ''-'' \<and> c \<noteq> CHR ''+'' \<and> \<not> ascii_space c"
  by (auto simp: is_digit_def byte_def ascii_space_def)

lemma hd_nat_str: "is_digit (hd (nat_str n))"
  using nat_str_digits [of n] nat_str_nonempty [of n] by (cases "nat_str n") auto

lemma atoi_nat_str: "int n \<le> int_max \<Longrightarrow> atoi (nat_str n) = NumOk (int n)"
  using is_digit_bounds [OF hd_nat_str [of n]]
  by (auto simp: atoi_def Let_def int_min_def)

lemma atoi_itoa:
  assumes "int_min \<le> i" "i \<le> int_max"
  shows "atoi (itoa i) = NumOk i"
proof (cases "i < 0")
  case True
  then show ?thesis using assms by (auto simp: atoi_def itoa_def Let_def int_max_def)
next
  case False
  then show ?thesis using assms atoi_nat_str [of "nat i"] by (simp add: itoa_def)
qed

lemma parse_uint64_nat_str: "n < 2 ^ 64 \<Longrightarrow> parse_uint64 (nat_str n) = Some n"
  by (simp add: parse_uint64_def)

lemma atoi_bounds: "atoi s = NumOk v \<Longrightarrow> int_min \<le> v \<and> v \<le> int_max"
  by (auto simp: atoi_def Let_def split: if_splits)

lemma nat_str_inj [simp]: "nat_str m = nat_str n \<longleftrightarrow> m = n"
  by (metis digits_val_nat_str)

lemma itoa_nat: "itoa (int n) = nat_str n"
  by (simp add: itoa_def)

text \<open>A number is a word: digits are no white space.\<close>

lemma is_digit_plain: "is_digit a \<Longrightarrow> plain a"
  by (auto simp: is_digit_def plain_def ascii_space_def)

lemma digits_plain: "list_all is_digit s \<Longrightarrow> list_all plain s"
  by (auto simp: list_all_iff is_digit_plain)

lemma word_nat_str [simp]: "word (nat_str n)"
  by (simp add: plain_word digits_plain nat_str_digits)

lemma plain_itoa: "list_all plain (itoa i)"
  using digits_plain [OF nat_str_digits]
  by (auto simp: itoa_def plain_def ascii_space_def byte_def)

lemma itoa_nonempty [simp]: "itoa i \<noteq> []"
  by (simp add: itoa_def)

lemma word_itoa [simp]: "word (itoa i)"
  by (simp add: plain_word plain_itoa)

lemma nat_str_absent: "\<not> is_digit c \<Longrightarrow> c \<notin> set (nat_str n)"
  using nat_str_digits [of n] by (auto simp: list_all_iff)

subsection \<open>Arithmetic\<close>

text \<open>A sum of Go \<open>int\<close>s, in 64 bits.\<close>

definition int_wrap :: "int \<Rightarrow> int" where
  "int_wrap x = (x + 2 ^ 63) mod 2 ^ 64 - 2 ^ 63"

lemma int_wrap_id: "int_min \<le> x \<Longrightarrow> x \<le> int_max \<Longrightarrow> int_wrap x = x"
  by (simp add: int_wrap_def int_min_def int_max_def)

lemma atoi_all_digits:
  "all_digits s \<Longrightarrow>
     atoi s = (if int (digits_val s) \<le> int_max then NumOk (int (digits_val s)) else NumRange int_max)"
  by (cases s) (auto simp: atoi_def Let_def all_digits_def int_max_def int_min_def is_digit_def byte_def)

lemma digit_chars:
  "digit_char 0 = CHR ''0''" "digit_char 1 = CHR ''1''" "digit_char 2 = CHR ''2''"
  "digit_char 3 = CHR ''3''" "digit_char 4 = CHR ''4''" "digit_char 5 = CHR ''5''"
  "digit_char 6 = CHR ''6''" "digit_char 7 = CHR ''7''" "digit_char 8 = CHR ''8''"
  "digit_char 9 = CHR ''9''"
  by code_simp+

end
