(* ===== verification/Acceptance.thy ===== *)
theory Acceptance
  imports GoNumbers
begin

text \<open>
  What a story's acceptance criteria are read for: \<^verbatim>\<open>domain/acceptance.go\<close>
  (\<open>LinesBeginning\<close>), \<^verbatim>\<open>listmarker.go\<close>, \<^verbatim>\<open>bugstory.go\<close>,
  \<^verbatim>\<open>sweep.go\<close> and \<^verbatim>\<open>expect.go\<close>.  The four regular expressions are written
  out as recognisers: each is deterministic for a word that starts with a letter, which
  every word the program reads for does, so that the leftmost match, the greedy one and the
  recogniser's are one.  \<open>\s\<close> and \<open>\d\<close> are RE2's, the ASCII ones; the word is
  compared as \<open>(?i)\<close> folds it, by which U+017F is an s and U+212A a k.
\<close>

subsection \<open>List markers\<close>

definition re_space :: "char \<Rightarrow> bool" where
  "re_space c \<longleftrightarrow> byte c = 0x20 \<or> byte c = 0x09 \<or> byte c = 0x0A \<or> byte c = 0x0C \<or> byte c = 0x0D"

text \<open>The bullet U+2022.\<close>

definition bullet :: string where "bullet = [CHR 0xE2, CHR 0x80, CHR 0xA2]"

definition stop_byte :: "char \<Rightarrow> bool" where
  "stop_byte c \<longleftrightarrow> c = CHR ''.'' \<or> c = CHR '')''"

text \<open>An item number and its stop: what follows \<open>\d+[.)]\<close>.\<close>

definition after_number :: "string \<Rightarrow> string option" where
  "after_number s =
     (if takeWhile is_digit s = [] then None
      else (case dropWhile is_digit s of
              [] \<Rightarrow> None
            | c # r \<Rightarrow> if stop_byte c then Some r else None))"

definition after_bullet :: "string \<Rightarrow> string option" where
  "after_bullet s =
     (case s of
        [] \<Rightarrow> None
      | c # r \<Rightarrow>
          if c = CHR ''-'' \<or> c = CHR ''*'' \<or> c = CHR ''+'' then Some r
          else (case cut_prefix s bullet of Some r' \<Rightarrow> Some r' | None \<Rightarrow> after_number s))"

definition after_spaces :: "string \<Rightarrow> string option" where
  "after_spaces s = (if s \<noteq> [] \<and> re_space (hd s) then Some (dropWhile re_space s) else None)"

definition after_marker :: "string \<Rightarrow> string option" where
  "after_marker line = Option.bind (after_bullet (dropWhile re_space line)) after_spaces"

definition trim_list_marker :: "string \<Rightarrow> string" where
  "trim_list_marker line =
     trim_left_set (case after_marker line of Some r \<Rightarrow> r | None \<Rightarrow> line) ('' '' @ [CHR 0x09])"

subsection \<open>Lines beginning with a word\<close>

text \<open>What follows the word in a text, the word in either case.\<close>

fun fold_cut :: "string \<Rightarrow> string \<Rightarrow> string option" where
  "fold_cut [] s = Some s"
| "fold_cut (w # ws) s =
     (case s of
        [] \<Rightarrow> None
      | a # r \<Rightarrow>
          if lower_byte a = lower_byte w then fold_cut ws r
          else if lower_byte w = CHR ''s'' \<and> take 2 s = [CHR 0xC5, CHR 0xBF]
          then fold_cut ws (drop 2 s)
          else if lower_byte w = CHR ''k'' \<and> take 3 s = [CHR 0xE2, CHR 0x84, CHR 0xAA]
          then fold_cut ws (drop 3 s)
          else None)"

definition cut_word :: "string \<Rightarrow> string \<Rightarrow> string option" where
  "cut_word w s = fold_cut (w @ '':'') s"

text \<open>The line of its own: \<open>^(?:\d+\s*[.)]?\s*)?word:(.*)$\<close>.\<close>

definition after_line_number :: "string \<Rightarrow> string" where
  "after_line_number s =
     (if takeWhile is_digit s = [] then s
      else (let r = dropWhile re_space (dropWhile is_digit s)
            in case r of [] \<Rightarrow> r | c # r' \<Rightarrow> if stop_byte c then dropWhile re_space r' else r))"

definition line_match :: "string \<Rightarrow> string \<Rightarrow> string option" where
  "line_match w s = cut_word w (after_line_number s)"

text \<open>An item run on in a line: \<open>\s\d+[.)]\s+word:(.*)$\<close>, the leftmost.\<close>

definition item_at :: "string \<Rightarrow> string \<Rightarrow> string option" where
  "item_at w s =
     (case s of
        [] \<Rightarrow> None
      | c # r \<Rightarrow>
          if re_space c
          then Option.bind (Option.bind (after_number r) after_spaces) (cut_word w)
          else None)"

fun item_match :: "string \<Rightarrow> string \<Rightarrow> string option" where
  "item_match w [] = None"
| "item_match w (c # s) =
     (case item_at w (c # s) of Some r \<Rightarrow> Some r | None \<Rightarrow> item_match w s)"

text \<open>Up to the next item, \<open>\s\d+[.)]\s\<close>.\<close>

definition next_item_at :: "string \<Rightarrow> bool" where
  "next_item_at s =
     (case s of
        [] \<Rightarrow> False
      | c # r \<Rightarrow> re_space c \<and> Option.bind (after_number r) after_spaces \<noteq> None)"

fun upto_next_item :: "string \<Rightarrow> string" where
  "upto_next_item [] = []"
| "upto_next_item (c # s) = (if next_item_at (c # s) then [] else c # upto_next_item s)"

definition line_says :: "string \<Rightarrow> string \<Rightarrow> string option" where
  "line_says w l =
     map_option (\<lambda>got. trim_space (upto_next_item got))
       (case line_match w (trim_list_marker l) of
          Some got \<Rightarrow> Some got
        | None \<Rightarrow> item_match w l)"

definition lines_beginning :: "string \<Rightarrow> string \<Rightarrow> string list" where
  "lines_beginning txt w = List.map_filter (line_says w) (split_on (CHR 0x0A) txt)"

subsection \<open>Bugs and sweeps\<close>

definition BugTitlePrefix :: string where "BugTitlePrefix = ''[bug]''"

definition is_bug_story :: "string \<Rightarrow> string \<Rightarrow> bool" where
  "is_bug_story story_type title \<longleftrightarrow>
     equal_fold (trim_space story_type) ''bug'' \<or>
     has_prefix (to_lower (trim_space title)) BugTitlePrefix"

definition is_bug :: "string \<Rightarrow> string \<Rightarrow> string list \<Rightarrow> bool" where
  "is_bug story_type title labels \<longleftrightarrow> is_bug_story story_type title \<or> ''bug'' \<in> set labels"

datatype sweep_verdict =
    SweepGiven
  | SweepMissing
  | SweepEmpty
  | SweepNoneWithoutReason
  | SweepInDescription

definition passes :: "sweep_verdict \<Rightarrow> bool" where
  "passes v \<longleftrightarrow> v = SweepGiven"

definition quoted :: "string \<Rightarrow> string" where
  "quoted s = [CHR 0x27] @ s @ [CHR 0x27]"

definition verdict_string :: "sweep_verdict \<Rightarrow> string" where
  "verdict_string v =
     (case v of
        SweepMissing \<Rightarrow> ''no line begins with '' @ quoted ''Sweep:''
      | SweepEmpty \<Rightarrow> ''its '' @ quoted ''Sweep:'' @ '' line says nothing after the colon''
      | SweepNoneWithoutReason \<Rightarrow>
          ''its '' @ quoted ''Sweep: none'' @ '' gives no reason: it must read '' @
          quoted ''Sweep: none, because <reason>''
      | SweepInDescription \<Rightarrow> ''its Sweep line is in the description, not the acceptance field''
      | SweepGiven \<Rightarrow> ''has a Sweep line'')"

definition move_words :: "string \<Rightarrow> string" where
  "move_words i =
     (if i = [] then ''put the criteria in the acceptance field''
      else ''copy the criteria with bd update '' @ i @ '' --acceptance'')"

definition SweepRuleName :: string where "SweepRuleName = ''no-sweep''"

definition sweep_refusal :: "sweep_verdict \<Rightarrow> string" where
  "sweep_refusal v =
     (if v = SweepInDescription then ''it is a bug and '' @ verdict_string v
      else ''it is a bug and '' @ verdict_string v @
           '' (a check over the whole class of the fault, or '' @
           quoted ''Sweep: none, because <reason>'' @ '')'')"

definition filing_refusal :: "sweep_verdict \<Rightarrow> string" where
  "filing_refusal v = sweep_refusal v @ '': mw dispatch would refuse it as '' @ SweepRuleName"

text \<open>
  \<open>unicode.IsLetter(rune(b))\<close> of one byte: the letters of Latin-1, for a byte is
  converted to the rune of its own number.
\<close>

definition latin1_letter :: "char \<Rightarrow> bool" where
  "latin1_letter c \<longleftrightarrow>
     is_upper c \<or> is_lower c \<or> byte c = 0xAA \<or> byte c = 0xB5 \<or> byte c = 0xBA \<or>
     0xC0 \<le> byte c \<and> byte c \<noteq> 0xD7 \<and> byte c \<noteq> 0xF7"

definition sweep_line_verdict :: "string \<Rightarrow> sweep_verdict" where
  "sweep_line_verdict txt =
     (if txt = [] then SweepEmpty
      else (case cut_prefix (to_lower txt) ''none'' of
              None \<Rightarrow> SweepGiven
            | Some rest \<Rightarrow>
                if rest \<noteq> [] \<and> latin1_letter (hd rest) then SweepGiven
                else (case cut_prefix (trim_left_set rest '', '') ''because'' of
                        None \<Rightarrow> SweepNoneWithoutReason
                      | Some reason \<Rightarrow>
                          if trim_set reason ('' '' @ [CHR 0x09] @ ''.,:;-'') = []
                          then SweepNoneWithoutReason else SweepGiven)))"

text \<open>The loop of \<open>SweepOf\<close>: the first line that passes, else the last line's verdict.\<close>

fun best_line :: "sweep_verdict \<Rightarrow> string list \<Rightarrow> sweep_verdict" where
  "best_line verdict [] = verdict"
| "best_line verdict (txt # rest) =
     (let got = sweep_line_verdict txt
      in if got = SweepGiven then SweepGiven else best_line got rest)"

definition sweep_of :: "string \<Rightarrow> sweep_verdict" where
  "sweep_of acceptance = best_line SweepMissing (lines_beginning acceptance ''Sweep'')"

definition sweep_of_story :: "string \<Rightarrow> string \<Rightarrow> sweep_verdict" where
  "sweep_of_story acceptance description =
     (let verdict = sweep_of acceptance
      in if verdict = SweepMissing \<and> 0 < length (lines_beginning description ''Sweep'')
         then SweepInDescription else verdict)"

text \<open>
  2026-10-15, midnight UTC, in nanoseconds since the first of January of the year 1:
  739,903 days.
\<close>

definition SweepRuleFrom :: gotime where
  "SweepRuleFrom = 739903 * 24 * 60 * minute"

definition owes_a_sweep :: "string \<Rightarrow> string \<Rightarrow> string list \<Rightarrow> gotime \<Rightarrow> bool" where
  "owes_a_sweep story_type title labels created \<longleftrightarrow>
     \<not> (created = 0 \<or> created < SweepRuleFrom) \<and> is_bug story_type title labels"

subsection \<open>Expect lines\<close>

definition FactoryRig :: string where "FactoryRig = ''millwright''"
definition ExpectNone :: string where "ExpectNone = ''none''"

record expect =
  metric :: string
  direction :: string


definition expect_metrics :: "string list" where
  "expect_metrics = [''refusals'', ''attempts/landing'', ''bugs/landing'', ''escaped bugs'',
     ''dispatch-to-landing'', ''tokens/landing'', ''$/landing'', ''review queue'', ''demos waiting'']"

definition is_expect_metric :: "string \<Rightarrow> bool" where
  "is_expect_metric m \<longleftrightarrow> m \<in> set expect_metrics"

datatype expect_error =
    ErrNoExpect
  | ExpectNoReason string
  | ExpectUnreadable string

definition trim_stops :: "string \<Rightarrow> string" where
  "trim_stops w = trim_right_set w ''.,;:''"

text \<open>A metric of two words is read as one.\<close>

definition join_metric :: "string list \<Rightarrow> string list" where
  "join_metric ws =
     (case ws of
        a # b # c # r \<Rightarrow>
          if is_expect_metric (a @ '' '' @ b) then (a @ '' '' @ b) # c # r else ws
      | _ \<Rightarrow> ws)"

definition read_expect :: "string \<Rightarrow> (expect_error, expect) result" where
  "read_expect txt =
     (let ws = str_fields (to_lower txt)
      in if ws \<noteq> [] \<and> trim_stops (hd ws) = ExpectNone
         then if length ws < 3 \<or> trim_stops (ws ! 1) \<noteq> ''because'' then Inl (ExpectNoReason txt)
              else Inr \<lparr>metric = ExpectNone, direction = []\<rparr>
         else (case join_metric ws of
                 a # b # r \<Rightarrow>
                   let m = trim_stops a; d = trim_stops b
                   in if is_expect_metric m \<and> (d = ''up'' \<or> d = ''down'')
                      then Inr \<lparr>metric = m, direction = d\<rparr> else Inl (ExpectUnreadable txt)
               | _ \<Rightarrow> Inl (ExpectUnreadable txt)))"

definition parse_expect :: "string \<Rightarrow> (expect_error, expect) result" where
  "parse_expect acceptance =
     (case lines_beginning acceptance ''Expect'' of
        [] \<Rightarrow> Inl ErrNoExpect
      | txt # _ \<Rightarrow> read_expect txt)"

definition owes_an_expect :: "string \<Rightarrow> bool" where
  "owes_an_expect rig \<longleftrightarrow> rig = FactoryRig"

text \<open>The refusal is the story's own, or that its line is in the wrong field.\<close>

datatype expect_refusal =
    ExpectRefused expect_error
  | ExpectInDescription

definition expect_refusal_in :: "expect_error \<Rightarrow> string \<Rightarrow> expect_refusal" where
  "expect_refusal_in err description =
     (if err = ErrNoExpect \<and> 0 < length (lines_beginning description ''Expect'')
      then ExpectInDescription else ExpectRefused err)"

subsection \<open>Reading line by line\<close>

lemma map_filter_append': "List.map_filter f (xs @ ys) = List.map_filter f xs @ List.map_filter f ys"
  by (simp add: List.map_filter_def)

lemma lines_beginning_append:
  "lines_beginning (a @ newline @ b) w = lines_beginning a w @ lines_beginning b w"
  by (simp add: lines_beginning_def newline_def split_on_lines map_filter_append')


text \<open>A list marker: none, a bullet or an item number with its stop.\<close>

definition list_marker :: "string \<Rightarrow> bool" where
  "list_marker m \<longleftrightarrow>
     m = [] \<or> m = ''- '' \<or> m = ''* '' \<or> m = ''+ '' \<or> m = bullet @ '' '' \<or>
     (\<exists>n. m = nat_str n @ ''. '' \<or> m = nat_str n @ '') '')"

definition letter_first :: "string \<Rightarrow> bool" where
  "letter_first s \<longleftrightarrow> s \<noteq> [] \<and> (is_upper (hd s) \<or> is_lower (hd s))"

lemma letter_facts:
  assumes "is_upper c \<or> is_lower c"
  shows "\<not> re_space c" "\<not> is_digit c" "c \<noteq> CHR ''-''" "c \<noteq> CHR ''*''" "c \<noteq> CHR ''+''"
    "c \<noteq> CHR 0xE2" "c \<noteq> CHR '' ''" "c \<noteq> CHR 0x09"
  using assms by (auto simp: is_upper_def is_lower_def re_space_def is_digit_def byte_def)

lemma letter_first_cases:
  assumes "letter_first s"
  obtains c r where "s = c # r" "is_upper c \<or> is_lower c"
  using assms by (cases s) (auto simp: letter_first_def)

lemma letter_first_no_marker:
  assumes "letter_first s"
  shows "after_marker s = None" "trim_left_set s [CHR '' '', CHR 0x09] = s" "after_line_number s = s"
    "re_space a \<Longrightarrow> after_spaces (a # s) = Some s"
  using assms by (auto elim!: letter_first_cases
      simp: letter_facts after_marker_def after_bullet_def after_number_def cut_prefix_def
        bullet_def has_prefix_def trim_left_set_def after_line_number_def after_spaces_def)

lemma after_number_nat_str:
  assumes "stop_byte c"
  shows "after_number (nat_str n @ c # r) = Some r"
proof -
  have "\<not> is_digit c" using assms by (auto simp: stop_byte_def is_digit_def byte_def)
  moreover have "\<forall>d \<in> set (nat_str n). is_digit d" "nat_str n \<noteq> []"
    using all_digits_nat_str [of n] by (simp_all add: all_digits_def list_all_iff)
  ultimately show ?thesis
    by (simp add: after_number_def takeWhile_append dropWhile_append assms)
qed

lemma nat_str_first:
  obtains d r where "nat_str n = d # r" "is_digit d" "list_all is_digit r"
  using nat_str_digits [of n] by (cases "nat_str n") auto

lemma digit_facts:
  assumes "is_digit d"
  shows "\<not> re_space d" "d \<noteq> CHR ''-''" "d \<noteq> CHR ''*''" "d \<noteq> CHR ''+''" "d \<noteq> CHR 0xE2"
  using assms by (auto simp: is_digit_def byte_def re_space_def)

lemma re_space_blank [simp]: "re_space (CHR '' '')"
  by (simp add: re_space_def byte_def)

lemma stop_byte_stops [simp]: "stop_byte (CHR ''.'')" "stop_byte (CHR '')'')"
  by (simp_all add: stop_byte_def)

lemma dropWhile_nat_str [simp]: "dropWhile re_space (nat_str n @ s) = nat_str n @ s"
  by (rule nat_str_first [of n]) (simp add: digit_facts)

lemma after_bullet_nat_str:
  assumes "stop_byte c"
  shows "after_bullet (nat_str n @ c # r) = Some r"
proof -
  obtain d q where d: "nat_str n = d # q" "is_digit d" by (rule nat_str_first [of n])
  have "after_bullet (d # q @ c # r) = after_number (d # q @ c # r)"
    using digit_facts [OF d(2)]
    by (simp add: after_bullet_def cut_prefix_def has_prefix_def bullet_def)
  then show ?thesis using after_number_nat_str [OF assms, of n r] by (simp add: d)
qed

lemma bullet_bytes [simp]: "\<not> re_space (CHR 0xE2)"
  by (simp add: re_space_def byte_def)

lemma after_marker_list_marker:
  assumes "list_marker m" "m \<noteq> []" "letter_first s"
  shows "after_marker (m @ s) = Some s"
proof -
  note [simp] = letter_first_no_marker(4) [OF assms(3)]
  have *: "after_marker (nat_str n @ c # CHR '' '' # s) = Some s" if "stop_byte c" for n c
    by (simp add: after_marker_def after_bullet_nat_str that)
  consider (number) n c where "m = nat_str n @ [c, CHR '' '']" "stop_byte c"
    | (mark) "m = ''- '' \<or> m = ''* '' \<or> m = ''+ ''" | (bullet) "m = bullet @ '' ''"
    using assms(1,2) unfolding list_marker_def by force
  then show ?thesis
  proof cases
    case number
    then show ?thesis using * by simp
  qed (auto simp: after_marker_def after_bullet_def bullet_def
        cut_prefix_def has_prefix_def re_space_def byte_def)
qed

lemma trim_list_marker_marked:
  assumes "list_marker m" "letter_first s"
  shows "trim_list_marker (m @ s) = s"
  using assms by (cases "m = []")
    (simp_all add: trim_list_marker_def after_marker_list_marker letter_first_no_marker)

lemma fold_cut_self: "fold_cut w (w @ t) = Some t"
  by (induction w) auto

lemma fold_cut_fold:
  "map lower_byte v = map lower_byte w \<Longrightarrow> fold_cut w (v @ t) = Some t"
proof (induction w arbitrary: v)
  case (Cons a w)
  then show ?case by (cases v) auto
qed simp

lemma marked_line_read':
  assumes "list_marker m" and "letter_first w" and "map lower_byte v = map lower_byte w"
  shows "line_says w (m @ v @ '':'' @ t) = Some (trim_space (upto_next_item t))"
proof -
  have v: "letter_first (v @ '':'' @ t)"
  proof -
    obtain c r where w: "w = c # r" "is_upper c \<or> is_lower c"
      using assms(2) by (rule letter_first_cases)
    then obtain d q where d: "v = d # q" "lower_byte d = lower_byte c"
      using assms(3) by (cases v) auto
    then have "is_upper d \<or> is_lower d"
      using w(2) by (auto simp: lower_byte_def is_upper_def is_lower_def byte_def split: if_splits)
    then show ?thesis by (simp add: letter_first_def d)
  qed
  have "cut_word w (v @ '':'' @ t) = Some t"
    using fold_cut_fold [of "v @ '':''" "w @ '':''" t] assms(3) by (simp add: cut_word_def)
  then show ?thesis
    using v by (simp add: line_says_def line_match_def trim_list_marker_marked [OF assms(1)]
        letter_first_no_marker)
qed

text \<open>A line is read for its word alike whatever list marker it stands behind and
  whatever the case of its word: a bullet, an item number with a stop or a bracket, or none.\<close>

theorem marked_line_read:
  assumes "list_marker m" and "letter_first w" and "map lower_byte v = map lower_byte w"
  shows "line_says w (m @ v @ '':'' @ t) = Some (trim_space (upto_next_item t))"
  using assms by (rule marked_line_read')

lemma marked_line_read_witness:
  "line_says ''Sweep'' (''- '' @ ''SWEEP'' @ '':'' @ '' every route'') =
     Some (trim_space (upto_next_item '' every route''))"
  by (rule marked_line_read)
    (simp add: list_marker_def, simp add: letter_first_def is_upper_def byte_def, code_simp)

subsection \<open>The sweep rule\<close>

lemma best_line_given:
  "best_line v ts = SweepGiven \<longleftrightarrow>
     (\<exists>t \<in> set ts. sweep_line_verdict t = SweepGiven) \<or> ts = [] \<and> v = SweepGiven"
  by (induction v ts rule: best_line.induct) (auto simp: Let_def)

lemma sweep_line_not_missing:
  "sweep_line_verdict t \<noteq> SweepMissing" "sweep_line_verdict t \<noteq> SweepInDescription"
  by (auto simp: sweep_line_verdict_def split: option.splits)

lemma best_line_missing:
  "best_line v ts = SweepMissing \<longleftrightarrow> ts = [] \<and> v = SweepMissing"
  by (induction v ts rule: best_line.induct) (auto simp: Let_def sweep_line_not_missing)

lemma sweep_of_given:
  "sweep_of a = SweepGiven \<longleftrightarrow>
     (\<exists>t \<in> set (lines_beginning a ''Sweep''). sweep_line_verdict t = SweepGiven)"
  by (simp add: sweep_of_def best_line_given)

lemma sweep_of_missing: "sweep_of a = SweepMissing \<longleftrightarrow> lines_beginning a ''Sweep'' = []"
  by (simp add: sweep_of_def best_line_missing)

text \<open>C33. A bug's sweep is read from each line of its acceptance: criteria written on further
  lines never take a sweep away, nor hide one, and a bug has one exactly when a line of it is
  one; a sweep that stands in the description only is told apart from none at all.\<close>

theorem sweep_read_by_line:
  "(sweep_of (a @ newline @ b) = SweepGiven \<longleftrightarrow> sweep_of a = SweepGiven \<or> sweep_of b = SweepGiven) \<and>
   (passes (sweep_of_story a description) \<longleftrightarrow>
      (\<exists>t. List.member (lines_beginning a ''Sweep'') t \<and> sweep_line_verdict t = SweepGiven)) \<and>
   (sweep_of_story a description = SweepInDescription \<longleftrightarrow>
      lines_beginning a ''Sweep'' = [] \<and> lines_beginning description ''Sweep'' \<noteq> [])"
proof -
  have "sweep_of a \<noteq> SweepInDescription"
  proof -
    have "best_line v ts \<noteq> SweepInDescription" if "v \<noteq> SweepInDescription" for v ts
      using that by (induction v ts rule: best_line.induct)
        (auto simp: Let_def sweep_line_not_missing)
    then show ?thesis by (simp add: sweep_of_def)
  qed
  then show ?thesis
    by (auto simp: sweep_of_given lines_beginning_append passes_def sweep_of_story_def Let_def
        sweep_of_missing)
qed

text \<open>
  A \<open>none\<close> with a dash of more than one byte at once after it is taken for a longer
  word, for the dash's first byte, converted to a rune, is a letter: no reason is asked for.
\<close>

lemma sweep_none_dash_passes:
  "sweep_of (''Sweep: none'' @ [CHR 0xE2, CHR 0x80, CHR 0x94]) = SweepGiven \<and>
   sweep_of ''Sweep: none'' = SweepNoneWithoutReason"
  by code_simp

subsection \<open>The Expect line\<close>



lemma blank_facts [simp]: "byte (CHR '' '') = 32" "\<not> is_digit (CHR '' '')"
    "lower_byte (CHR '' '') = CHR '' ''"
  by (simp_all add: is_digit_def byte_def lower_byte_def is_upper_def)




lemma ascii_space_blank [simp]: "ascii_space (CHR '' '')"
  by (simp add: ascii_space_def byte_def)











lemma parse_expect_sound:
  assumes "parse_expect acceptance = Inr e"
  shows "metric e = ExpectNone \<and> direction e = [] \<or>
     is_expect_metric (metric e) \<and> (direction e = ''up'' \<or> direction e = ''down'')"
  using assms
  by (auto simp: parse_expect_def read_expect_def Let_def split: list.splits if_splits)

end
