(* ===== verification/BeadGraph.thy ===== *)
theory BeadGraph
  imports GoNumbers Utf8 "HOL-Library.Char_ord" "HOL-Library.List_Lexorder"
begin

text \<open>
  The beads of the tracker as a graph: \<^verbatim>\<open>domain/doneopen.go\<close>, which picks out the
  open beads that look finished, and \<^verbatim>\<open>domain/heldfor.go\<close>, the beads held behind an
  event.  A Go map from names to slices is a function to lists that is empty where the map has
  no entry; where it is ranged over, an association list with its keys in the order they were
  first put in, which no result depends on.  Which runes Unicode has for letters is a
  parameter of \<open>isMapOrEpic\<close>, for it is a table of the Go library's.
\<close>

abbreviation EdgeParentChild :: string where "EdgeParentChild \<equiv> ''parent-child''"

record bead_edge =
  be_to :: string
  be_kind :: string

record graph_bead =
  gb_id :: string
  gb_title :: string
  gb_status :: string
  gb_type :: string
  gb_labels :: "string list"
  gb_priority :: int
  gb_created :: gotime
  gb_edges :: "bead_edge list"

record finished =
  fi_id :: string
  fi_title :: string
  fi_why :: string

definition finishedNamed :: nat where "finishedNamed = 3"

definition graph_status_open :: "string \<Rightarrow> bool" where
  "graph_status_open status \<longleftrightarrow> status = ''open'' \<or> status = ''in_progress''"

definition has_label :: "graph_bead \<Rightarrow> string \<Rightarrow> bool" where
  "has_label b label \<longleftrightarrow> label \<in> set (gb_labels b)"

definition is_wayfinder_ticket :: "graph_bead \<Rightarrow> bool" where
  "is_wayfinder_ticket b \<longleftrightarrow>
     (let title = to_lower (trim_space (gb_title b))
      in has_prefix title ''grilling:'' \<or> has_prefix title ''research:'' \<or>
         has_label b ''wayfinder:grilling'' \<or> has_label b ''wayfinder:research'')"

definition is_grilling :: "graph_bead \<Rightarrow> bool" where
  "is_grilling b \<longleftrightarrow>
     has_prefix (to_lower (trim_space (gb_title b))) ''grilling:'' \<or> has_label b ''wayfinder:grilling''"

text \<open>The first rune of a text that is not empty.\<close>

definition first_rune :: "string \<Rightarrow> nat" where
  "first_rune s = (if rune_width s = 0 then 0xFFFD else rune_value s (rune_width s))"

definition is_map_or_epic :: "(nat \<Rightarrow> bool) \<Rightarrow> graph_bead \<Rightarrow> bool" where
  "is_map_or_epic is_letter b \<longleftrightarrow>
     (if gb_type b = ''epic'' \<or> has_label b ''wayfinder:map'' then True
      else (case cut_prefix (to_lower (trim_space (gb_title b))) ''map'' of
              None \<Rightarrow> False
            | Some rest \<Rightarrow> rest = [] \<or> \<not> is_letter (first_rune rest)))"

subsection \<open>Links\<close>

type_synonym id_lists = "string \<Rightarrow> string list"

definition put_id :: "id_lists \<Rightarrow> string \<Rightarrow> string \<Rightarrow> id_lists" where
  "put_id m k v = m(k := m k @ [v])"

definition add_edge :: "string \<Rightarrow> id_lists \<times> id_lists \<Rightarrow> bead_edge \<Rightarrow> id_lists \<times> id_lists" where
  "add_edge i st e =
     (case st of (children, linked) \<Rightarrow>
        if be_kind e = EdgeParentChild
        then (put_id children (be_to e) i, put_id linked (be_to e) i)
        else (children, put_id (put_id linked i (be_to e)) (be_to e) i))"

definition bead_links :: "graph_bead list \<Rightarrow> id_lists \<times> id_lists" where
  "bead_links beads =
     foldl (\<lambda>st b. foldl (add_edge (gb_id b)) st (gb_edges b)) (\<lambda>_. [], \<lambda>_. []) beads"

definition by_id :: "graph_bead list \<Rightarrow> string \<Rightarrow> graph_bead option" where
  "by_id beads = foldl (\<lambda>m b. m(gb_id b \<mapsto> b)) Map.empty beads"

definition children_closed :: "(string \<Rightarrow> graph_bead option) \<Rightarrow> string list \<Rightarrow> string option" where
  "children_closed m ids =
     (if length ids = 0 then None
      else if list_ex (\<lambda>i. case m i of None \<Rightarrow> True | Some child \<Rightarrow> gb_status child \<noteq> ''closed'') ids
      then None
      else Some (''all '' @ nat_str (length ids) @ '' children closed''))"

text \<open>The loop over the linked beads: \<open>None\<close> when it returns early; the epics are the keys
  of \<open>seen\<close> too.\<close>

fun closed_epics ::
  "(string \<Rightarrow> graph_bead option) \<Rightarrow> string list \<Rightarrow> string list \<Rightarrow> string list option"
where
  "closed_epics m [] epics = Some epics"
| "closed_epics m (i # ids) epics =
     (case m i of
        None \<Rightarrow> closed_epics m ids epics
      | Some other \<Rightarrow>
          if gb_type other \<noteq> ''epic'' \<or> List.member epics i then closed_epics m ids epics
          else if gb_status other \<noteq> ''closed'' then None
          else closed_epics m ids (epics @ [i]))"

definition epics_closed :: "(string \<Rightarrow> graph_bead option) \<Rightarrow> string list \<Rightarrow> string option" where
  "epics_closed m ids =
     (case closed_epics m ids [] of
        None \<Rightarrow> None
      | Some epics \<Rightarrow>
          if length epics = 0 then None
          else let why = ''its epics '' @ join '', '' (take (min (length epics) finishedNamed) epics);
                   why = (if finishedNamed < length epics
                          then why @ '' and '' @ nat_str (length epics - finishedNamed) @ '' more''
                          else why)
               in Some (why @ '' closed''))"

definition looks_finished ::
  "(nat \<Rightarrow> bool) \<Rightarrow> (string \<Rightarrow> graph_bead option) \<Rightarrow> id_lists \<times> id_lists \<Rightarrow> graph_bead \<Rightarrow> string option"
where
  "looks_finished is_letter m st b =
     (case st of (children, linked) \<Rightarrow>
        if \<not> graph_status_open (gb_status b) then None
        else if is_wayfinder_ticket b then epics_closed m (linked (gb_id b))
        else if is_map_or_epic is_letter b then children_closed m (children (gb_id b))
        else None)"

definition finished_still_open :: "(nat \<Rightarrow> bool) \<Rightarrow> graph_bead list \<Rightarrow> finished list" where
  "finished_still_open is_letter beads =
     (let m = by_id beads; st = bead_links beads
      in List.map_filter (\<lambda>b. map_option
           (\<lambda>why. \<lparr>fi_id = gb_id b, fi_title = gb_title b, fi_why = why\<rparr>)
           (looks_finished is_letter m st b)) beads)"

subsection \<open>Beads held behind an event\<close>

definition HeldForPrefix :: string where "HeldForPrefix = ''held-for-''"

type_synonym by_label = "(string \<times> string list) list"

fun put_label :: "string \<Rightarrow> string \<Rightarrow> by_label \<Rightarrow> by_label" where
  "put_label label i [] = [(label, [i])]"
| "put_label label i ((l, ids) # m) =
     (if l = label then (l, ids @ [i]) # m else (l, ids) # put_label label i m)"

fun put_labels :: "string \<Rightarrow> string list \<Rightarrow> string list \<Rightarrow> by_label \<Rightarrow> by_label" where
  "put_labels i [] seen m = m"
| "put_labels i (label # labels) seen m =
     (let label = to_lower label
      in if \<not> has_prefix label HeldForPrefix \<or> label = HeldForPrefix \<or> List.member seen label
         then put_labels i labels seen m
         else put_labels i labels (label # seen) (put_label label i m))"

definition add_held :: "by_label \<Rightarrow> graph_bead \<Rightarrow> by_label" where
  "add_held m b =
     (if equal_fold (gb_status b) ''closed'' then m
      else put_labels (gb_id b) (gb_labels b) [] m)"

record held_for =
  hf_label :: string
  hf_beads :: "string list"

definition held_for_labels :: "graph_bead list \<Rightarrow> held_for list" where
  "held_for_labels graph =
     sort_key hf_label
       (map (\<lambda>(label, ids). \<lparr>hf_label = label, hf_beads = sort ids\<rparr>) (foldl add_held [] graph))"

definition held_for_event :: "graph_bead list \<Rightarrow> string \<Rightarrow> string list" where
  "held_for_event graph event =
     (let want = HeldForPrefix @ to_lower (trim_space event)
      in case List.find (\<lambda>held. hf_label held = want) (held_for_labels graph) of
           None \<Rightarrow> [] | Some held \<Rightarrow> hf_beads held)"

definition held_for_label :: "string list \<Rightarrow> string" where
  "held_for_label labels =
     (case List.find (\<lambda>label. has_prefix label HeldForPrefix \<and> label \<noteq> HeldForPrefix)
             (map (\<lambda>label. to_lower (trim_space label)) labels) of
        None \<Rightarrow> [] | Some label \<Rightarrow> label)"

subsection \<open>What looks finished\<close>

text \<open>A bead's parent-child edges make it a child of their ends; every other edge links both
  its ends, and a parent is linked to its child but not the child to its parent.\<close>

definition child_of :: "graph_bead list \<Rightarrow> string \<Rightarrow> string \<Rightarrow> bool" where
  "child_of beads i x \<longleftrightarrow>
     (\<exists>b \<in> set beads. \<exists>e \<in> set (gb_edges b).
        be_kind e = EdgeParentChild \<and> be_to e = i \<and> x = gb_id b)"

definition linked_to :: "graph_bead list \<Rightarrow> string \<Rightarrow> string \<Rightarrow> bool" where
  "linked_to beads i x \<longleftrightarrow> child_of beads i x \<or>
     (\<exists>b \<in> set beads. \<exists>e \<in> set (gb_edges b). be_kind e \<noteq> EdgeParentChild \<and>
        (gb_id b = i \<and> x = be_to e \<or> be_to e = i \<and> x = gb_id b))"

lemma edges_links:
  "foldl (add_edge i) (ch, ln) es = (ch', ln') \<Longrightarrow>
     (x \<in> set (ch' j) \<longleftrightarrow> x \<in> set (ch j) \<or>
        (\<exists>e \<in> set es. be_kind e = EdgeParentChild \<and> be_to e = j \<and> x = i)) \<and>
     (x \<in> set (ln' j) \<longleftrightarrow> x \<in> set (ln j) \<or>
        (\<exists>e \<in> set es. be_kind e = EdgeParentChild \<and> be_to e = j \<and> x = i) \<or>
        (\<exists>e \<in> set es. be_kind e \<noteq> EdgeParentChild \<and>
           (i = j \<and> x = be_to e \<or> be_to e = j \<and> x = i)))"
proof (induction es arbitrary: ch ln)
  case (Cons e es)
  obtain c l where step: "add_edge i (ch, ln) e = (c, l)" by (cases "add_edge i (ch, ln) e")
  have c: "x \<in> set (c j) \<longleftrightarrow> x \<in> set (ch j) \<or>
      be_kind e = EdgeParentChild \<and> be_to e = j \<and> x = i"
    and l: "x \<in> set (l j) \<longleftrightarrow> x \<in> set (ln j) \<or>
      be_kind e = EdgeParentChild \<and> be_to e = j \<and> x = i \<or>
      be_kind e \<noteq> EdgeParentChild \<and> (i = j \<and> x = be_to e \<or> be_to e = j \<and> x = i)"
    using step by (auto simp: add_edge_def put_id_def split: if_splits)
  show ?case using Cons.IH [of c l] Cons.prems step by (simp add: c l) blast
qed simp

lemma beads_links:
  "foldl (\<lambda>st b. foldl (add_edge (gb_id b)) st (gb_edges b)) (ch, ln) beads = (ch', ln') \<Longrightarrow>
     (x \<in> set (ch' j) \<longleftrightarrow> x \<in> set (ch j) \<or> child_of beads j x) \<and>
     (x \<in> set (ln' j) \<longleftrightarrow> x \<in> set (ln j) \<or> linked_to beads j x)"
proof (induction beads arbitrary: ch ln)
  case (Cons b beads)
  obtain c l where step: "foldl (add_edge (gb_id b)) (ch, ln) (gb_edges b) = (c, l)"
    by (cases "foldl (add_edge (gb_id b)) (ch, ln) (gb_edges b)")
  have "child_of (b # beads) j x \<longleftrightarrow>
      (\<exists>e \<in> set (gb_edges b). be_kind e = EdgeParentChild \<and> be_to e = j \<and> x = gb_id b) \<or>
      child_of beads j x"
    by (simp add: child_of_def)
  moreover have "linked_to (b # beads) j x \<longleftrightarrow>
      (\<exists>e \<in> set (gb_edges b). be_kind e = EdgeParentChild \<and> be_to e = j \<and> x = gb_id b) \<or>
      (\<exists>e \<in> set (gb_edges b). be_kind e \<noteq> EdgeParentChild \<and>
         (gb_id b = j \<and> x = be_to e \<or> be_to e = j \<and> x = gb_id b)) \<or>
      linked_to beads j x"
    unfolding linked_to_def child_of_def by auto
  ultimately show ?case
    using edges_links [OF step, of x j] Cons.IH [of c l] Cons.prems step by auto
qed (simp add: child_of_def linked_to_def)

lemma bead_links_sets:
  "set (fst (bead_links beads) j) = {x. child_of beads j x}"
  "set (snd (bead_links beads) j) = {x. linked_to beads j x}"
proof -
  obtain ch ln where l: "bead_links beads = (ch, ln)" by (cases "bead_links beads")
  show "set (fst (bead_links beads) j) = {x. child_of beads j x}"
    "set (snd (bead_links beads) j) = {x. linked_to beads j x}"
    using beads_links [OF l [unfolded bead_links_def]] by (auto simp: l)
qed

text \<open>The epics a bead id names, and whether an id names one.\<close>

definition names_epic :: "(string \<Rightarrow> graph_bead option) \<Rightarrow> string \<Rightarrow> bool" where
  "names_epic m i \<longleftrightarrow> (\<exists>o'. m i = Some o' \<and> gb_type o' = ''epic'')"

definition names_closed :: "(string \<Rightarrow> graph_bead option) \<Rightarrow> string \<Rightarrow> bool" where
  "names_closed m i \<longleftrightarrow> (\<exists>o'. m i = Some o' \<and> gb_status o' = ''closed'')"

lemma closed_epics_None:
  "(\<forall>i \<in> set acc. names_closed m i) \<Longrightarrow>
     closed_epics m ids acc = None \<longleftrightarrow> (\<exists>i \<in> set ids. names_epic m i \<and> \<not> names_closed m i)"
proof (induction ids arbitrary: acc)
  case (Cons i ids)
  show ?case
  proof (cases "m i")
    case None
    then show ?thesis using Cons by (simp add: names_epic_def)
  next
    case (Some b)
    then show ?thesis
      using Cons.IH [of acc] Cons.IH [of "acc @ [i]"] Cons.prems
      by (auto simp: names_epic_def names_closed_def)
  qed
qed simp

lemma closed_epics_Some:
  "closed_epics m ids acc = Some es \<Longrightarrow> set es = set acc \<union> {i \<in> set ids. names_epic m i}"
proof (induction ids arbitrary: acc)
  case (Cons i ids)
  show ?case
  proof (cases "m i")
    case None
    then show ?thesis using Cons by (auto simp: names_epic_def)
  next
    case (Some b)
    show ?thesis
    proof (cases "gb_type b = ''epic'' \<and> i \<notin> set acc")
      case True
      then have "closed_epics m ids (acc @ [i]) = Some es"
        using Cons.prems Some by (simp split: if_splits)
      moreover have "names_epic m i" using True Some by (simp add: names_epic_def)
      ultimately show ?thesis using Cons.IH [of "acc @ [i]"] by auto
    next
      case False
      then have "closed_epics m ids acc = Some es" using Cons.prems Some by auto
      moreover have "\<not> names_epic m i \<or> i \<in> set acc"
        using False Some by (simp add: names_epic_def)
      ultimately show ?thesis using Cons.IH [of acc] by auto
    qed
  qed
qed simp

lemma epics_closed_iff:
  "epics_closed m ids \<noteq> None \<longleftrightarrow>
     (\<exists>i \<in> set ids. names_epic m i) \<and> (\<forall>i \<in> set ids. names_epic m i \<longrightarrow> names_closed m i)"
proof (cases "closed_epics m ids []")
  case None
  then show ?thesis using closed_epics_None [of "[]" m ids] by (auto simp: epics_closed_def)
next
  case (Some es)
  then have "es = [] \<longleftrightarrow> {i \<in> set ids. names_epic m i} = {}"
    using closed_epics_Some [OF Some] by (metis empty_set set_empty sup_bot_left)
  then show ?thesis
    using Some closed_epics_None [of "[]" m ids] by (auto simp: epics_closed_def Let_def)
qed

lemma children_closed_iff:
  "children_closed m ids \<noteq> None \<longleftrightarrow> ids \<noteq> [] \<and> (\<forall>i \<in> set ids. names_closed m i)"
  by (auto simp: children_closed_def list_ex_iff names_closed_def split: option.splits)

definition done_but_open :: "(nat \<Rightarrow> bool) \<Rightarrow> graph_bead list \<Rightarrow> graph_bead \<Rightarrow> bool" where
  "done_but_open is_letter beads b \<longleftrightarrow>
     graph_status_open (gb_status b) \<and>
     (if is_wayfinder_ticket b
      then (\<exists>x. linked_to beads (gb_id b) x \<and> names_epic (by_id beads) x) \<and>
        (\<forall>x. linked_to beads (gb_id b) x \<and> names_epic (by_id beads) x \<longrightarrow>
           names_closed (by_id beads) x)
      else is_map_or_epic is_letter b \<and> (\<exists>x. child_of beads (gb_id b) x) \<and>
        (\<forall>x. child_of beads (gb_id b) x \<longrightarrow> names_closed (by_id beads) x))"

lemma looks_finished_iff:
  "looks_finished is_letter (by_id beads) (bead_links beads) b \<noteq> None \<longleftrightarrow>
     done_but_open is_letter beads b"
proof -
  obtain ch ln where l: "bead_links beads = (ch, ln)" by (cases "bead_links beads")
  have sets: "set (ch (gb_id b)) = {x. child_of beads (gb_id b) x}"
    "set (ln (gb_id b)) = {x. linked_to beads (gb_id b) x}"
    using bead_links_sets [of beads] l by simp_all
  have "ch (gb_id b) \<noteq> [] \<longleftrightarrow> (\<exists>x. child_of beads (gb_id b) x)"
    using sets(1) by (metis (mono_tags) empty_Collect_eq set_empty)
  then show ?thesis
    using epics_closed_iff [of "by_id beads" "ln (gb_id b)"]
      children_closed_iff [of "by_id beads" "ch (gb_id b)"]
    by (simp add: looks_finished_def done_but_open_def l sets) blast
qed

text \<open>C26. The beads said to look finished are, in the order they came, exactly the open ones
  that are a wayfinder ticket with an epic linked to it and every epic linked to it closed, or
  an epic or a map with a child and every child closed.\<close>

theorem finished_exactly:
  "map fi_id (finished_still_open is_letter beads) =
     map gb_id (filter (done_but_open is_letter beads) beads)"
proof -
  let ?look = "looks_finished is_letter (by_id beads) (bead_links beads)"
  have "map fi_id (List.map_filter (\<lambda>b. map_option
          (\<lambda>why. \<lparr>fi_id = gb_id b, fi_title = gb_title b, fi_why = why\<rparr>) (?look b)) bs) =
      map gb_id (filter (\<lambda>b. ?look b \<noteq> None) bs)" for bs
    by (induction bs) (auto simp: List.map_filter_simps split: option.splits)
  then show ?thesis by (simp only: finished_still_open_def Let_def looks_finished_iff)
qed

subsection \<open>What is held\<close>

definition held_label :: "string \<Rightarrow> bool" where
  "held_label l \<longleftrightarrow> has_prefix l HeldForPrefix \<and> l \<noteq> HeldForPrefix"

definition held_ids :: "by_label \<Rightarrow> string \<Rightarrow> string list" where
  "held_ids m l = (case map_of m l of None \<Rightarrow> [] | Some ids \<Rightarrow> ids)"

lemma put_label_ids: "held_ids (put_label l i m) k = held_ids m k @ (if k = l then [i] else [])"
  by (induction l i m rule: put_label.induct) (auto simp: held_ids_def)

lemma put_label_keys: "fst ` set (put_label l i m) = insert l (fst ` set m)"
  by (induction l i m rule: put_label.induct) auto

lemma put_label_distinct: "distinct (map fst m) \<Longrightarrow> distinct (map fst (put_label l i m))"
proof (induction l i m rule: put_label.induct)
  case (2 label i l ids m)
  then show ?case using put_label_keys [of label i m] by auto
qed simp

lemma put_labels_result:
  "distinct (map fst m) \<Longrightarrow> m' = put_labels i labels seen m \<Longrightarrow>
     distinct (map fst m') \<and>
     held_ids m' k = held_ids m k @
       (if held_label k \<and> k \<notin> set seen \<and> k \<in> to_lower ` set labels then [i] else []) \<and>
     fst ` set m' = fst ` set m \<union> {k \<in> to_lower ` set labels. held_label k \<and> k \<notin> set seen}"
proof (induction i labels seen m rule: put_labels.induct)
  case (2 i label labels seen m)
  show ?case
  proof (cases "held_label (to_lower label) \<and> to_lower label \<notin> set seen")
    case True
    then have "m' = put_labels i labels (to_lower label # seen) (put_label (to_lower label) i m)"
      using 2(4) by (simp add: Let_def held_label_def)
    then show ?thesis
      using 2(2) [OF refl _ put_label_distinct [OF 2(3)]] True
      by (auto simp: put_label_ids put_label_keys held_label_def)
  next
    case False
    then have "m' = put_labels i labels seen m" using 2(4) by (auto simp: Let_def held_label_def)
    then show ?thesis using 2(1) [OF refl _ 2(3)] False by (auto simp: held_label_def)
  qed
qed simp

definition held_by :: "string \<Rightarrow> graph_bead \<Rightarrow> bool" where
  "held_by label b \<longleftrightarrow> held_label label \<and> \<not> equal_fold (gb_status b) ''closed'' \<and>
     label \<in> to_lower ` set (gb_labels b)"

lemma add_held_result:
  assumes "distinct (map fst m)"
  shows "distinct (map fst (add_held m b))"
    "held_ids (add_held m b) k = held_ids m k @ (if held_by k b then [gb_id b] else [])"
    "fst ` set (add_held m b) = fst ` set m \<union> {k. held_by k b}"
  using put_labels_result [OF assms refl, of "gb_id b" "gb_labels b" "[]" k] assms
  by (auto simp: add_held_def held_by_def)

lemma held_fold:
  "distinct (map fst m) \<Longrightarrow>
     distinct (map fst (foldl add_held m graph)) \<and>
     held_ids (foldl add_held m graph) k = held_ids m k @ map gb_id (filter (held_by k) graph) \<and>
     fst ` set (foldl add_held m graph) = fst ` set m \<union> {k. \<exists>b \<in> set graph. held_by k b}"
proof (induction graph arbitrary: m)
  case (Cons b graph)
  from Cons.IH [OF add_held_result(1) [OF Cons.prems], of b]
  show ?case using add_held_result(2,3) [OF Cons.prems, of b] by auto
qed simp

lemma find_distinct:
  "distinct (map f xs) \<Longrightarrow> x \<in> set xs \<Longrightarrow> List.find (\<lambda>y. f y = f x) xs = Some x"
  by (induction xs) (auto simp: rev_image_eqI)

lemma held_for_labels_set:
  "set (held_for_labels graph) =
     {\<lparr>hf_label = k, hf_beads = sort (map gb_id (filter (held_by k) graph))\<rparr> | k.
        \<exists>b \<in> set graph. held_by k b}" (is "_ = ?R")
  "distinct (map hf_label (held_for_labels graph))"
proof -
  let ?m = "foldl add_held [] graph"
  let ?rec = "\<lambda>(label, ids). \<lparr>hf_label = label, hf_beads = sort ids\<rparr>"
  have m: "distinct (map fst ?m)" "\<And>k. held_ids ?m k = map gb_id (filter (held_by k) graph)"
    "fst ` set ?m = {k. \<exists>b \<in> set graph. held_by k b}"
    using held_fold [of "[]" graph] by (auto simp: held_ids_def)
  have ids: "ids = map gb_id (filter (held_by k) graph)" if "(k, ids) \<in> set ?m" for k ids
    using m(2) [of k] map_of_is_SomeI [OF m(1) that] by (simp add: held_ids_def)
  have "?rec ` set ?m = ?R"
  proof (intro set_eqI iffI)
    fix h assume "h \<in> ?rec ` set ?m"
    then obtain k ids' where k: "(k, ids') \<in> set ?m" "h = \<lparr>hf_label = k, hf_beads = sort ids'\<rparr>" by auto
    then have "k \<in> fst ` set ?m" by force
    then show "h \<in> ?R" using k ids [OF k(1)] m(3) by auto
  next
    fix h assume "h \<in> ?R"
    then obtain k where k: "h = \<lparr>hf_label = k, hf_beads = sort (map gb_id (filter (held_by k) graph))\<rparr>"
      "k \<in> fst ` set ?m" using m(3) by auto
    then obtain ids' where "(k, ids') \<in> set ?m" by auto
    then show "h \<in> ?rec ` set ?m" using k(1) ids by force
  qed
  then show "set (held_for_labels graph) = ?R" by (simp add: held_for_labels_def)
  have sorted: "mset (map hf_label (sort_key hf_label hs)) = mset (map hf_label hs)" for hs
    by (simp only: mset_map mset_sort)
  have "distinct (map hf_label (map ?rec ?m))"
    using m(1) by (simp add: case_prod_unfold comp_def)
  then show "distinct (map hf_label (held_for_labels graph))"
    unfolding held_for_labels_def by (simp only: mset_eq_imp_distinct_iff [OF sorted])
qed

text \<open>The beads held for an event are exactly those not closed that carry its label, in
  either case, each as often as it comes and in the order of their ids; a blank event holds
  none.\<close>

theorem held_for_event_exactly:
  "held_for_event graph event =
     sort (map gb_id (filter (held_by (HeldForPrefix @ to_lower (trim_space event))) graph))"
proof -
  let ?want = "HeldForPrefix @ to_lower (trim_space event)"
  let ?held = "\<lparr>hf_label = ?want, hf_beads = sort (map gb_id (filter (held_by ?want) graph))\<rparr>"
  show ?thesis
  proof (cases "\<exists>b \<in> set graph. held_by ?want b")
    case True
    then have "?held \<in> set (held_for_labels graph)" by (auto simp: held_for_labels_set(1))
    from find_distinct [OF held_for_labels_set(2) this]
    show ?thesis by (simp add: held_for_event_def Let_def)
  next
    case False
    then have "List.find (\<lambda>held. hf_label held = ?want) (held_for_labels graph) = None"
      by (auto simp: find_None_iff' held_for_labels_set(1))
    moreover have "filter (held_by ?want) graph = []" using False by (simp add: filter_empty_conv)
    ultimately show ?thesis by (simp add: held_for_event_def Let_def)
  qed
qed

text \<open>
  A label with a blank at its end holds a bead back by \<open>HeldForLabel\<close>, which trims it, but
  is not listed behind its event by \<open>HeldForEvent\<close>, which does not.
\<close>

lemma padded_label_not_listed:
  "held_for_label [''held-for-mw-1 ''] = ''held-for-mw-1'' \<and>
   held_for_event [\<lparr>gb_id = ''a'', gb_title = [], gb_status = ''open'', gb_type = [],
     gb_labels = [''held-for-mw-1 ''], gb_priority = 0, gb_created = 0, gb_edges = []\<rparr>] ''mw-1'' = []"
  by code_simp

end
