(* ===== verification/Cards.thy ===== *)
theory Cards
  imports GoNumbers
begin

text \<open>
  \<^verbatim>\<open>domain/card.go\<close>: a live card, the Mayor's numbered list for the Governor: the
  reading of its items and options, the expectation an item's ask implies, and what a card
  subscribes to.  The map of links of an update is a function to lists, empty where the map
  has no entry.
\<close>

abbreviation ExpectOpen :: string where "ExpectOpen \<equiv> ''open''"
abbreviation ExpectLanded :: string where "ExpectLanded \<equiv> ''landed''"
abbreviation ExpectVerified :: string where "ExpectVerified \<equiv> ''verified''"
abbreviation ExpectClosed :: string where "ExpectClosed \<equiv> ''closed''"
abbreviation ExpectAnswered :: string where "ExpectAnswered \<equiv> ''answered''"
abbreviation ExpectHeld :: string where "ExpectHeld \<equiv> ''held''"

definition expect_states :: "string list" where
  "expect_states = [ExpectOpen, ExpectLanded, ExpectVerified, ExpectClosed, ExpectAnswered, ExpectHeld]"

definition option_expect_states :: "string list" where
  "option_expect_states = [ExpectOpen, ExpectLanded, ExpectVerified, ExpectClosed, ExpectHeld]"

record expectation =
  x_bead :: string
  x_state :: string

record card_item =
  ci_n :: int
  ci_text :: string
  ci_links :: "string list"
  ci_expect :: "expectation option"
  ci_done :: bool
  ci_done_at :: int

record subscribe =
  sub_kinds :: "string list"
  sub_beads :: "string list"

record card =
  c_id :: string
  c_title :: string
  c_prompt :: string
  c_thread :: "string option"
  c_items :: "card_item list"
  c_subscribe :: subscribe

record card_update =
  u_re :: string
  u_items :: "card_item list"
  u_links :: "int \<Rightarrow> string list"
  u_tick :: "int list"

datatype card_error =
    NotAnExpectation string
  | NotABead string
  | NotAState string
  | NumberedFromOne string
  | ItemNoText string
  | LinkNotABead string
  | CardNoTitle
  | CardNoItems
  | ItemTwice int
  | WhichCard
  | NothingToChange
  | WhichItem string
  | NotALink string
  | TickFromOne int
  | OptionNoText string

subsection \<open>Bead ids and fields\<close>

definition lower_or_digit :: "char \<Rightarrow> bool" where
  "lower_or_digit c \<longleftrightarrow> is_lower c \<or> is_digit c"

text \<open>\<open>(\.[0-9]+)*$\<close>.\<close>

definition child_numbers :: "string \<Rightarrow> bool" where
  "child_numbers s \<longleftrightarrow>
     (case split_on (CHR ''.'') s of
        [] \<Rightarrow> False
      | first # numbers \<Rightarrow> first = [] \<and> list_all all_digits numbers)"

text \<open>\<open>^[a-z][a-z0-9]*-[a-z0-9]+(\.[0-9]+)*$\<close>.\<close>

definition card_bead_pattern :: "string \<Rightarrow> bool" where
  "card_bead_pattern s \<longleftrightarrow>
     (case s of
        [] \<Rightarrow> False
      | c # r \<Rightarrow> is_lower c \<and>
          (case dropWhile lower_or_digit r of
             [] \<Rightarrow> False
           | d # t \<Rightarrow> d = CHR ''-'' \<and> takeWhile lower_or_digit t \<noteq> [] \<and>
               child_numbers (dropWhile lower_or_digit t)))"

text \<open>\<open>^([a-z][a-z0-9]*-[a-z0-9]|:)\<close>.\<close>

definition field_lead :: "string \<Rightarrow> bool" where
  "field_lead s \<longleftrightarrow>
     (case s of
        [] \<Rightarrow> False
      | c # r \<Rightarrow> c = CHR '':'' \<or> is_lower c \<and>
          (case dropWhile lower_or_digit r of
             d # e # _ \<Rightarrow> d = CHR ''-'' \<and> lower_or_digit e
           | _ \<Rightarrow> False))"

definition field_after_pipe :: "string \<Rightarrow> bool" where
  "field_after_pipe s \<longleftrightarrow> (let s = trim_space s in s = [] \<or> field_lead s)"

text \<open>The loop of \<open>trailingFields\<close>: how many more fields may be cut, the text and the fields.\<close>

fun cut_fields :: "nat \<Rightarrow> string \<Rightarrow> string list \<Rightarrow> string list" where
  "cut_fields 0 txt fs = txt # fs"
| "cut_fields (Suc n) txt fs =
     (case last_index_byte txt (CHR ''|'') of
        None \<Rightarrow> txt # fs
      | Some i \<Rightarrow>
          if \<not> field_after_pipe (drop (Suc i) txt) then txt # fs
          else cut_fields n (take i txt) (drop (Suc i) txt # fs))"

definition trailing_fields :: "string \<Rightarrow> nat \<Rightarrow> string list" where
  "trailing_fields spec most = cut_fields most spec []"

definition valid_bead_id :: "string \<Rightarrow> bool" where
  "valid_bead_id i \<longleftrightarrow> i \<noteq> [] \<and> \<not> contains_any i ('' '' @ [CHR 0x09, CHR 0x0A] @ ''|,'')"

subsection \<open>Expectations\<close>

definition card_asks :: "(string \<times> string) list" where
  "card_asks = [(''verified on '', ExpectVerified), (''looks good on '', ExpectClosed),
     (''approve '', ExpectAnswered), (''answer '', ExpectAnswered), (''release '', ExpectOpen)]"

definition valid_expect_state :: "string \<Rightarrow> bool" where
  "valid_expect_state s \<longleftrightarrow> List.member expect_states s"

definition word_marks :: string where
  "word_marks = '',:;.!?()[]'' @ [CHR 0x22, CHR 0x27]"

definition derive_expectation :: "string \<Rightarrow> string list \<Rightarrow> expectation option" where
  "derive_expectation txt links =
     (let lower = to_lower (trim_space txt)
      in case List.find (\<lambda>a. has_prefix lower (fst a)) card_asks of
           None \<Rightarrow> None
         | Some (ask, state) \<Rightarrow>
             let rest = drop (length ask) (trim_space txt);
                 named = filter card_bead_pattern
                   (map (\<lambda>w. trim_set w word_marks) (str_fields rest))
             in case links of
                  l # _ \<Rightarrow>
                    (case List.find (List.member links) named of
                       Some i \<Rightarrow> Some \<lparr>x_bead = i, x_state = state\<rparr>
                     | None \<Rightarrow> Some \<lparr>x_bead = l, x_state = state\<rparr>)
                | [] \<Rightarrow>
                    (case named of
                       [] \<Rightarrow> None
                     | i # _ \<Rightarrow> Some \<lparr>x_bead = i, x_state = state\<rparr>))"

definition validate_expectation :: "expectation \<Rightarrow> card_error option" where
  "validate_expectation e =
     (if \<not> valid_bead_id (x_bead e) then Some (NotABead (x_bead e))
      else if \<not> valid_expect_state (x_state e) then Some (NotAState (x_state e))
      else None)"

definition parse_expectation :: "string \<Rightarrow> (card_error, expectation) result" where
  "parse_expectation spec =
     (let (bead, state, there) = cut (trim_space spec) '':'';
          bead = trim_space bead; state = trim_space state
      in if \<not> there \<or> bead = [] \<or> state = [] then Inl (NotAnExpectation spec)
         else let e = \<lparr>x_bead = bead, x_state = state\<rparr>
              in case validate_expectation e of Some err \<Rightarrow> Inl err | None \<Rightarrow> Inr e)"

definition never_ticks :: "expectation \<Rightarrow> bool \<Rightarrow> bool" where
  "never_ticks e is_epic \<longleftrightarrow> is_epic \<and> (x_state e = ExpectLanded \<or> x_state e = ExpectVerified)"

subsection \<open>Items\<close>

text \<open>\<open>^(\d+)\.\s+\<close>: the number and what is after it.\<close>

definition re_blank :: "char \<Rightarrow> bool" where
  "re_blank c \<longleftrightarrow> byte c = 0x20 \<or> byte c = 0x09 \<or> byte c = 0x0A \<or> byte c = 0x0C \<or> byte c = 0x0D"

definition card_item_number :: "string \<Rightarrow> (string \<times> string) option" where
  "card_item_number s =
     (let d = takeWhile is_digit s
      in if d = [] then None
         else (case dropWhile is_digit s of
                 p # b # r \<Rightarrow>
                   if p = CHR ''.'' \<and> re_blank b then Some (d, dropWhile re_blank (b # r)) else None
               | _ \<Rightarrow> None))"

fun read_links :: "string list \<Rightarrow> string list \<Rightarrow> (card_error, string list) result" where
  "read_links [] links = Inr links"
| "read_links (w # ws) links =
     (let i = trim_space w
      in if i = [] then read_links ws links
         else if \<not> valid_bead_id i then Inl (LinkNotABead i)
         else read_links ws (links @ [i]))"

definition new_item :: "int \<Rightarrow> string \<Rightarrow> string list \<Rightarrow> expectation option \<Rightarrow> card_item" where
  "new_item n txt links e =
     \<lparr>ci_n = n, ci_text = txt, ci_links = links, ci_expect = e, ci_done = False, ci_done_at = 0\<rparr>"

definition item_number_text :: "string \<Rightarrow> string \<Rightarrow> (card_error, int \<times> string) result" where
  "item_number_text spec txt =
     (case card_item_number txt of
        None \<Rightarrow> Inr (0, txt)
      | Some (d, rest) \<Rightarrow>
          (case num_ok (atoi d) of
             None \<Rightarrow> Inl (NumberedFromOne spec)
           | Some n \<Rightarrow> if n < 1 then Inl (NumberedFromOne spec) else Inr (n, trim_space rest)))"

definition parse_card_item :: "string \<Rightarrow> (card_error, card_item) result" where
  "parse_card_item spec =
     (let parts = trailing_fields spec 2
      in case item_number_text spec (trim_space (hd parts)) of
           Inl e \<Rightarrow> Inl e
         | Inr (n, txt) \<Rightarrow>
             if txt = [] then Inl (ItemNoText spec)
             else (case (if 1 < length parts then read_links (split_on (CHR '','') (parts ! 1)) []
                         else Inr []) of
                     Inl e \<Rightarrow> Inl e
                   | Inr links \<Rightarrow>
                       if 2 < length parts \<and> trim_space (parts ! 2) \<noteq> []
                       then (case parse_expectation (parts ! 2) of
                               Inl e \<Rightarrow> Inl e
                             | Inr e \<Rightarrow> Inr (new_item n txt links (Some e)))
                       else Inr (new_item n txt links (derive_expectation txt links))))"

subsection \<open>Cards\<close>

fun check_items :: "int list \<Rightarrow> card_item list \<Rightarrow> card_error option" where
  "check_items seen [] = None"
| "check_items seen (i # is') =
     (if List.member seen (ci_n i) then Some (ItemTwice (ci_n i))
      else (case Option.bind (ci_expect i) validate_expectation of
              Some e \<Rightarrow> Some e
            | None \<Rightarrow> check_items (ci_n i # seen) is'))"

definition check_card_items :: "card_item list \<Rightarrow> card_error option" where
  "check_card_items items = check_items [] items"

definition add_once :: "string list \<Rightarrow> string \<Rightarrow> string list" where
  "add_once xs x = (if List.member xs x then xs else xs @ [x])"

definition subscribe_item :: "subscribe \<Rightarrow> card_item \<Rightarrow> subscribe" where
  "subscribe_item sub item =
     (let sub = (case ci_expect item of
            None \<Rightarrow> sub
          | Some e \<Rightarrow>
              sub\<lparr>sub_kinds := add_once (sub_kinds sub)
                     (if x_state e = ExpectAnswered then ''card_answered'' else ''bead_changed''),
                  sub_beads := add_once (sub_beads sub) (x_bead e)\<rparr>)
      in sub\<lparr>sub_beads := foldl add_once (sub_beads sub) (ci_links item)\<rparr>)"

definition subscriptions :: "card_item list \<Rightarrow> subscribe" where
  "subscriptions items = foldl subscribe_item \<lparr>sub_kinds = [], sub_beads = []\<rparr> items"

text \<open>An item that has no number takes its place's.\<close>

fun number_items :: "int \<Rightarrow> card_item list \<Rightarrow> card_item list" where
  "number_items i [] = []"
| "number_items i (item # items) =
     (if ci_n item = 0 then item\<lparr>ci_n := i + 1\<rparr> else item) # number_items (i + 1) items"

definition new_card :: "string \<Rightarrow> card_item list \<Rightarrow> (card_error, card) result" where
  "new_card title items =
     (let title = trim_space title
      in if title = [] then Inl CardNoTitle
         else if length items = 0 then Inl CardNoItems
         else let items = number_items 0 items
              in case check_card_items items of
                   Some e \<Rightarrow> Inl e
                 | None \<Rightarrow> Inr \<lparr>c_id = [], c_title = title, c_prompt = [], c_thread = None,
                     c_items = items, c_subscribe = subscriptions items\<rparr>)"

subsection \<open>Updates\<close>

definition read_link :: "string \<Rightarrow> (card_error, int \<times> string) result" where
  "read_link spec =
     (let (number, i, there) = cut spec '':''; i = trim_space i
      in case num_ok (atoi (trim_space number)) of
           None \<Rightarrow> Inl (NotALink spec)
         | Some n \<Rightarrow>
             if \<not> there \<or> i = [] then Inl (NotALink spec)
             else if n < 1 then Inl (NumberedFromOne spec)
             else if \<not> valid_bead_id i then Inl (NotABead i)
             else Inr (n, i))"

fun read_update_links :: "string list \<Rightarrow> (int \<Rightarrow> string list) \<Rightarrow> (card_error, int \<Rightarrow> string list) result" where
  "read_update_links [] m = Inr m"
| "read_update_links (spec # specs) m =
     (case read_link spec of
        Inl e \<Rightarrow> Inl e
      | Inr (n, i) \<Rightarrow> read_update_links specs (m(n := m n @ [i])))"

definition new_card_update ::
  "string \<Rightarrow> card_item list \<Rightarrow> string list \<Rightarrow> int list \<Rightarrow> (card_error, card_update) result"
where
  "new_card_update re0 items links tick =
     (let re = trim_space re0
      in if re = [] then Inl WhichCard
         else if items = [] \<and> links = [] \<and> tick = [] then Inl NothingToChange
         else (case List.find (\<lambda>item. ci_n item = 0) items of
                 Some item \<Rightarrow> Inl (WhichItem (ci_text item))
               | None \<Rightarrow>
                   (case check_card_items items of
                      Some e \<Rightarrow> Inl e
                    | None \<Rightarrow>
                        (case read_update_links links (\<lambda>_. []) of
                           Inl e \<Rightarrow> Inl e
                         | Inr m \<Rightarrow>
                             (case List.find (\<lambda>n. n < 1) tick of
                                Some n \<Rightarrow> Inl (TickFromOne n)
                              | None \<Rightarrow> Inr \<lparr>u_re = re, u_items = items, u_links = m,
                                  u_tick = sort tick\<rparr>)))))"

subsection \<open>Options\<close>

fun read_option_expects ::
  "string list \<Rightarrow> expectation list \<Rightarrow> (card_error, expectation list) result"
where
  "read_option_expects [] es = Inr es"
| "read_option_expects (spec # specs) es =
     (let (bead, state, there) = cut (trim_space spec) '':'';
          bead = trim_space bead; state = trim_space state
      in if \<not> there \<or> bead = [] \<or> state = [] then Inl (NotAnExpectation spec)
         else if \<not> valid_bead_id bead then Inl (NotABead bead)
         else if \<not> List.member option_expect_states state then Inl (NotAState state)
         else read_option_expects specs (es @ [\<lparr>x_bead = bead, x_state = state\<rparr>]))"

definition split_option :: "string \<Rightarrow> (card_error, string \<times> expectation list) result" where
  "split_option opt =
     (let parts = trailing_fields opt 1; txt = trim_space (hd parts)
      in if length parts = 1 then Inr (txt, [])
         else if txt = [] then Inl (OptionNoText opt)
         else (case read_option_expects (split_on (CHR '','') (parts ! 1)) [] of
                 Inl e \<Rightarrow> Inl e
               | Inr es \<Rightarrow> Inr (txt, es)))"

subsection \<open>Records of what was sent\<close>

record card_record_item =
  cri_n :: int
  cri_text :: string
  cri_expect :: "expectation option"

record card_record =
  cr_txid :: string
  cr_re :: string
  cr_title :: string
  cr_at :: string
  cr_items :: "card_record_item list"
  cr_tick :: "int list"

definition record_items :: "card_item list \<Rightarrow> card_record_item list" where
  "record_items items =
     map (\<lambda>i. \<lparr>cri_n = ci_n i, cri_text = ci_text i, cri_expect = ci_expect i\<rparr>) items"

definition record_of_card :: "card \<Rightarrow> string \<Rightarrow> string \<Rightarrow> card_record" where
  "record_of_card c txid at = \<lparr>cr_txid = txid, cr_re = [], cr_title = c_title c, cr_at = at,
     cr_items = record_items (c_items c), cr_tick = []\<rparr>"

definition record_of_update :: "card_update \<Rightarrow> string \<Rightarrow> string \<Rightarrow> card_record" where
  "record_of_update u txid at = \<lparr>cr_txid = txid, cr_re = u_re u, cr_title = [], cr_at = at,
     cr_items = record_items (u_items u), cr_tick = u_tick u\<rparr>"


subsection \<open>What an item's line is read back as\<close>

text \<open>A bead id as the pattern has it holds no white space and none of the separators.\<close>

definition bead_char :: "char \<Rightarrow> bool" where
  "bead_char c \<longleftrightarrow> lower_or_digit c \<or> c = CHR ''-'' \<or> c = CHR ''.''"

lemma is_lower_plain: "is_lower c \<Longrightarrow> plain c"
  by (auto simp: is_lower_def plain_def ascii_space_def)

lemma bead_char_plain: "bead_char c \<Longrightarrow> plain c"
  by (auto simp: bead_char_def lower_or_digit_def is_lower_plain is_digit_plain)
     (simp_all add: plain_def ascii_space_def byte_def)

lemma bead_char_not: "bead_char c \<Longrightarrow> c \<notin> {CHR ''|'', CHR '','', CHR '':'', CHR '' '', CHR 0x09, CHR 0x0A}"
  by (auto simp: bead_char_def lower_or_digit_def is_lower_def is_digit_def byte_def)

lemma lower_or_digit_bead [simp]: "lower_or_digit c \<Longrightarrow> bead_char c"
  by (simp add: bead_char_def)

lemma child_numbers_chars:
  assumes "child_numbers s" shows "list_all bead_char s"
proof -
  have "\<forall>w \<in> set (split_on (CHR ''.'') s). list_all bead_char w"
    using assms by (auto simp: child_numbers_def all_digits_def list_all_iff lower_or_digit_def
      split: list.splits)
  moreover have "list_all bead_char (join [c] ws)"
    if "\<forall>w \<in> set ws. list_all bead_char w" "bead_char c" for c ws
    using that by (induction "[c]" ws rule: join.induct) auto
  moreover have "bead_char (CHR ''.'')" by (simp add: bead_char_def)
  ultimately have "list_all bead_char (join [CHR ''.''] (split_on (CHR ''.'') s))" by blast
  then show ?thesis by simp
qed

lemma takeWhile_bead_chars: "list_all bead_char (takeWhile lower_or_digit s)"
  by (auto simp: list_all_iff dest: set_takeWhileD)

lemma bead_pattern_chars:
  assumes "card_bead_pattern s" shows "list_all bead_char s"
proof -
  obtain c r t where s: "s = c # r" "is_lower c" "dropWhile lower_or_digit r = CHR ''-'' # t"
      "child_numbers (dropWhile lower_or_digit t)"
    using assms by (auto simp: card_bead_pattern_def split: list.splits)
  have "r = takeWhile lower_or_digit r @ CHR ''-'' # takeWhile lower_or_digit t @ dropWhile lower_or_digit t"
    using s(3) takeWhile_dropWhile_id [of lower_or_digit r] by simp
  then have "list_all bead_char r \<longleftrightarrow>
      list_all bead_char (takeWhile lower_or_digit r @ CHR ''-'' # takeWhile lower_or_digit t @ dropWhile lower_or_digit t)"
    by (rule arg_cong)
  then have "list_all bead_char r"
    using child_numbers_chars [OF s(4)] takeWhile_bead_chars
    by (simp add: bead_char_def del: takeWhile_dropWhile_id)
  then show ?thesis using s by (simp add: lower_or_digit_def)
qed

lemma bead_pattern_lead:
  assumes "card_bead_pattern s" shows "field_lead (s @ t)"
proof -
  obtain c r u where s: "s = c # r" "is_lower c" "dropWhile lower_or_digit r = CHR ''-'' # u"
      "takeWhile lower_or_digit u \<noteq> []"
    using assms by (auto simp: card_bead_pattern_def split: list.splits)
  obtain e v where u: "u = e # v" "lower_or_digit e"
    using s(4) by (cases u) (auto split: if_splits)
  have "\<not> lower_or_digit (CHR ''-'')" by (simp add: lower_or_digit_def is_lower_def is_digit_def byte_def)
  then have "dropWhile lower_or_digit (r @ t) = CHR ''-'' # u @ t"
    using s(3) by (induction r) (auto split: if_splits)
  then show ?thesis using s u by (simp add: field_lead_def)
qed

lemma bead_pattern_no_space: "card_bead_pattern s \<Longrightarrow> no_space s"
  by (rule plain_no_space, rule list.pred_mono_strong [OF bead_pattern_chars])
     (simp_all add: bead_char_plain)

lemma bead_pattern_valid: "card_bead_pattern s \<Longrightarrow> valid_bead_id s"
proof -
  assume s: "card_bead_pattern s"
  have "c \<notin> set ('' '' @ [CHR 0x09, CHR 0x0A] @ ''|,'')" if "c \<in> set s" for c
    using bead_char_not [of c] bead_pattern_chars [OF s] that by (simp add: list_all_iff)
  moreover have "s \<noteq> []" using s by (auto simp: card_bead_pattern_def)
  ultimately show ?thesis by (simp add: valid_bead_id_def contains_any_def list_ex_iff del: append.simps)
qed

lemma bead_pattern_absent: "card_bead_pattern s \<Longrightarrow> c \<in> {CHR ''|'', CHR '','', CHR '':''} \<Longrightarrow> c \<notin> set s"
proof -
  assume s: "card_bead_pattern s" and c: "c \<in> {CHR ''|'', CHR '','', CHR '':''}"
  show "c \<notin> set s"
  proof
    assume "c \<in> set s"
    then have "bead_char c" using bead_pattern_chars [OF s] by (simp add: list_all_iff)
    from bead_char_not [OF this] c show False by auto
  qed
qed

lemma bead_pattern_nonempty: "card_bead_pattern s \<Longrightarrow> s \<noteq> []"
  by (auto simp: card_bead_pattern_def)


subsection \<open>Items written and read\<close>

lemma join_cut_once:
  "join [c] (s # t # fs) = join [c] ((s @ c # t) # fs)"
  by (cases fs) simp_all

lemma cut_fields_join: "join [CHR ''|''] (cut_fields n s fs) = join [CHR ''|''] (s # fs)"
proof (induction n s fs rule: cut_fields.induct)
  case (2 n s fs)
  show ?case
  proof (cases "last_index_byte s (CHR ''|'')")
    case (Some i)
    then have "take i s @ CHR ''|'' # drop (Suc i) s = s" by (rule last_index_byte_Some [symmetric])
    then have "join [CHR ''|''] (take i s # drop (Suc i) s # fs) = join [CHR ''|''] (s # fs)"
      unfolding join_cut_once by simp
    with 2 Some show ?thesis by (simp del: join.simps)
  qed simp
qed simp

lemma cut_field_after:
  "CHR ''|'' \<notin> set f \<Longrightarrow> field_after_pipe f \<Longrightarrow>
     cut_fields (Suc n) (s @ CHR ''|'' # f) fs = cut_fields n s (f # fs)"
  by (simp add: last_index_byte_last)

lemma expect_state_word:
  assumes "valid_expect_state s"
  shows "no_space s" "s \<noteq> []" "CHR ''|'' \<notin> set s" "CHR '':'' \<notin> set s"
proof -
  have s: "s \<in> set expect_states" using assms by (simp add: valid_expect_state_def List.member_iff)
  then have "list_all is_lower s"
    by (auto simp: expect_states_def is_lower_def byte_def)
  then have *: "\<And>c. c \<in> set s \<Longrightarrow> is_lower c" by (simp add: list_all_iff)
  from s show "s \<noteq> []" by (auto simp: expect_states_def)
  show "no_space s"
    by (rule plain_no_space) (simp add: list_all_iff * is_lower_plain)
  show "CHR ''|'' \<notin> set s" "CHR '':'' \<notin> set s"
    using * [of "CHR ''|''"] * [of "CHR '':''"] by (auto simp: is_lower_def byte_def)
qed

definition expectation_text :: "expectation \<Rightarrow> string" where
  "expectation_text e = x_bead e @ CHR '':'' # x_state e"

lemma expectation_text_field:
  assumes "card_bead_pattern (x_bead e)" "valid_expect_state (x_state e)"
  shows "no_space (expectation_text e)" "CHR ''|'' \<notin> set (expectation_text e)"
    "field_after_pipe (expectation_text e)"
proof -
  note st = expect_state_word [OF assms(2)]
  show n: "no_space (expectation_text e)"
    unfolding expectation_text_def
    by (rule no_space_ascii_between)
       (simp_all add: plain_def ascii_space_def byte_def bead_pattern_no_space assms st)
  show "CHR ''|'' \<notin> set (expectation_text e)"
    using bead_pattern_absent [OF assms(1), of "CHR ''|''"] st by (simp add: expectation_text_def)
  show "field_after_pipe (expectation_text e)"
    using bead_pattern_lead [OF assms(1), of "CHR '':'' # x_state e"] n
    by (simp add: field_after_pipe_def Let_def no_space_trim expectation_text_def)
qed

lemma parse_expectation_text:
  assumes "card_bead_pattern (x_bead e)" "valid_expect_state (x_state e)"
  shows "parse_expectation (expectation_text e) = Inr e"
proof -
  note st = expect_state_word [OF assms(2)]
  have "cut (expectation_text e) '':'' = (x_bead e, x_state e, True)"
    unfolding expectation_text_def
    by (rule cut_sep) (use bead_pattern_absent [OF assms(1)] in simp)
  then show ?thesis
    using assms st bead_pattern_nonempty [OF assms(1)]
    by (simp add: parse_expectation_def Let_def no_space_trim expectation_text_field
        bead_pattern_no_space validate_expectation_def bead_pattern_valid)
qed

lemma links_text_field:
  assumes "list_all card_bead_pattern links"
  shows "CHR ''|'' \<notin> set (join '','' links)" "field_after_pipe (join '','' links)"
proof -
  have absent: "CHR ''|'' \<notin> set (join '','' ws)" if "list_all card_bead_pattern ws" for ws
    using that by (induction "'',''" ws rule: join.induct) (simp_all add: bead_pattern_absent)
  show "CHR ''|'' \<notin> set (join '','' links)" by (rule absent [OF assms])
  have "no_space (join '','' links)"
    by (rule no_space_join) (use assms in \<open>simp_all add: plain_def ascii_space_def byte_def
      list_all_iff bead_pattern_no_space\<close>)
  moreover have "join '','' links = [] \<or> field_lead (join '','' links)"
  proof (cases links)
    case (Cons w ws)
    then obtain t where "join '','' links = w @ t" by (cases ws) auto
    then show ?thesis using assms Cons bead_pattern_lead by simp
  qed simp
  ultimately show "field_after_pipe (join '','' links)"
    by (simp add: field_after_pipe_def Let_def no_space_trim)
qed

lemma read_links_ids:
  "list_all card_bead_pattern ws \<Longrightarrow> read_links ws links = Inr (links @ ws)"
  by (induction ws arbitrary: links)
     (simp_all add: no_space_trim bead_pattern_no_space bead_pattern_nonempty bead_pattern_valid)

lemma read_links_text:
  assumes "list_all card_bead_pattern links"
  shows "read_links (split_on (CHR '','') (join '','' links)) [] = Inr links"
proof (cases "links = []")
  case False
  have "split_on (CHR '','') (join '','' links) = links"
    by (rule split_on_join) (use False assms bead_pattern_absent in \<open>auto simp: list_all_iff\<close>)
  then show ?thesis using read_links_ids [OF assms] by simp
qed simp

lemma number_read:
  assumes "1 \<le> n" "n \<le> int_max" "trim_space t = t" "t \<noteq> []"
  shows "item_number_text spec (trim_space (itoa n @ ''. '' @ t)) = Inr (n, t)"
proof -
  have i: "itoa n = nat_str (nat n)" using assms by (simp add: itoa_def)
  have d: "list_all is_digit (itoa n)" unfolding i by (rule nat_str_digits)
  have low: "list_all (\<lambda>c. byte c < 128) (itoa n @ ''. '')"
    using d by (auto simp: list_all_iff is_digit_def byte_def)
  have "plain (hd (itoa n @ ''. ''))"
    using plain_itoa [of n] itoa_nonempty [of n] by (cases "itoa n") auto
  then have "trim_space ((itoa n @ ''. '') @ t) = (itoa n @ ''. '') @ t"
    by (intro trim_space_low_before) (use assms low in auto)
  then have trim: "trim_space (itoa n @ ''. '' @ t) = itoa n @ ''. '' @ t" by simp
  have tw: "takeWhile is_digit (itoa n @ ''. '' @ t) = itoa n"
    using d by (subst takeWhile_append2) (auto simp: list_all_iff is_digit_def byte_def)
  have dw: "dropWhile is_digit (itoa n @ ''. '' @ t) = ''. '' @ t"
    using d by (subst dropWhile_append2) (auto simp: list_all_iff is_digit_def byte_def)
  have "dropWhile re_blank (CHR '' '' # t) = t"
  proof (cases t)
    case (Cons c r)
    have "\<not> re_blank c"
      using space_len_trim_space [of t, unfolded assms(3), unfolded Cons]
      by (cases "c # r" rule: space_len.cases) (auto simp: re_blank_def ascii_space_def split: if_splits)
    then show ?thesis using Cons by (simp add: re_blank_def byte_def)
  qed (use assms in simp)
  then have "card_item_number (itoa n @ ''. '' @ t) = Some (itoa n, t)"
    by (simp add: card_item_number_def Let_def tw [simplified] dw [simplified]) (simp add: re_blank_def byte_def)
  moreover have "atoi (itoa n) = NumOk n" using assms by (intro atoi_itoa) (simp_all add: int_min_def)
  ultimately show ?thesis unfolding trim using assms by (simp add: item_number_text_def)
qed

text \<open>An item as the Mayor writes it in full.\<close>

definition card_item_line :: "int \<Rightarrow> string \<Rightarrow> string list \<Rightarrow> expectation \<Rightarrow> string" where
  "card_item_line n t links e =
     (itoa n @ ''. '' @ t) @ ''|'' @ join '','' links @ ''|'' @ expectation_text e"

lemma trailing_fields_line:
  assumes "list_all card_bead_pattern links" "card_bead_pattern (x_bead e)" "valid_expect_state (x_state e)"
  shows "trailing_fields (card_item_line n t links e) 2 =
    [itoa n @ ''. '' @ t, join '','' links, expectation_text e]"
proof -
  have "trailing_fields (card_item_line n t links e) 2 =
      cut_fields (Suc 1) (((itoa n @ ''. '' @ t) @ CHR ''|'' # join '','' links) @ CHR ''|'' # expectation_text e) []"
    by (simp add: trailing_fields_def card_item_line_def numeral_2_eq_2)
  also have "\<dots> = cut_fields (Suc 0) ((itoa n @ ''. '' @ t) @ CHR ''|'' # join '','' links) [expectation_text e]"
    by (subst cut_field_after) (use assms expectation_text_field in simp_all)
  also have "\<dots> = [itoa n @ ''. '' @ t, join '','' links, expectation_text e]"
    by (subst cut_field_after) (use assms links_text_field in simp_all)
  finally show ?thesis .
qed

text \<open>C27. An item written in full, its number, its text, the beads it links to and the
  expectation, is read back as exactly that item, whatever its text holds: a \<open>|\<close> in the text,
  even one a bead id follows, does not move the fields, for only the two last are cut.\<close>

theorem item_round_trip:
  assumes "1 \<le> n" "n \<le> int_max" "trim_space t = t" "t \<noteq> []"
    and "list_all card_bead_pattern links" "card_bead_pattern (x_bead e)" "valid_expect_state (x_state e)"
  shows "parse_card_item (card_item_line n t links e) = Inr (new_item n t links (Some e))"
proof -
  have "trim_space (expectation_text e) \<noteq> []"
    using assms bead_pattern_nonempty
    by (simp add: no_space_trim expectation_text_field) (simp add: expectation_text_def)
  then show ?thesis
    using assms
    by (simp add: parse_card_item_def trailing_fields_line number_read read_links_text
        parse_expectation_text del: append.simps append_assoc)
qed


lemma item_round_trip_witness:
  "parse_card_item (card_item_line 3 ''a|b mw-1'' [''mw-2'', ''mw-2.1''] \<lparr>x_bead = ''mw-3'', x_state = ''open''\<rparr>)
     = Inr (new_item 3 ''a|b mw-1'' [''mw-2'', ''mw-2.1''] (Some \<lparr>x_bead = ''mw-3'', x_state = ''open''\<rparr>))"
  by (rule item_round_trip) (code_simp+)


subsection \<open>What a card listens to\<close>

definition item_kind :: "card_item \<Rightarrow> string list" where
  "item_kind i = (case ci_expect i of None \<Rightarrow> []
     | Some e \<Rightarrow> [if x_state e = ExpectAnswered then ''card_answered'' else ''bead_changed''])"

definition item_beads :: "card_item \<Rightarrow> string list" where
  "item_beads i = (case ci_expect i of None \<Rightarrow> [] | Some e \<Rightarrow> [x_bead e]) @ ci_links i"

text \<open>The first of each value, in order.\<close>

definition firsts :: "'a list \<Rightarrow> 'a list" where
  "firsts xs = rev (remdups (rev xs))"

lemma firsts_snoc: "firsts (xs @ [x]) = (if x \<in> set xs then firsts xs else firsts xs @ [x])"
  by (simp add: firsts_def)

lemma set_firsts [simp]: "set (firsts xs) = set xs"
  by (simp add: firsts_def)

lemma add_once_firsts: "add_once (firsts xs) x = firsts (xs @ [x])"
  by (simp add: add_once_def firsts_snoc List.member_iff)

lemma fold_add_once: "foldl add_once (firsts xs) ys = firsts (xs @ ys)"
  by (induction ys arbitrary: xs) (simp_all add: add_once_firsts)

lemma subscribe_item_firsts:
  "subscribe_item \<lparr>sub_kinds = firsts ks, sub_beads = firsts bs\<rparr> i =
     \<lparr>sub_kinds = firsts (ks @ item_kind i), sub_beads = firsts (bs @ item_beads i)\<rparr>"
  by (simp add: subscribe_item_def item_kind_def item_beads_def fold_add_once add_once_firsts
      split: option.split)

lemma subscriptions_firsts:
  "subscriptions items =
     \<lparr>sub_kinds = firsts (concat (map item_kind items)), sub_beads = firsts (concat (map item_beads items))\<rparr>"
proof -
  have "foldl subscribe_item \<lparr>sub_kinds = firsts ks, sub_beads = firsts bs\<rparr> items =
      \<lparr>sub_kinds = firsts (ks @ concat (map item_kind items)),
       sub_beads = firsts (bs @ concat (map item_beads items))\<rparr>" for ks bs
    by (induction items arbitrary: ks bs) (simp_all add: subscribe_item_firsts)
  from this [of "[]" "[]"] show ?thesis by (simp add: subscriptions_def firsts_def)
qed

lemma distinct_firsts [simp]: "distinct (firsts xs)"
  by (simp add: firsts_def)

lemma check_items_None:
  "check_items seen items = None \<longleftrightarrow>
     distinct (map ci_n items) \<and> set seen \<inter> ci_n ` set items = {} \<and>
     (\<forall>i \<in> set items. \<forall>e. ci_expect i = Some e \<longrightarrow> validate_expectation e = None)"
  by (induction items arbitrary: seen)
     (auto simp: List.member_iff split: option.splits Option.bind_splits)

text \<open>C28. A card is made exactly when its title has text, it has items, no two of the items
  as numbered have one number and every expectation names a bead and a state; the card keeps
  the items in order and listens, each once and in the order the items first name them, to
  the event every expectation waits for and to every bead an item expects of or links to,
  and to nothing else.\<close>

theorem card_subscribes_exactly:
  "(case new_card title items of
      Inl _ \<Rightarrow>
        trim_space title = [] \<or> items = [] \<or> \<not> distinct (map ci_n (number_items 0 items)) \<or>
        (\<exists>i \<in> set items. \<exists>e. ci_expect i = Some e \<and> validate_expectation e \<noteq> None)
    | Inr c \<Rightarrow>
        c_title c = trim_space title \<and> c_title c \<noteq> [] \<and> items \<noteq> [] \<and>
        c_items c = number_items 0 items \<and> distinct (map ci_n (c_items c)) \<and>
        (\<forall>i \<in> set (c_items c). \<forall>e. ci_expect i = Some e \<longrightarrow>
           valid_bead_id (x_bead e) \<and> valid_expect_state (x_state e)) \<and>
        sub_kinds (c_subscribe c) = firsts (concat (map item_kind items)) \<and>
        sub_beads (c_subscribe c) = firsts (concat (map item_beads items)))"
proof -
  have same: "map item_kind (number_items k items) = map item_kind items"
    "map item_beads (number_items k items) = map item_beads items"
    "ci_expect ` set (number_items k items) = ci_expect ` set items" for k
    by (induction items arbitrary: k) (auto simp: item_kind_def item_beads_def)
  have v: "validate_expectation x = None \<longleftrightarrow> valid_bead_id (x_bead x) \<and> valid_expect_state (x_state x)" for x
    by (simp add: validate_expectation_def)
  have e: "(\<forall>i \<in> set (number_items 0 items). \<forall>e. ci_expect i = Some e \<longrightarrow> P e) \<longleftrightarrow>
      (\<forall>i \<in> set items. \<forall>e. ci_expect i = Some e \<longrightarrow> P e)" for P
  proof -
    have "(\<forall>x \<in> ci_expect ` set (number_items 0 items). \<forall>e. x = Some e \<longrightarrow> P e) \<longleftrightarrow>
        (\<forall>x \<in> ci_expect ` set items. \<forall>e. x = Some e \<longrightarrow> P e)" by (simp only: same)
    then show ?thesis by simp
  qed
  have "check_card_items (number_items 0 items) = None \<longleftrightarrow>
      distinct (map ci_n (number_items 0 items)) \<and>
      (\<forall>i \<in> set items. \<forall>e. ci_expect i = Some e \<longrightarrow> validate_expectation e = None)"
    by (simp add: check_card_items_def check_items_None e)
  note checked = this
  show ?thesis
  proof (cases "trim_space title = [] \<or> items = []")
    case True
    then show ?thesis by (auto simp: new_card_def Let_def)
  next
    case False
    show ?thesis
    proof (cases "check_card_items (number_items 0 items)")
      case None
      with checked False show ?thesis
        by (simp add: new_card_def Let_def subscriptions_firsts same e v)
    next
      case (Some err)
      with checked False show ?thesis by (auto simp: new_card_def Let_def)
    qed
  qed
qed

lemma card_subscribes_exactly_witness:
  "\<exists>c. new_card ''Today'' [new_item 0 ''Verified on mw-1'' [''mw-2''] (Some \<lparr>x_bead = ''mw-1'', x_state = ''verified''\<rparr>)]
     = Inr c \<and> sub_beads (c_subscribe c) = [''mw-1'', ''mw-2'']"
proof -
  define c where "c = new_card ''Today'' [new_item 0 ''Verified on mw-1'' [''mw-2'']
    (Some \<lparr>x_bead = ''mw-1'', x_state = ''verified''\<rparr>)]"
  have "ok c" unfolding c_def by code_simp
  then obtain d where "c = Inr d" by (auto simp: ok_iff)
  with card_subscribes_exactly [of "''Today''" "[new_item 0 ''Verified on mw-1'' [''mw-2'']
    (Some \<lparr>x_bead = ''mw-1'', x_state = ''verified''\<rparr>)]"]
  show ?thesis by (auto simp: c_def item_beads_def new_item_def firsts_def)
qed

subsection \<open>What is accepted is well formed\<close>

lemma trailing_fields_shape: "trailing_fields spec n \<noteq> []" "length (trailing_fields spec n) \<le> Suc n"
proof -
  have "cut_fields n s fs \<noteq> [] \<and> length (cut_fields n s fs) \<le> Suc n + length fs" for s fs
  proof (induction n s fs rule: cut_fields.induct)
    case (2 n s fs)
    show ?case
    proof (cases "last_index_byte s (CHR ''|'')")
      case (Some i)
      with 2 [OF Some] show ?thesis by (cases "field_after_pipe (drop (Suc i) s)") simp_all
    qed simp
  qed simp
  from this [of spec "[]"] show "trailing_fields spec n \<noteq> []" "length (trailing_fields spec n) \<le> Suc n"
    by (simp_all add: trailing_fields_def)
qed









end
