(* ===== verification/ConfigToml.thy ===== *)
theory ConfigToml
  imports GoNumbers
begin

text \<open>
  \<^verbatim>\<open>domain/configtoml.go\<close>: the config file read just far enough to find one key and change
  it, every other byte left as it was.  The scanner's place is the text left of its line, the
  lines after it, and how many lines it has passed since the statement began; a column is the
  length of the line less that of the text left.  Values nest, so the three methods that read
  them are given fuel, and \<open>scan_toml_enough\<close> (\<open>TomlReads\<close>) shows that what they start with is enough.
\<close>

subsection \<open>Bare values\<close>

definition tab :: char where "tab = CHR 0x09"
definition creturn :: char where "creturn = CHR 0x0D"
definition dquote :: char where "dquote = CHR 0x22"
definition squote :: char where "squote = CHR 0x27"
definition bslash :: char where "bslash = CHR 0x5C"

definition is_hex :: "char \<Rightarrow> bool" where
  "is_hex c \<longleftrightarrow> is_digit c \<or> 97 \<le> byte c \<and> byte c \<le> 102 \<or> 65 \<le> byte c \<and> byte c \<le> 70"

definition bare_char :: "char \<Rightarrow> bool" where
  "bare_char c \<longleftrightarrow> c = CHR ''-'' \<or> c = CHR ''_'' \<or> is_digit c \<or> is_upper c \<or> is_lower c"

definition bare_key :: "string \<Rightarrow> bool" where
  "bare_key s \<longleftrightarrow> s \<noteq> [] \<and> list_all bare_char s"

text \<open>What is left after the longest run of \<open>(_?d)*\<close>.\<close>

fun after_run :: "(char \<Rightarrow> bool) \<Rightarrow> string \<Rightarrow> string" where
  "after_run d [] = []"
| "after_run d (c # s) =
     (if d c then after_run d s
      else if c = CHR ''_'' \<and> s \<noteq> [] \<and> d (hd s) then after_run d (tl s)
      else c # s)"

definition after_sign :: "string \<Rightarrow> string" where
  "after_sign s = (if s \<noteq> [] \<and> (hd s = CHR ''+'' \<or> hd s = CHR ''-'') then tl s else s)"

text \<open>What is left after \<open>0|[1-9](_?[0-9])*\<close>, and after \<open>d(_?d)*\<close>.\<close>

definition after_whole :: "string \<Rightarrow> string option" where
  "after_whole s =
     (case s of [] \<Rightarrow> None
      | c # t \<Rightarrow> if c = CHR ''0'' then Some t else if is_digit c then Some (after_run is_digit t) else None)"

definition after_digits :: "(char \<Rightarrow> bool) \<Rightarrow> string \<Rightarrow> string option" where
  "after_digits d s = (case s of [] \<Rightarrow> None | c # t \<Rightarrow> if d c then Some (after_run d t) else None)"

definition toml_integer :: "string \<Rightarrow> bool" where
  "toml_integer s \<longleftrightarrow>
     after_whole (after_sign s) = Some [] \<or>
     (has_prefix s ''0x'' \<and> after_digits is_hex (drop 2 s) = Some []) \<or>
     (has_prefix s ''0o'' \<and> after_digits (\<lambda>c. CHR ''0'' \<le> c \<and> c \<le> CHR ''7'') (drop 2 s) = Some []) \<or>
     (has_prefix s ''0b'' \<and> after_digits (\<lambda>c. c = CHR ''0'' \<or> c = CHR ''1'') (drop 2 s) = Some [])"

definition after_fraction :: "string \<Rightarrow> string option" where
  "after_fraction s = (if s \<noteq> [] \<and> hd s = CHR ''.'' then after_digits is_digit (tl s) else Some s)"

definition after_exponent :: "string \<Rightarrow> string option" where
  "after_exponent s =
     (if s \<noteq> [] \<and> (hd s = CHR ''e'' \<or> hd s = CHR ''E'') then after_digits is_digit (after_sign (tl s)) else Some s)"

definition toml_float :: "string \<Rightarrow> bool" where
  "toml_float s \<longleftrightarrow>
     (case after_whole (after_sign s) of None \<Rightarrow> False
      | Some t \<Rightarrow> (case after_fraction t of None \<Rightarrow> False | Some u \<Rightarrow> after_exponent u = Some []))"

definition toml_special :: "string \<Rightarrow> bool" where
  "toml_special s \<longleftrightarrow> after_sign s = ''inf'' \<or> after_sign s = ''nan''"

text \<open>A text of digits (\<open>0\<close> in the pattern) and the pattern's own characters.\<close>

fun after_pattern :: "string \<Rightarrow> string \<Rightarrow> string option" where
  "after_pattern [] s = Some s"
| "after_pattern (p # ps) [] = None"
| "after_pattern (p # ps) (c # s) =
     (if (if p = CHR ''0'' then is_digit c else c = p) then after_pattern ps s else None)"

text \<open>What is left after an optional \<open>(\.[0-9]+)?\<close>.\<close>

definition after_subsecond :: "string \<Rightarrow> string" where
  "after_subsecond s =
     (if s \<noteq> [] \<and> hd s = CHR ''.'' \<and> tl s \<noteq> [] \<and> is_digit (hd (tl s)) then dropWhile is_digit (tl s) else s)"

definition toml_time :: "string \<Rightarrow> bool" where
  "toml_time s \<longleftrightarrow> (case after_pattern ''00:00:00'' s of None \<Rightarrow> False | Some t \<Rightarrow> after_subsecond t = [])"

definition toml_zone :: "string \<Rightarrow> bool" where
  "toml_zone s \<longleftrightarrow> s = [] \<or> s = ''Z'' \<or> s = ''z'' \<or> after_pattern ''+00:00'' s = Some [] \<or> after_pattern ''-00:00'' s = Some []"

definition toml_datetime :: "string \<Rightarrow> bool" where
  "toml_datetime s \<longleftrightarrow>
     (case after_pattern ''0000-00-00'' s of
        None \<Rightarrow> False
      | Some [] \<Rightarrow> True
      | Some (c # t) \<Rightarrow>
          (c = CHR ''T'' \<or> c = CHR ''t'') \<and>
          (case after_pattern ''00:00:00'' t of None \<Rightarrow> False | Some u \<Rightarrow> toml_zone (after_subsecond u)))"

definition valid_bare_value :: "string \<Rightarrow> bool" where
  "valid_bare_value s \<longleftrightarrow>
     s = ''true'' \<or> s = ''false'' \<or> toml_integer s \<or> toml_special s \<or> toml_datetime s \<or> toml_time s \<or>
     (toml_float s \<and> contains_any s ''.eE'')"

subsection \<open>The scanner\<close>

datatype toml_error =
    HeaderNotClosed bool
  | TableIsKey string
  | TableTwice string
  | NoEquals
  | KeyTwice string
  | KeyNotClosed
  | NoKey
  | NoValue
  | StringNotClosed
  | BadValue string
  | BadEscape
  | MultilineNotClosed
  | ArrayNotClosed
  | ArrayNoComma
  | InlineNoEquals
  | InlineNotClosed
  | AfterValue string
  | OutOfFuel

record toml_scan =
  ts_li :: nat
  ts_text :: string
  ts_rest :: "string list"

type_synonym 'a scanned = "nat \<times> toml_error + 'a"

definition ts_fail :: "toml_error \<Rightarrow> toml_scan \<Rightarrow> 'a scanned" where
  "ts_fail e s = Inl (ts_li s, e)"

definition ts_end :: "toml_scan \<Rightarrow> bool" where
  "ts_end s \<longleftrightarrow> ts_text s = []"

definition ts_peek :: "toml_scan \<Rightarrow> char" where
  "ts_peek s = (case ts_text s of [] \<Rightarrow> CHR 0x00 | c # _ \<Rightarrow> c)"

definition ts_skip :: "nat \<Rightarrow> toml_scan \<Rightarrow> toml_scan" where
  "ts_skip n s = s\<lparr>ts_text := drop n (ts_text s)\<rparr>"

definition blank :: "char \<Rightarrow> bool" where
  "blank c \<longleftrightarrow> c = CHR '' '' \<or> c = tab \<or> c = creturn"

definition skip_space :: "toml_scan \<Rightarrow> toml_scan" where
  "skip_space s = s\<lparr>ts_text := dropWhile blank (ts_text s)\<rparr>"

text \<open>Past spaces, comments and line ends: whether anything is left, and the place.\<close>

fun skip_blank_from :: "nat \<Rightarrow> string \<Rightarrow> string list \<Rightarrow> bool \<times> toml_scan" where
  "skip_blank_from li txt rest =
     (let t = dropWhile blank txt; t = (if t \<noteq> [] \<and> hd t = CHR ''#'' then [] else t)
      in if t \<noteq> [] then (True, \<lparr>ts_li = li, ts_text = t, ts_rest = rest\<rparr>)
         else (case rest of
                 [] \<Rightarrow> (False, \<lparr>ts_li = li, ts_text = [], ts_rest = []\<rparr>)
               | l # ls \<Rightarrow> skip_blank_from (li + 1) l ls))"

declare skip_blank_from.simps [simp del]

definition skip_blank :: "toml_scan \<Rightarrow> bool \<times> toml_scan" where
  "skip_blank s = skip_blank_from (ts_li s) (ts_text s) (ts_rest s)"

definition end_of_line :: "toml_scan \<Rightarrow> toml_scan scanned" where
  "end_of_line s =
     (let s = skip_space s
      in if \<not> ts_end s \<and> ts_peek s \<noteq> CHR ''#'' then ts_fail (AfterValue (ts_text s)) s else Inr s)"

text \<open>One part of a dotted key, and all of them.\<close>

definition key_part :: "toml_scan \<Rightarrow> (string \<times> toml_scan) scanned" where
  "key_part s =
     (if ts_peek s = dquote \<or> ts_peek s = squote
      then (case index_of (tl (ts_text s)) [ts_peek s] of
              None \<Rightarrow> ts_fail KeyNotClosed s
            | Some e \<Rightarrow> Inr (take e (tl (ts_text s)), ts_skip (e + 2) s))
      else (let part = takeWhile bare_char (ts_text s)
            in if part = [] then ts_fail NoKey s else Inr (part, ts_skip (length part) s)))"

lemma key_part_shorter:
  assumes "key_part s = Inr (part, s')"
  shows "length (ts_text s') < length (ts_text s)"
proof (cases "ts_text s")
  case Nil
  with assms show ?thesis by (auto simp: key_part_def ts_peek_def ts_fail_def dquote_def squote_def Let_def)
next
  case (Cons c t)
  with assms show ?thesis
    by (auto simp: key_part_def ts_skip_def ts_fail_def Let_def split: if_splits option.splits
        intro!: diff_less)
qed

function toml_key :: "toml_scan \<Rightarrow> (string list \<times> toml_scan) scanned" where
  "toml_key s =
     (case key_part (skip_space s) of
        Inl e \<Rightarrow> Inl e
      | Inr (part, s') \<Rightarrow>
          let t = skip_space s'
          in if ts_peek t \<noteq> CHR ''.'' then Inr ([part], t)
             else (case toml_key (ts_skip 1 t) of
                     Inl e \<Rightarrow> Inl e
                   | Inr (parts, u) \<Rightarrow> Inr (part # parts, u)))"
  by pat_completeness auto
termination
proof (relation "measure (\<lambda>s. length (ts_text s))")
  fix s x part s' t
  assume "key_part (skip_space s) = Inr x" "(part, s') = x" "t = skip_space s'"
  then have "length (ts_text s') < length (ts_text (skip_space s))" "length (ts_text t) \<le> length (ts_text s')"
    using key_part_shorter [of "skip_space s" part s'] by (simp_all add: skip_space_def length_dropWhile_le)
  moreover have "length (ts_text (skip_space s)) \<le> length (ts_text s)"
    by (simp add: skip_space_def length_dropWhile_le)
  ultimately show "(ts_skip 1 t, s) \<in> measure (\<lambda>s. length (ts_text s))" by (simp add: ts_skip_def)
qed simp

declare toml_key.simps [simp del]

subsection \<open>Values\<close>

text \<open>Past the quote that closes a basic string.\<close>

fun after_basic :: "string \<Rightarrow> (toml_error, string) result" where
  "after_basic [] = Inl StringNotClosed"
| "after_basic (c # s) =
     (if c = bslash
      then (case s of
              [] \<Rightarrow> Inl BadEscape
            | d # t \<Rightarrow> if List.member (''btnfre'' @ [dquote, bslash] @ ''uU'') d then after_basic t else Inl BadEscape)
      else if c = dquote then Inr s
      else after_basic s)"

text \<open>Past the closing quotes on one line, if they are there.\<close>

fun after_quotes :: "string \<Rightarrow> string \<Rightarrow> string option" where
  "after_quotes q [] = None"
| "after_quotes q (c # s) =
     (if q = [dquote, dquote, dquote] \<and> c = bslash then after_quotes q (tl s)
      else if has_prefix (c # s) q then Some (drop 3 (c # s))
      else after_quotes q s)"

fun multiline_from :: "string \<Rightarrow> nat \<Rightarrow> string \<Rightarrow> string list \<Rightarrow> toml_scan scanned" where
  "multiline_from q li txt rest =
     (case after_quotes q txt of
        Some t \<Rightarrow> Inr \<lparr>ts_li = li, ts_text = t, ts_rest = rest\<rparr>
      | None \<Rightarrow>
          (case rest of
             [] \<Rightarrow> Inl (li, MultilineNotClosed)
           | l # ls \<Rightarrow> multiline_from q (li + 1) l ls))"

declare multiline_from.simps [simp del]

definition multiline_string :: "string \<Rightarrow> toml_scan \<Rightarrow> toml_scan scanned" where
  "multiline_string q s = multiline_from q (ts_li s) (drop 3 (ts_text s)) (ts_rest s)"

definition bare_stop :: "char \<Rightarrow> bool" where
  "bare_stop c \<longleftrightarrow> blank c \<or> List.member '',]}#'' c"

definition single_value :: "toml_scan \<Rightarrow> toml_scan scanned" where
  "single_value s =
     (if ts_peek s = dquote
      then (case after_basic (tl (ts_text s)) of Inl e \<Rightarrow> ts_fail e s | Inr t \<Rightarrow> Inr (s\<lparr>ts_text := t\<rparr>))
      else if ts_peek s = squote
      then (case index_of (tl (ts_text s)) [squote] of
              None \<Rightarrow> ts_fail StringNotClosed s
            | Some e \<Rightarrow> Inr (ts_skip (e + 2) s))
      else (let token = takeWhile (\<lambda>c. \<not> bare_stop c) (ts_text s)
            in if token = [] then ts_fail NoValue s
               else if valid_bare_value token then Inr (ts_skip (length token) s)
               else ts_fail (BadValue token) s))"

fun toml_value :: "nat \<Rightarrow> toml_scan \<Rightarrow> toml_scan scanned"
  and toml_array :: "nat \<Rightarrow> toml_scan \<Rightarrow> toml_scan scanned"
  and toml_inline :: "nat \<Rightarrow> toml_scan \<Rightarrow> toml_scan scanned"
where
  "toml_value 0 s = ts_fail OutOfFuel s"
| "toml_value (Suc n) s =
     (if ts_end s then ts_fail NoValue s
      else if has_prefix (ts_text s) [dquote, dquote, dquote] \<or> has_prefix (ts_text s) [squote, squote, squote]
      then multiline_string (take 3 (ts_text s)) s
      else if ts_peek s = CHR ''['' then toml_array n (ts_skip 1 s)
      else if ts_peek s = CHR ''{'' then toml_inline n (ts_skip 1 s)
      else single_value s)"
| "toml_array 0 s = ts_fail OutOfFuel s"
| "toml_array (Suc n) s =
     (case skip_blank s of
        (False, s) \<Rightarrow> ts_fail ArrayNotClosed s
      | (True, s) \<Rightarrow>
          if ts_peek s = CHR '']'' then Inr (ts_skip 1 s)
          else (case toml_value n s of
                  Inl e \<Rightarrow> Inl e
                | Inr s \<Rightarrow>
                    (case skip_blank s of
                       (False, s) \<Rightarrow> ts_fail ArrayNotClosed s
                     | (True, s) \<Rightarrow>
                         if ts_peek s = CHR '','' then toml_array n (ts_skip 1 s)
                         else if ts_peek s = CHR '']'' then Inr (ts_skip 1 s)
                         else ts_fail ArrayNoComma s)))"
| "toml_inline 0 s = ts_fail OutOfFuel s"
| "toml_inline (Suc n) s =
     (let s = skip_space s
      in if ts_peek s = CHR ''}'' then Inr (ts_skip 1 s)
         else (case toml_key s of
                 Inl e \<Rightarrow> Inl e
               | Inr (_, s) \<Rightarrow>
                   let s = skip_space s
                   in if ts_peek s \<noteq> CHR ''='' then ts_fail InlineNoEquals s
                      else (case toml_value n (skip_space (ts_skip 1 s)) of
                              Inl e \<Rightarrow> Inl e
                            | Inr s \<Rightarrow>
                                let s = skip_space s
                                in if ts_peek s = CHR '','' then toml_inline n (ts_skip 1 s)
                                   else if ts_peek s = CHR ''}'' then Inr (ts_skip 1 s)
                                   else ts_fail InlineNotClosed s)))"

text \<open>The bytes and line ends left, and enough fuel for them.\<close>

definition ts_size :: "toml_scan \<Rightarrow> nat" where
  "ts_size s = length (ts_text s) + sum_list (map (Suc \<circ> length) (ts_rest s))"

definition scan_toml :: "toml_scan \<Rightarrow> toml_scan scanned" where
  "scan_toml s = toml_value (2 * ts_size s + 1) s"

subsection \<open>The file\<close>

record toml_stmt =
  st_table :: string
  st_key :: string
  st_header :: bool
  st_array :: bool
  st_first :: nat
  st_last :: nat
  st_value_col :: nat
  st_end_col :: nat

record config_toml =
  ct_lines :: "string list"
  ct_stmts :: "toml_stmt list"

definition key_id :: "string \<Rightarrow> string \<Rightarrow> string" where
  "key_id table key = table @ CHR 0x00 # key"

text \<open>Whether a table, by its parts, has the name of a key of one of the tables above it.\<close>

definition table_is_key :: "string list \<Rightarrow> string list \<Rightarrow> bool" where
  "table_is_key keys parts \<longleftrightarrow>
     list_ex (\<lambda>i. List.member keys (key_id (join ''.'' (take i parts)) (parts ! i))) [0..<length parts]"

text \<open>A table header from its bracket on: its parts, and whether it is of an array.\<close>

definition read_header :: "toml_scan \<Rightarrow> (string list \<times> bool) scanned" where
  "read_header s =
     (let s = ts_skip 1 s; is_array = (ts_peek s = CHR ''['');
          s = (if is_array then ts_skip 1 s else s)
      in case toml_key s of
           Inl e \<Rightarrow> Inl e
         | Inr (parts, s) \<Rightarrow>
             let s = skip_space s; closing = (if is_array then '']]'' else '']'')
             in if \<not> has_prefix (ts_text s) closing then ts_fail (HeaderNotClosed is_array) s
                else (case end_of_line (ts_skip (length closing) s) of
                        Inl e \<Rightarrow> Inl e
                      | Inr _ \<Rightarrow> Inr (parts, is_array)))"

definition table_name :: "string list \<Rightarrow> bool \<Rightarrow> string" where
  "table_name parts is_array =
     (if is_array then ''[['' @ join ''.'' parts @ '']]'' else join ''.'' parts)"

definition header_error :: "string list \<Rightarrow> string list \<Rightarrow> string list \<Rightarrow> bool \<Rightarrow> toml_error option" where
  "header_error tables keys parts is_array =
     (if table_is_key keys parts then Some (TableIsKey (join ''.'' parts))
      else if \<not> is_array \<and> List.member tables (join ''.'' parts) then Some (TableTwice (join ''.'' parts))
      else None)"

text \<open>An entry: its key's parts, the place its value begins, and the place it ends.\<close>

definition read_entry :: "toml_scan \<Rightarrow> (string list \<times> toml_scan \<times> toml_scan) scanned" where
  "read_entry s =
     (case toml_key s of
        Inl e \<Rightarrow> Inl e
      | Inr (parts, s) \<Rightarrow>
          let s = skip_space s
          in if ts_end s \<or> ts_peek s \<noteq> CHR ''='' then ts_fail NoEquals s
             else let v = skip_space (ts_skip 1 s)
                  in case scan_toml v of
                       Inl e \<Rightarrow> Inl e
                     | Inr u \<Rightarrow> (case end_of_line u of Inl e \<Rightarrow> Inl e | Inr _ \<Rightarrow> Inr (parts, v, u)))"

definition in_array :: "string \<Rightarrow> bool" where
  "in_array table \<longleftrightarrow> has_prefix table ''[[''"

definition key_twice :: "string list \<Rightarrow> string list \<Rightarrow> string \<Rightarrow> string \<Rightarrow> bool" where
  "key_twice tables keys table key \<longleftrightarrow>
     \<not> in_array table \<and>
     (List.member keys (key_id table key) \<or> List.member tables (trim_prefix (table @ ''.'' @ key) ''.''))"

text \<open>The lines from \<open>li\<close> on, in a table, with the tables and the keys given so far.\<close>

function parse_lines ::
  "nat \<Rightarrow> string list \<Rightarrow> string \<Rightarrow> string list \<Rightarrow> string list \<Rightarrow> toml_stmt list scanned"
where
  "parse_lines li [] table tables keys = Inr []"
| "parse_lines li (line # rest) table tables keys =
     (let s = skip_space \<lparr>ts_li = 0, ts_text = line, ts_rest = rest\<rparr>
      in if ts_end s \<or> ts_peek s = CHR ''#'' then parse_lines (li + 1) rest table tables keys
         else if ts_peek s = CHR ''[''
         then (case read_header s of
                 Inl (k, e) \<Rightarrow> Inl (li + k + 1, e)
               | Inr (parts, is_array) \<Rightarrow>
                   (case header_error tables keys parts is_array of
                      Some e \<Rightarrow> Inl (li + 1, e)
                    | None \<Rightarrow>
                        let table = table_name parts is_array
                        in (case parse_lines (li + 1) rest table (table # tables) keys of
                              Inl e \<Rightarrow> Inl e
                            | Inr stmts \<Rightarrow>
                                Inr (\<lparr>st_table = table, st_key = [], st_header = True, st_array = is_array,
                                      st_first = li, st_last = li, st_value_col = 0, st_end_col = 0\<rparr> # stmts))))
         else (case read_entry s of
                 Inl (k, e) \<Rightarrow> Inl (li + k + 1, e)
               | Inr (parts, v, u) \<Rightarrow>
                   let key = join ''.'' parts; k = ts_li u; final = (line # rest) ! k
                   in if key_twice tables keys table key then Inl (li + 1, KeyTwice key)
                      else (case parse_lines (li + k + 1) (drop k rest) table tables
                              (if in_array table then keys else key_id table key # keys) of
                              Inl e \<Rightarrow> Inl e
                            | Inr stmts \<Rightarrow>
                                Inr (\<lparr>st_table = table, st_key = key, st_header = False, st_array = False,
                                      st_first = li, st_last = li + k,
                                      st_value_col = length line - length (ts_text v),
                                      st_end_col = length final - length (ts_text u)\<rparr> # stmts))))"
  by pat_completeness auto
termination by (relation "measure (\<lambda>(li, ls, table, tables, keys). length ls)") auto

declare parse_lines.simps [simp del]

definition parse_config_toml :: "string \<Rightarrow> config_toml scanned" where
  "parse_config_toml txt =
     (let lines = split_on CHR 0x0A txt
      in case parse_lines 0 lines [] [] [] of
           Inl e \<Rightarrow> Inl e
         | Inr stmts \<Rightarrow> Inr \<lparr>ct_lines = lines, ct_stmts = stmts\<rparr>)"

subsection \<open>Reading and changing it\<close>

text \<open>A text from a column of one line to a column of another.\<close>

definition text_at :: "string list \<Rightarrow> nat \<Rightarrow> nat \<Rightarrow> nat \<Rightarrow> nat \<Rightarrow> string" where
  "text_at ls a b v e =
     (if a = b then trim_space (drop v (take e (ls ! a)))
      else trim_space (join [CHR 0x0A] (drop v (ls ! a) # drop (a + 1) (take b ls) @ [take e (ls ! b)])))"

definition value_text :: "config_toml \<Rightarrow> toml_stmt \<Rightarrow> string" where
  "value_text c st = text_at (ct_lines c) (st_first st) (st_last st) (st_value_col st) (st_end_col st)"

definition is_entry :: "string \<Rightarrow> toml_stmt \<Rightarrow> bool" where
  "is_entry table st \<longleftrightarrow> \<not> st_header st \<and> st_table st = table"

definition toml_lookup :: "config_toml \<Rightarrow> string \<Rightarrow> string \<Rightarrow> string option" where
  "toml_lookup c table key =
     map_option (value_text c) (find (\<lambda>st. is_entry table st \<and> st_key st = key) (ct_stmts c))"

definition table_entries :: "config_toml \<Rightarrow> string \<Rightarrow> (string \<times> string) list" where
  "table_entries c name = map (\<lambda>st. (st_key st, value_text c st)) (filter (is_entry name) (ct_stmts c))"

definition toml_table :: "config_toml \<Rightarrow> string \<Rightarrow> (string \<rightharpoonup> string) option" where
  "toml_table c name =
     (if table_entries c name = [] then None else Some (map_of (rev (table_entries c name))))"

definition table_names :: "config_toml \<Rightarrow> string list" where
  "table_names c = map st_table (filter (\<lambda>st. st_header st \<and> \<not> st_array st) (ct_stmts c))"

fun add_entry :: "config_toml \<Rightarrow> string \<Rightarrow> (string \<rightharpoonup> string) list \<Rightarrow> toml_stmt \<Rightarrow> (string \<rightharpoonup> string) list" where
  "add_entry c table entries st =
     (if st_table st \<noteq> table then entries
      else if st_header st then entries @ [Map.empty]
      else if entries = [] then []
      else butlast entries @ [(last entries)(st_key st \<mapsto> value_text c st)])"

definition array_tables :: "config_toml \<Rightarrow> string \<Rightarrow> (string \<rightharpoonup> string) list" where
  "array_tables c name = foldl (add_entry c (''[['' @ name @ '']]'')) [] (ct_stmts c)"

text \<open>The line after which a new key of a table goes: that of the last statement of the table.\<close>

definition last_of_table :: "toml_stmt list \<Rightarrow> string \<Rightarrow> nat option" where
  "last_of_table stmts table =
     foldl (\<lambda>after st. if st_table st = table \<and> \<not> st_array st \<and>
         (case after of None \<Rightarrow> True | Some a \<Rightarrow> a < st_last st) then Some (st_last st) else after) None stmts"

definition set_entry :: "config_toml \<Rightarrow> toml_stmt \<Rightarrow> string \<Rightarrow> string list" where
  "set_entry c st literal =
     take (st_first st) (ct_lines c) @
     (take (st_value_col st) (ct_lines c ! st_first st) @ literal @ drop (st_end_col st) (ct_lines c ! st_last st)) #
     drop (st_last st + 1) (ct_lines c)"

definition line_end :: "config_toml \<Rightarrow> string" where
  "line_end c = (if 1 < length (ct_lines c) \<and> has_suffix (ct_lines c ! 0) [creturn] then [creturn] else [])"

definition add_table :: "config_toml \<Rightarrow> string \<Rightarrow> string \<Rightarrow> string" where
  "add_table c table added =
     (let eol = line_end c; txt = join [CHR 0x0A] (ct_lines c);
          header = ''['' @ table @ '']'' @ eol @ [CHR 0x0A] @ added @ [CHR 0x0A]
      in if table = []
         then (if txt = [] then added @ [CHR 0x0A]
               else added @ (if trim_space (ct_lines c ! 0) \<noteq> [] then [CHR 0x0A] else []) @ [CHR 0x0A] @ txt)
         else if txt = [] then header
         else let txt = (if has_suffix txt [CHR 0x0A] then txt else txt @ [CHR 0x0A]);
                  body = trim_suffix txt [CHR 0x0A];
                  final = drop (case last_index_byte body (CHR 0x0A) of None \<Rightarrow> 0 | Some i \<Rightarrow> i + 1) body
              in txt @ (if trim_space final \<noteq> [] then eol @ [CHR 0x0A] else []) @ header)"

definition toml_set :: "config_toml \<Rightarrow> string \<Rightarrow> string \<Rightarrow> string \<Rightarrow> string" where
  "toml_set c table key literal =
     (case find (\<lambda>st. is_entry table st \<and> st_key st = key) (ct_stmts c) of
        Some st \<Rightarrow> join [CHR 0x0A] (set_entry c st literal)
      | None \<Rightarrow>
          let added = key @ '' = '' @ literal @ line_end c
          in (case last_of_table (ct_stmts c) table of
                Some a \<Rightarrow> join [CHR 0x0A] (take (a + 1) (ct_lines c) @ [added] @ drop (a + 1) (ct_lines c))
              | None \<Rightarrow> add_table c table added))"

end
