(* ===== verification/TomlReads.thy ===== *)
theory TomlReads
  imports ConfigToml
begin

text \<open>
  What the scanner of \<^verbatim>\<open>domain/configtoml.go\<close> reads: each of its methods reads the
  bytes between two places and looks past them no further than the byte after, so that what
  follows a value may be changed without changing how the value is read.  With them, that the
  fuel \<open>scan_toml\<close> starts with is enough for every value.
\<close>

subsection \<open>What the scanner has read\<close>

text \<open>
  The bytes and line ends between two places: \<open>put C t\<close> is the place before \<open>t\<close> from which
  \<open>C\<close> leads to it, \<open>None\<close> a line end.
\<close>

fun push :: "char option \<Rightarrow> toml_scan \<Rightarrow> toml_scan" where
  "push None u = \<lparr>ts_li = ts_li u - 1, ts_text = [], ts_rest = ts_text u # ts_rest u\<rparr>"
| "push (Some c) u = u\<lparr>ts_text := c # ts_text u\<rparr>"

definition put :: "char option list \<Rightarrow> toml_scan \<Rightarrow> toml_scan" where
  "put cs t = foldr push cs t"

lemma put_Nil [simp]: "put [] t = t"
  by (simp add: put_def)

lemma put_Cons [simp]: "put (c # cs) t = push c (put cs t)"
  by (simp add: put_def)

lemma put_append [simp]: "put (cs @ ds) t = put cs (put ds t)"
  by (simp add: put_def)

lemma put_some: "put (map Some c) t = t\<lparr>ts_text := c @ ts_text t\<rparr>"
  by (induction c) auto

definition line_ends :: "char option list \<Rightarrow> nat" where
  "line_ends cs = length (filter (\<lambda>c. c = None) cs)"

lemma line_ends_simps [simp]:
  "line_ends [] = 0" "line_ends (None # cs) = Suc (line_ends cs)" "line_ends (Some c # cs) = line_ends cs"
  "line_ends (cs @ ds) = line_ends cs + line_ends ds" "line_ends (map Some txt) = 0"
  by (simp_all add: line_ends_def filter_empty_conv)

text \<open>Two places that read alike as far as what stops a value goes, and alike to their first byte.\<close>

definition stops_alike :: "toml_scan \<Rightarrow> toml_scan \<Rightarrow> bool" where
  "stops_alike t t' \<longleftrightarrow> ts_li t' = ts_li t \<and>
     (ts_text t' = [] \<or> bare_stop (hd (ts_text t')) \<or> ts_text t \<noteq> [] \<and> hd (ts_text t') = hd (ts_text t))"

definition begins_alike :: "toml_scan \<Rightarrow> toml_scan \<Rightarrow> bool" where
  "begins_alike t t' \<longleftrightarrow> ts_li t' = ts_li t \<and> ts_text t \<noteq> [] \<and> ts_text t' \<noteq> [] \<and> hd (ts_text t') = hd (ts_text t)"

lemma begins_stops: "begins_alike t t' \<Longrightarrow> stops_alike t t'"
  by (simp add: begins_alike_def stops_alike_def)

lemma ts_li_put: "line_ends cs \<le> ts_li t \<Longrightarrow> ts_li (put cs t) = ts_li t - line_ends cs"
proof (induction cs)
  case (Cons c cs)
  then show ?case by (cases c) (auto simp: Suc_le_eq)
qed simp

text \<open>Alike at a place, alike at every place before it.\<close>

lemma begins_alike_put:
  assumes "begins_alike t t'"
  shows "ts_text (put cs t) = [] \<and> ts_text (put cs t') = [] \<and> ts_li (put cs t') = ts_li (put cs t) \<or>
    begins_alike (put cs t) (put cs t')"
proof (induction cs)
  case (Cons c cs)
  then show ?case by (cases c) (auto simp: begins_alike_def)
qed (use assms in simp)

lemma stops_alike_put:
  assumes "begins_alike t t'"
  shows "stops_alike (put cs t) (put cs t')"
  using begins_alike_put [OF assms, of cs] begins_stops by (auto simp: stops_alike_def)

text \<open>
  What a reading \<open>f\<close> from \<open>s\<close> to \<open>t\<close> reads, and that it reads the same, and stops, before any
  other place that is alike by \<open>R\<close>.
\<close>

definition reads_only ::
  "(toml_scan \<Rightarrow> toml_scan \<Rightarrow> bool) \<Rightarrow> (toml_scan \<Rightarrow> toml_scan \<Rightarrow> bool) \<Rightarrow> toml_scan \<Rightarrow> toml_scan \<Rightarrow> bool"
where
  "reads_only R f s t \<longleftrightarrow>
     (\<exists>cs. s = put cs t \<and> ts_li t = ts_li s + line_ends cs \<and> (\<forall>t'. R t t' \<longrightarrow> f (put cs t') t'))"

lemma reads_onlyI:
  assumes "s = put cs t" "line_ends cs \<le> ts_li t" "\<And>t'. R t t' \<Longrightarrow> f (put cs t') t'"
  shows "reads_only R f s t"
  using assms ts_li_put [of cs t] unfolding reads_only_def by (intro exI [of _ cs]) auto

text \<open>On one line.\<close>

lemma reads_only_lineI:
  assumes "ts_text s = c @ ts_text t" "ts_rest s = ts_rest t" "ts_li s = ts_li t"
    and "\<And>t'. R t t' \<Longrightarrow> f (t'\<lparr>ts_text := c @ ts_text t'\<rparr>) t'"
  shows "reads_only R f s t"
  by (rule reads_onlyI [where cs = "map Some c"]) (use assms in \<open>auto simp: put_some\<close>)

text \<open>One reading after another, when what the first stops at is alike whatever the second stops at.\<close>

lemma reads_only_trans:
  assumes f: "reads_only R f s t" and g: "reads_only Q g t u"
    and R: "\<And>cs u'. t = put cs u \<Longrightarrow> Q u u' \<Longrightarrow> R t (put cs u')"
    and h: "\<And>s' t' u'. R t t' \<Longrightarrow> Q u u' \<Longrightarrow> f s' t' \<Longrightarrow> g t' u' \<Longrightarrow> h s' u'"
  shows "reads_only Q h s u"
proof -
  obtain cs where cs: "s = put cs t" "ts_li t = ts_li s + line_ends cs" "\<And>t'. R t t' \<Longrightarrow> f (put cs t') t'"
    using f by (auto simp: reads_only_def)
  obtain ds where ds: "t = put ds u" "ts_li u = ts_li t + line_ends ds" "\<And>u'. Q u u' \<Longrightarrow> g (put ds u') u'"
    using g by (auto simp: reads_only_def)
  have "h (put (cs @ ds) u') u'" if "Q u u'" for u'
    using h [OF R [OF ds(1) that] that cs(3) [OF R [OF ds(1) that]] ds(3) [OF that]] by simp
  with cs ds show ?thesis unfolding reads_only_def by (intro exI [of _ "cs @ ds"]) auto
qed

lemma reads_only_mono:
  assumes "reads_only R f s t" "\<And>t'. Q t t' \<Longrightarrow> R t t'" "\<And>s' t'. Q t t' \<Longrightarrow> f s' t' \<Longrightarrow> g s' t'"
  shows "reads_only Q g s t"
  using assms unfolding reads_only_def by blast

subsection \<open>Every reading is of this kind\<close>

lemma dropWhile_takeWhile_alike:
  assumes "ys \<noteq> [] \<Longrightarrow> \<not> P (hd ys)"
  shows "dropWhile P (takeWhile P xs @ ys) = ys"
  using assms by (induction xs) (auto simp: dropWhile_eq_self_iff)

lemma skip_space_reads:
  assumes "skip_space s = t" "ts_text t \<noteq> []"
  shows "reads_only begins_alike (\<lambda>s t. skip_space s = t) s t"
proof (rule reads_only_lineI)
  show "ts_text s = takeWhile blank (ts_text s) @ ts_text t"
    using assms(1) by (auto simp: skip_space_def)
  fix t' assume "begins_alike t t'"
  moreover have "\<not> blank (hd (ts_text t))"
    using assms hd_dropWhile_not [of blank "ts_text s"] by (auto simp: skip_space_def simp del: dropWhile_eq_Nil_conv)
  ultimately have "dropWhile blank (takeWhile blank (ts_text s) @ ts_text t') = ts_text t'"
    by (intro dropWhile_takeWhile_alike) (auto simp: begins_alike_def)
  then show "skip_space (t'\<lparr>ts_text := takeWhile blank (ts_text s) @ ts_text t'\<rparr>) = t'"
    by (simp add: skip_space_def)
qed (use assms in \<open>auto simp: skip_space_def\<close>)

lemma skip_blank_from_reads:
  assumes "skip_blank_from li line rest = (True, t)"
  shows "reads_only begins_alike (\<lambda>s t. skip_blank s = (True, t)) (\<lparr>ts_li = li, ts_text = line, ts_rest = rest\<rparr>) t"
  using assms
proof (induction li line rest rule: skip_blank_from.induct)
  case (1 li line rest)
  define d where "d = dropWhile blank line"
  show ?case
  proof (cases "d \<noteq> [] \<and> hd d \<noteq> CHR ''#''")
    case True
    then have t: "t = \<lparr>ts_li = li, ts_text = d, ts_rest = rest\<rparr>"
      using "1.prems" by (subst (asm) skip_blank_from.simps) (simp add: d_def Let_def)
    show ?thesis
    proof (rule reads_only_lineI [where c = "takeWhile blank line"])
      fix t' assume t': "begins_alike t t'"
      have "\<not> blank (hd d)" using True hd_dropWhile_not [of blank line] by (simp add: d_def)
      then have "dropWhile blank (takeWhile blank line @ ts_text t') = ts_text t'"
        using t' by (intro dropWhile_takeWhile_alike) (auto simp: t begins_alike_def)
      with t' True show "skip_blank (t'\<lparr>ts_text := takeWhile blank line @ ts_text t'\<rparr>) = (True, t')"
        by (cases t', subst skip_blank_def, subst skip_blank_from.simps) (auto simp: Let_def t begins_alike_def)
    qed (simp_all add: t d_def)
  next
    case False
    then obtain l ls where rest: "rest = l # ls"
      using "1.prems" by (subst (asm) skip_blank_from.simps) (auto simp: d_def Let_def split: list.splits if_splits)
    have next_line: "skip_blank_from (li + 1) l ls = (True, t)"
      using "1.prems" False rest by (subst (asm) skip_blank_from.simps) (auto simp: d_def Let_def split: if_splits)
    have "reads_only begins_alike (\<lambda>s t. skip_blank s = (True, t)) (\<lparr>ts_li = li + 1, ts_text = l, ts_rest = ls\<rparr>) t"
      by (rule "1.IH" [OF refl refl _ rest next_line]) (use False in \<open>auto simp: d_def\<close>)
    then obtain cs where cs: "\<lparr>ts_li = li + 1, ts_text = l, ts_rest = ls\<rparr> = put cs t"
      "ts_li t = li + 1 + line_ends cs" "\<And>t'. begins_alike t t' \<Longrightarrow> skip_blank (put cs t') = (True, t')"
      by (auto simp: reads_only_def)
    show ?thesis
    proof (rule reads_onlyI [where cs = "map Some line @ None # cs"])
      show "\<lparr>ts_li = li, ts_text = line, ts_rest = rest\<rparr> = put (map Some line @ None # cs) t"
        by (simp add: cs(1) [symmetric] put_some rest)
      show "line_ends (map Some line @ None # cs) \<le> ts_li t" using cs(2) by simp
      fix t' assume t': "begins_alike t t'"
      have "ts_li (put cs t') = li + 1"
        using cs(2) t' ts_li_put [of cs t'] by (simp add: begins_alike_def)
      then show "skip_blank (put (map Some line @ None # cs) t') = (True, t')"
        using cs(3) [OF t'] False
        by (subst skip_blank_def, subst skip_blank_from.simps) (auto simp: put_some Let_def d_def [symmetric] skip_blank_def)
    qed
  qed
qed

lemma skip_blank_reads:
  assumes "skip_blank s = (True, t)"
  shows "reads_only begins_alike (\<lambda>s t. skip_blank s = (True, t)) s t"
proof (cases s)
  case (fields li line rest)
  then show ?thesis using skip_blank_from_reads [of li line rest t] assms skip_blank_def [of s] by simp
qed

text \<open>A dotted key.\<close>

lemma index_of_single_iff:
  "index_of s [c] = Some i \<longleftrightarrow> i < length s \<and> s ! i = c \<and> c \<notin> set (take i s)"
proof (induction s arbitrary: i)
  case (Cons a s)
  show ?case
  proof (cases "a = c")
    case True
    then show ?thesis by (cases i) (auto simp: has_prefix_def)
  next
    case False
    then show ?thesis using Cons.IH by (cases i) (auto simp: has_prefix_def)
  qed
qed auto

lemma index_of_single_append: "index_of s [c] = Some i \<Longrightarrow> index_of (s @ t) [c] = Some i"
  by (auto simp: index_of_single_iff nth_append)

text \<open>A part read in quotes, up to the closing one.\<close>

lemma quoted_part:
  assumes "index_of s [c] = Some i"
  shows "s = take (i + 1) s @ drop (i + 1) s" "index_of (take (i + 1) s @ t) [c] = Some i"
    "take i (take (i + 1) s @ t) = take i s" "drop (i + 1) (take (i + 1) s @ t) = t"
proof -
  have i: "i < length s" "s ! i = c" "c \<notin> set (take i s)" using assms by (auto simp: index_of_single_iff)
  then have l: "length (take (i + 1) s) = i + 1" by simp
  show "s = take (i + 1) s @ drop (i + 1) s" by simp
  show "index_of (take (i + 1) s @ t) [c] = Some i"
    using i l by (simp add: index_of_single_iff nth_append min_def)
  show "take i (take (i + 1) s @ t) = take i s" "drop (i + 1) (take (i + 1) s @ t) = t"
    using l by (simp_all add: min_def)
qed

lemma key_part_reads:
  assumes "key_part s = Inr (part, t)"
  shows "\<exists>c. c \<noteq> [] \<and> ts_text s = c @ ts_text t \<and> ts_rest s = ts_rest t \<and> ts_li s = ts_li t \<and>
    (ts_text t = [] \<or> (ts_peek s = dquote \<or> ts_peek s = squote) \<or> \<not> bare_char (hd (ts_text t))) \<and>
    (\<forall>t'. (ts_text t' = [] \<or> ts_peek s = dquote \<or> ts_peek s = squote \<or> \<not> bare_char (hd (ts_text t'))) \<longrightarrow>
      key_part (t'\<lparr>ts_text := c @ ts_text t'\<rparr>) = Inr (part, t'))"
proof (cases "ts_peek s = dquote \<or> ts_peek s = squote")
  case True
  define q where "q = ts_peek s"
  obtain x where x: "ts_text s = q # x"
    using True by (cases "ts_text s") (auto simp: ts_peek_def dquote_def squote_def q_def)
  obtain e where e: "index_of x [q] = Some e" "part = take e x" "t = s\<lparr>ts_text := drop (e + 1) x\<rparr>"
    using assms True x by (auto simp: key_part_def q_def [symmetric] ts_skip_def ts_fail_def split: option.splits)
  note quoted = quoted_part [OF e(1)]
  show ?thesis
  proof (intro exI [of _ "q # take (e + 1) x"] conjI allI impI)
    fix t' :: toml_scan
    have "ts_peek (t'\<lparr>ts_text := (q # take (e + 1) x) @ ts_text t'\<rparr>) = q" by (simp add: ts_peek_def)
    then show "key_part (t'\<lparr>ts_text := (q # take (e + 1) x) @ ts_text t'\<rparr>) = Inr (part, t')"
      using True quoted(2-4) [of "ts_text t'"] e(2) by (simp add: key_part_def q_def [symmetric] ts_skip_def)
  qed (use x e True in \<open>simp_all add: q_def\<close>)
next
  case False
  define p where "p = takeWhile bare_char (ts_text s)"
  have p: "part = p" "p \<noteq> []" "t = s\<lparr>ts_text := dropWhile bare_char (ts_text s)\<rparr>"
    using assms False
    by (auto simp: key_part_def p_def ts_skip_def ts_fail_def Let_def dropWhile_eq_drop split: if_splits)
  show ?thesis
  proof (intro exI [of _ p] conjI allI impI)
    show "ts_text t = [] \<or> (ts_peek s = dquote \<or> ts_peek s = squote) \<or> \<not> bare_char (hd (ts_text t))"
      using hd_dropWhile_not [of bare_char "ts_text s"] by (auto simp: p(3))
    fix t' :: toml_scan
    assume t': "ts_text t' = [] \<or> ts_peek s = dquote \<or> ts_peek s = squote \<or> \<not> bare_char (hd (ts_text t'))"
    have all: "\<forall>c \<in> set p. bare_char c" by (auto simp: p_def dest: set_takeWhileD)
    have run: "takeWhile bare_char (p @ ts_text t') = p"
      using t' False all by (cases "ts_text t'") (auto simp: takeWhile_append2)
    have "ts_peek (t'\<lparr>ts_text := p @ ts_text t'\<rparr>) = hd p" using p(2) by (cases p) (auto simp: ts_peek_def)
    moreover have "bare_char (hd p)" using all p(2) by simp
    then have "hd p \<noteq> dquote" "hd p \<noteq> squote" by (auto simp: bare_char_def dquote_def squote_def is_digit_def is_upper_def is_lower_def byte_def)
    ultimately show "key_part (t'\<lparr>ts_text := p @ ts_text t'\<rparr>) = Inr (part, t')"
      using run p by (simp add: key_part_def Let_def ts_skip_def)
  qed (use p in \<open>simp_all add: p_def\<close>)
qed

text \<open>A reading that stays on its line.\<close>

definition reads_line ::
  "(toml_scan \<Rightarrow> toml_scan \<Rightarrow> bool) \<Rightarrow> (toml_scan \<Rightarrow> toml_scan \<Rightarrow> bool) \<Rightarrow> toml_scan \<Rightarrow> toml_scan \<Rightarrow> bool"
where
  "reads_line R f s t \<longleftrightarrow>
     (\<exists>c. ts_text s = c @ ts_text t \<and> ts_rest s = ts_rest t \<and> ts_li s = ts_li t \<and>
       (\<forall>t'. R t t' \<longrightarrow> f (t'\<lparr>ts_text := c @ ts_text t'\<rparr>) t'))"

lemma reads_line_only: "reads_line R f s t \<Longrightarrow> reads_only R f s t"
  unfolding reads_line_def by (auto intro: reads_only_lineI)

lemma reads_line_trans:
  assumes f: "reads_line R f s t" and g: "reads_line Q g t u"
    and R: "\<And>c u'. ts_text t = c @ ts_text u \<Longrightarrow> ts_li t = ts_li u \<Longrightarrow> Q u u' \<Longrightarrow>
      R t (u'\<lparr>ts_text := c @ ts_text u'\<rparr>)"
    and h: "\<And>s' t' u'. R t t' \<Longrightarrow> Q u u' \<Longrightarrow> f s' t' \<Longrightarrow> g t' u' \<Longrightarrow> h s' u'"
  shows "reads_line Q h s u"
proof -
  obtain c where c: "ts_text s = c @ ts_text t" "ts_rest s = ts_rest t" "ts_li s = ts_li t"
    "\<And>t'. R t t' \<Longrightarrow> f (t'\<lparr>ts_text := c @ ts_text t'\<rparr>) t'"
    using f by (auto simp: reads_line_def)
  obtain d where d: "ts_text t = d @ ts_text u" "ts_rest t = ts_rest u" "ts_li t = ts_li u"
    "\<And>u'. Q u u' \<Longrightarrow> g (u'\<lparr>ts_text := d @ ts_text u'\<rparr>) u'"
    using g by (auto simp: reads_line_def)
  have "h (u'\<lparr>ts_text := (c @ d) @ ts_text u'\<rparr>) u'" if "Q u u'" for u'
    using h [OF R [OF d(1,3) that] that c(4) [OF R [OF d(1,3) that]] d(4) [OF that]] by simp
  with c d show ?thesis unfolding reads_line_def by (intro exI [of _ "c @ d"]) auto
qed

lemma begins_alike_line:
  "begins_alike u u' \<Longrightarrow> ts_text t = c @ ts_text u \<Longrightarrow> ts_li t = ts_li u \<Longrightarrow>
     begins_alike t (u'\<lparr>ts_text := c @ ts_text u'\<rparr>)"
  by (cases c) (auto simp: begins_alike_def)

lemma skip_space_line:
  assumes "skip_space s = t" "ts_text t \<noteq> []"
  shows "reads_line begins_alike (\<lambda>s t. skip_space s = t) s t"
  unfolding reads_line_def
proof (intro exI [of _ "takeWhile blank (ts_text s)"] conjI allI impI)
  fix t' assume "begins_alike t t'"
  moreover have "\<not> blank (hd (ts_text t))"
    using assms hd_dropWhile_not [of blank "ts_text s"] by (auto simp: skip_space_def simp del: dropWhile_eq_Nil_conv)
  ultimately have "dropWhile blank (takeWhile blank (ts_text s) @ ts_text t') = ts_text t'"
    by (intro dropWhile_takeWhile_alike) (auto simp: begins_alike_def)
  then show "skip_space (t'\<lparr>ts_text := takeWhile blank (ts_text s) @ ts_text t'\<rparr>) = t'"
    by (simp add: skip_space_def)
qed (use assms in \<open>auto simp: skip_space_def\<close>)

lemma skip_one_line:
  assumes "ts_text s \<noteq> []"
  shows "reads_line (\<lambda>t t'. ts_li t' = ts_li t) (\<lambda>s' t. ts_skip 1 s' = t \<and> ts_text s' \<noteq> [] \<and> hd (ts_text s') = hd (ts_text s)) s (ts_skip 1 s)"
  unfolding reads_line_def
  by (intro exI [of _ "[hd (ts_text s)]"], cases "ts_text s") (use assms in \<open>auto simp: ts_skip_def\<close>)

lemma key_part_line:
  assumes "key_part s = Inr (part, t)" "ts_text t \<noteq> []"
  shows "reads_line begins_alike (\<lambda>s t. key_part s = Inr (part, t)) s t"
  using key_part_reads [OF assms(1)] assms(2) unfolding reads_line_def begins_alike_def by fastforce

lemma skip_space_nonempty: "ts_text (skip_space s) \<noteq> [] \<Longrightarrow> ts_text s \<noteq> []"
  by (auto simp: skip_space_def)

lemma ts_peek_alike: "begins_alike t t' \<Longrightarrow> ts_peek t' = ts_peek t"
  by (auto simp: begins_alike_def ts_peek_def split: list.splits)

lemma toml_key_line:
  assumes "toml_key s = Inr (parts, t)" "ts_text t \<noteq> []"
  shows "reads_line begins_alike (\<lambda>s t. toml_key s = Inr (parts, t)) s t"
  using assms
proof (induction s arbitrary: parts rule: toml_key.induct)
  case (1 s)
  obtain part a where part: "key_part (skip_space s) = Inr (part, a)"
    using "1.prems" by (subst (asm) toml_key.simps) (auto split: sum.splits)
  define b where "b = skip_space a"
  have run: "(if ts_peek b \<noteq> CHR ''.'' then Inr ([part], b)
      else case toml_key (ts_skip 1 b) of Inl e \<Rightarrow> Inl e | Inr (parts, u) \<Rightarrow> Inr (part # parts, u)) = Inr (parts, t)"
    using "1.prems"(1) by (subst (asm) toml_key.simps) (simp only: part b_def Let_def sum.case prod.case)
  have b: "ts_text b \<noteq> []"
  proof (cases "ts_peek b = CHR ''.''")
    case True
    then show ?thesis by (auto simp: ts_peek_def split: list.splits)
  qed (use run "1.prems" in auto)
  have a: "ts_text a \<noteq> []" using b skip_space_nonempty by (simp add: b_def)
  have sp: "ts_text (skip_space s) \<noteq> []" using part key_part_shorter [OF part] by auto
  have first: "reads_line begins_alike (\<lambda>s b. \<exists>a. key_part (skip_space s) = Inr (part, a) \<and> skip_space a = b) s b"
  proof (rule reads_line_trans [OF skip_space_line [OF refl sp]])
    show "reads_line begins_alike (\<lambda>s b. \<exists>a. key_part s = Inr (part, a) \<and> skip_space a = b) (skip_space s) b"
      by (rule reads_line_trans [OF key_part_line [OF part a] skip_space_line [OF b_def [symmetric] b]])
         (auto intro: begins_alike_line)
  qed (auto intro: begins_alike_line)
  show ?case
  proof (cases "ts_peek b = CHR ''.''")
    case False
    then have "parts = [part]" "t = b" using run by auto
    with first False show ?thesis
      unfolding reads_line_def
      by (fastforce simp: toml_key.simps Let_def ts_peek_alike)
  next
    case True
    obtain more where rest: "toml_key (ts_skip 1 b) = Inr (more, t)" "parts = part # more"
      using run True by (auto split: sum.splits)
    have ih: "reads_line begins_alike (\<lambda>s t. toml_key s = Inr (more, t)) (ts_skip 1 b) t"
      using "1.IH" [OF part refl b_def _ rest(1) "1.prems"(2)] True by simp
    have dot: "reads_line begins_alike (\<lambda>s' t. ts_peek s' = CHR ''.'' \<and> toml_key (ts_skip 1 s') = Inr (more, t)) b t"
    proof (rule reads_line_trans [OF skip_one_line [OF b] ih])
      fix s' t' u' assume "ts_skip 1 s' = t' \<and> ts_text s' \<noteq> [] \<and> hd (ts_text s') = hd (ts_text b)"
        "toml_key t' = Inr (more, u')"
      with True b show "ts_peek s' = CHR ''.'' \<and> toml_key (ts_skip 1 s') = Inr (more, u')"
        by (auto simp: ts_peek_def split: list.splits)
    qed (auto simp: begins_alike_def)
    show ?thesis
    proof (rule reads_line_trans [OF first dot])
      fix s' b' t' assume "\<exists>a. key_part (skip_space s') = Inr (part, a) \<and> skip_space a = b'"
        "ts_peek b' = CHR ''.'' \<and> toml_key (ts_skip 1 b') = Inr (more, t')"
      then show "toml_key s' = Inr (parts, t')" by (subst toml_key.simps) (auto simp: rest(2) Let_def)
    qed (auto intro: begins_alike_line)
  qed
qed

subsection \<open>Values read only themselves\<close>

lemma after_basic_part:
  "after_basic s = Inr t \<Longrightarrow> \<exists>c. s = c @ t \<and> (\<forall>t'. after_basic (c @ t') = Inr t')"
proof (induction s rule: after_basic.induct)
  case (2 c s)
  show ?case
  proof (cases "c = bslash")
    case True
    then obtain d u where s: "s = d # u" "List.member (''btnfre'' @ [dquote, bslash] @ ''uU'') d" "after_basic u = Inr t"
      using "2.prems" by (auto split: list.splits if_splits)
    obtain x where "u = x @ t" "\<forall>t'. after_basic (x @ t') = Inr t'"
      using "2.IH"(1) [OF True s(1,2,3)] by blast
    with s True show ?thesis by (intro exI [of _ "c # d # x"]) simp
  next
    case False
    show ?thesis
    proof (cases "c = dquote")
      case True
      with False "2.prems" show ?thesis by (intro exI [of _ "[c]"]) simp
    next
      case no: False
      obtain x where "s = x @ t" "\<forall>t'. after_basic (x @ t') = Inr t'"
        using "2.IH"(2) [OF False no] "2.prems" False no by auto
      with False no show ?thesis by (intro exI [of _ "c # x"]) simp
    qed
  qed
qed simp

lemma after_quotes_part:
  assumes "length q = 3" "after_quotes q s = Some t"
  shows "\<exists>c. s = c @ t \<and> 3 \<le> length c \<and> (\<forall>t'. after_quotes q (c @ t') = Some t')"
  using assms
proof (induction q s rule: after_quotes.induct)
  case (2 q c s)
  show ?case
  proof (cases "q = [dquote, dquote, dquote] \<and> c = bslash")
    case True
    obtain x where x: "tl s = x @ t" "3 \<le> length x" "\<forall>t'. after_quotes q (x @ t') = Some t'"
      using "2.IH"(1) [OF True] "2.prems" True by auto
    then obtain d where "s = d # x @ t" by (cases s) auto
    with x True show ?thesis by (intro exI [of _ "c # d # x"]) auto
  next
    case False
    show ?thesis
    proof (cases "has_prefix (c # s) q")
      case True
      then have r: "c # s = q @ drop 3 (c # s)" using "2.prems"(1) unfolding has_prefix_def by (metis append_take_drop_id)
      then obtain q' where q': "q = c # q'" using "2.prems"(1) by (cases q) auto
      have "t = drop 3 (c # s)" using False True "2.prems" by (auto split: if_splits)
      moreover have "after_quotes q (c # q' @ t') = Some t'" for t'
        using False "2.prems"(1) q' by (auto simp: has_prefix_def)
      ultimately show ?thesis using r q' "2.prems"(1) by (intro exI [of _ q]) auto
    next
      case no: False
      obtain x where x: "s = x @ t" "3 \<le> length x" "\<forall>t'. after_quotes q (x @ t') = Some t'"
        using "2.IH"(2) [OF False no] "2.prems" False no by auto
      have "\<not> has_prefix (c # x @ t') q" for t'
        using no x(1,2) "2.prems"(1) by (auto simp: has_prefix_def)
      with x False show ?thesis by (intro exI [of _ "c # x"]) auto
    qed
  qed
qed simp

lemma ts_size_push: "ts_size (push c t) = Suc (ts_size t)"
  by (cases c) (auto simp: ts_size_def)

lemma ts_size_put: "ts_size (put cs t) = length cs + ts_size t"
  by (induction cs) (auto simp: ts_size_push)

lemma reads_only_size: "reads_only R f s t \<Longrightarrow> ts_size t \<le> ts_size s"
  by (auto simp: reads_only_def ts_size_put)

lemma reads_line_size: "reads_line R f s t \<Longrightarrow> ts_size t \<le> ts_size s"
  by (auto simp: reads_line_def ts_size_def)

lemma ts_skip_size: "ts_text s \<noteq> [] \<Longrightarrow> ts_size (ts_skip 1 s) < ts_size s"
  by (auto simp: ts_size_def ts_skip_def)

lemma skip_space_size: "ts_size (skip_space s) \<le> ts_size s"
  by (simp add: ts_size_def skip_space_def length_dropWhile_le)

lemma skip_blank_size: "skip_blank s = (b, t) \<Longrightarrow> ts_size t \<le> ts_size s"
proof -
  have "skip_blank_from li line rest = (b, t) \<Longrightarrow> ts_size t \<le> ts_size \<lparr>ts_li = li, ts_text = line, ts_rest = rest\<rparr>"
    for li line rest
  proof (induction li line rest rule: skip_blank_from.induct)
    case (1 li line rest)
    have "length (dropWhile blank line) \<le> length line" by (rule length_dropWhile_le)
    then show ?case
      using "1.prems" "1.IH" [OF refl refl]
      by (subst (asm) skip_blank_from.simps)
         (fastforce simp: Let_def ts_size_def split: list.splits if_splits)
  qed
  then show "skip_blank s = (b, t) \<Longrightarrow> ts_size t \<le> ts_size s"
    by (cases s) (simp add: skip_blank_def)
qed

lemma toml_key_size: "toml_key s = Inr (parts, t) \<Longrightarrow> ts_size t < ts_size s"
proof (induction s arbitrary: parts t rule: toml_key.induct)
  case (1 s)
  obtain part a where part: "key_part (skip_space s) = Inr (part, a)"
    using "1.prems" by (subst (asm) toml_key.simps) (auto split: sum.splits)
  have rest: "ts_rest a = ts_rest (skip_space s)" using key_part_reads [OF part] by auto
  have a: "ts_size (skip_space a) < ts_size s"
    using key_part_shorter [OF part] skip_space_size [of a] skip_space_size [of s] rest
    by (simp add: ts_size_def)
  show ?case
  proof (cases "ts_peek (skip_space a) = CHR ''.''")
    case True
    then obtain more where "toml_key (ts_skip 1 (skip_space a)) = Inr (more, t)"
      using "1.prems" part by (subst (asm) toml_key.simps) (auto simp: Let_def split: sum.splits)
    from "1.IH" [OF part refl refl _ this] True a show ?thesis
      by (auto simp: ts_size_def ts_skip_def)
  next
    case False
    then have "t = skip_space a"
      using "1.prems" part by (subst (asm) toml_key.simps) (auto simp: Let_def)
    with a show ?thesis by simp
  qed
qed

lemma multiline_from_reads:
  assumes "length q = 3" "multiline_from q li line rest = Inr t"
  shows "reads_only (\<lambda>t t'. ts_li t' = ts_li t)
    (\<lambda>s t. multiline_from q (ts_li s) (ts_text s) (ts_rest s) = Inr t) (\<lparr>ts_li = li, ts_text = line, ts_rest = rest\<rparr>) t"
  using assms
proof (induction q li line rest rule: multiline_from.induct)
  case (1 q li line rest)
  show ?case
  proof (cases "after_quotes q line")
    case (Some u)
    obtain c where c: "line = c @ u" "\<forall>t'. after_quotes q (c @ t') = Some t'"
      using after_quotes_part [OF "1.prems"(1) Some] by blast
    have "t = \<lparr>ts_li = li, ts_text = u, ts_rest = rest\<rparr>"
      using "1.prems"(2) Some by (subst (asm) multiline_from.simps) simp
    with c show ?thesis
      by (intro reads_only_lineI [where c = c]) (auto simp: multiline_from.simps)
  next
    case None
    then obtain l ls where rest: "rest = l # ls" "multiline_from q (li + 1) l ls = Inr t"
      using "1.prems"(2) by (subst (asm) multiline_from.simps) (auto split: list.splits)
    from "1.IH" [OF None rest(1) "1.prems"(1) rest(2)]
    obtain cs where cs: "\<lparr>ts_li = li + 1, ts_text = l, ts_rest = ls\<rparr> = put cs t"
      "ts_li t = li + 1 + line_ends cs"
      "\<And>t'. ts_li t' = ts_li t \<Longrightarrow>
        multiline_from q (ts_li (put cs t')) (ts_text (put cs t')) (ts_rest (put cs t')) = Inr t'"
      by (auto simp: reads_only_def)
    show ?thesis
    proof (rule reads_onlyI [where cs = "map Some line @ None # cs"])
      show "\<lparr>ts_li = li, ts_text = line, ts_rest = rest\<rparr> = put (map Some line @ None # cs) t"
        by (simp add: cs(1) [symmetric] put_some rest)
      fix t' :: toml_scan assume t': "ts_li t' = ts_li t"
      have "ts_li (put cs t') = li + 1" using cs(2) t' ts_li_put [of cs t'] by simp
      then show "multiline_from q (ts_li (put (map Some line @ None # cs) t'))
          (ts_text (put (map Some line @ None # cs) t')) (ts_rest (put (map Some line @ None # cs) t')) = Inr t'"
        using cs(3) [OF t'] None by (subst multiline_from.simps) (simp add: put_some)
    qed (use cs(2) in simp)
  qed
qed

text \<open>A value on one line that is no bracket, in quotes or bare.\<close>

lemma single_value_part:
  assumes "single_value s = Inr t"
  shows "\<exists>c. c \<noteq> [] \<and> ts_text s = c @ ts_text t \<and> t = s\<lparr>ts_text := ts_text t\<rparr> \<and>
    ((hd c = dquote \<or> hd c = squote) \<longrightarrow> 2 \<le> length c) \<and>
    (\<forall>t'. stops_alike t t' \<longrightarrow> single_value (t'\<lparr>ts_text := c @ ts_text t'\<rparr>) = Inr t')"
proof -
  consider "ts_peek s = dquote" | "ts_peek s = squote" | "ts_peek s \<noteq> dquote" "ts_peek s \<noteq> squote" by blast
  then show ?thesis
  proof cases
    case 1
    then obtain x where x: "ts_text s = dquote # x" by (cases "ts_text s") (auto simp: ts_peek_def dquote_def)
    then obtain u where u: "after_basic x = Inr u" "t = s\<lparr>ts_text := u\<rparr>"
      using assms 1 by (auto simp: single_value_def ts_fail_def split: sum.splits)
    obtain c where c: "x = c @ u" "\<forall>t'. after_basic (c @ t') = Inr t'" using after_basic_part [OF u(1)] by blast
    have "c \<noteq> []" using c(2) by (metis Inl_Inr_False after_basic.simps(1) append_Nil)
    with x u c show ?thesis
      by (intro exI [of _ "dquote # c"]) (auto simp: single_value_def ts_peek_def Suc_le_eq)
  next
    case 2
    then obtain x where x: "ts_text s = squote # x" by (cases "ts_text s") (auto simp: ts_peek_def squote_def)
    then obtain e where e: "index_of x [squote] = Some e" "t = s\<lparr>ts_text := drop (e + 1) x\<rparr>"
      using assms 2 by (auto simp: single_value_def ts_fail_def ts_skip_def dquote_def squote_def split: option.splits)
    note quoted = quoted_part [OF e(1)]
    have "squote \<noteq> dquote" by (simp add: squote_def dquote_def)
    moreover have "e < length x" using e(1) by (simp add: index_of_single_iff)
    ultimately show ?thesis using x e quoted(2,4)
      by (intro exI [of _ "squote # take (e + 1) x"])
         (auto simp: single_value_def ts_peek_def ts_skip_def)
  next
    case 3
    define p where "p = takeWhile (\<lambda>c. \<not> bare_stop c) (ts_text s)"
    have p: "p \<noteq> []" "valid_bare_value p" "t = s\<lparr>ts_text := dropWhile (\<lambda>c. \<not> bare_stop c) (ts_text s)\<rparr>"
      using assms 3 by (auto simp: single_value_def p_def ts_skip_def ts_fail_def Let_def dropWhile_eq_drop split: if_splits)
    have all: "\<forall>c \<in> set p. \<not> bare_stop c" by (auto simp: p_def dest: set_takeWhileD)
    have hd: "ts_peek s = hd p" using p(1) by (cases "ts_text s") (auto simp: ts_peek_def p_def split: if_splits)
    show ?thesis
    proof (intro exI [of _ p] conjI allI impI)
      fix t' assume t': "stops_alike t t'"
      have "bare_stop (hd (ts_text t))" if "ts_text t \<noteq> []"
        using that hd_dropWhile_not [of "\<lambda>c. \<not> bare_stop c" "ts_text s"] p(3) by simp
      then have "ts_text t' = [] \<or> bare_stop (hd (ts_text t'))" using t' by (auto simp: stops_alike_def)
      then have "takeWhile (\<lambda>c. \<not> bare_stop c) (p @ ts_text t') = p"
        using all by (cases "ts_text t'") (auto simp: takeWhile_append2)
      moreover have "ts_peek (t'\<lparr>ts_text := p @ ts_text t'\<rparr>) = ts_peek s"
        using p(1) hd by (cases p) (auto simp: ts_peek_def)
      ultimately show "single_value (t'\<lparr>ts_text := p @ ts_text t'\<rparr>) = Inr t'"
        using 3 p by (simp add: single_value_def Let_def ts_skip_def)
    qed (use 3 p hd in \<open>auto simp: p_def\<close>)
  qed
qed

lemma single_value_size: "single_value s = Inr t \<Longrightarrow> ts_size t < ts_size s"
  using single_value_part [of s t] by (metis (no_types, lifting) add_less_cancel_right length_append length_greater_0_conv
    less_add_same_cancel2 toml_scan.select_convs(2,3) toml_scan.surjective toml_scan.update_convs(2) ts_size_def)

lemma multiline_string_size:
  assumes "length q = 3" "has_prefix (ts_text s) q" "multiline_string q s = Inr t"
  shows "ts_size t < ts_size s"
proof -
  have "3 \<le> length (ts_text s)" using assms(1,2) by (auto simp: has_prefix_def)
  moreover have "ts_size t \<le> ts_size \<lparr>ts_li = ts_li s, ts_text = drop 3 (ts_text s), ts_rest = ts_rest s\<rparr>"
    using reads_only_size [OF multiline_from_reads [OF assms(1)]] assms(3) by (simp add: multiline_string_def)
  ultimately show ?thesis by (simp add: ts_size_def)
qed

text \<open>The ways an array and an inline table are read.\<close>

lemma toml_array_cases:
  assumes "toml_array (Suc n) s = Inr t"
  obtains (empty) s1 where "skip_blank s = (True, s1)" "ts_peek s1 = CHR '']''" "t = ts_skip 1 s1"
  | (further) s1 s2 s3 where "skip_blank s = (True, s1)" "ts_peek s1 \<noteq> CHR '']''" "toml_value n s1 = Inr s2"
      "skip_blank s2 = (True, s3)" "ts_peek s3 = CHR '',''" "toml_array n (ts_skip 1 s3) = Inr t"
  | (final) s1 s2 s3 where "skip_blank s = (True, s1)" "ts_peek s1 \<noteq> CHR '']''" "toml_value n s1 = Inr s2"
      "skip_blank s2 = (True, s3)" "ts_peek s3 = CHR '']''" "t = ts_skip 1 s3"
  using assms by (auto simp: ts_fail_def split: prod.splits bool.splits sum.splits if_splits)

lemma toml_inline_cases:
  assumes "toml_inline (Suc n) s = Inr t"
  obtains (empty) "ts_peek (skip_space s) = CHR ''}''" "t = ts_skip 1 (skip_space s)"
  | (further) ks s1 s2 where "ts_peek (skip_space s) \<noteq> CHR ''}''" "toml_key (skip_space s) = Inr (ks, s1)"
      "ts_peek (skip_space s1) = CHR ''=''" "toml_value n (skip_space (ts_skip 1 (skip_space s1))) = Inr s2"
      "ts_peek (skip_space s2) = CHR '',''" "toml_inline n (ts_skip 1 (skip_space s2)) = Inr t"
  | (final) ks s1 s2 where "ts_peek (skip_space s) \<noteq> CHR ''}''" "toml_key (skip_space s) = Inr (ks, s1)"
      "ts_peek (skip_space s1) = CHR ''=''" "toml_value n (skip_space (ts_skip 1 (skip_space s1))) = Inr s2"
      "ts_peek (skip_space s2) = CHR ''}''" "t = ts_skip 1 (skip_space s2)"
  using assms by (auto simp: ts_fail_def Let_def split: prod.splits sum.splits if_splits)

lemma ts_peek_nonempty: "ts_peek s = c \<Longrightarrow> c \<noteq> CHR 0x00 \<Longrightarrow> ts_text s \<noteq> []"
  by (auto simp: ts_peek_def)

lemma ts_skip_peek_size: "ts_peek s = c \<Longrightarrow> c \<noteq> CHR 0x00 \<Longrightarrow> ts_size (ts_skip 1 s) < ts_size s"
  by (rule ts_skip_size) (rule ts_peek_nonempty)

lemma toml_value_size:
  "toml_value n s = Inr t \<Longrightarrow> ts_size t < ts_size s"
  "toml_array n s = Inr t \<Longrightarrow> ts_size t < ts_size s"
  "toml_inline n s = Inr t \<Longrightarrow> ts_size t < ts_size s"
proof (induction n arbitrary: s t)
  case (Suc n)
  {
    case 1
    show ?case
    proof (cases "has_prefix (ts_text s) [dquote, dquote, dquote] \<or> has_prefix (ts_text s) [squote, squote, squote]")
      case True
      then have q: "length (take 3 (ts_text s)) = 3" "has_prefix (ts_text s) (take 3 (ts_text s))"
        by (auto simp: has_prefix_def min_def dest: arg_cong [where f = length])
      with 1 True show ?thesis using multiline_string_size [OF q] by (auto simp: ts_end_def ts_fail_def split: if_splits)
    next
      case False
      with 1 show ?thesis using ts_skip_size [of s] single_value_size [of s t] Suc.IH(2,3) [of "ts_skip 1 s" t]
        by (auto simp: ts_end_def ts_fail_def split: if_splits intro: less_trans)
    qed
  next
    case 2
    then show ?case
    proof (cases rule: toml_array_cases)
      case (empty s1)
      then show ?thesis using skip_blank_size [of s] ts_skip_peek_size [of s1] by fastforce
    next
      case (further s1 s2 s3)
      then show ?thesis
        using skip_blank_size [of s] skip_blank_size [of s2] ts_skip_peek_size [of s3] Suc.IH(1) [of s1 s2]
          Suc.IH(2) [of "ts_skip 1 s3" t] by fastforce
    next
      case (final s1 s2 s3)
      then show ?thesis
        using skip_blank_size [of s] skip_blank_size [of s2] ts_skip_peek_size [of s3] Suc.IH(1) [of s1 s2]
        by fastforce
    qed
  next
    case 3
    have key: "ts_size (skip_space (ts_skip 1 (skip_space s1))) < ts_size s"
      if "toml_key (skip_space s) = Inr (ks, s1)" "ts_peek (skip_space s1) = CHR ''=''" for ks s1
      using toml_key_size [OF that(1)] skip_space_size [of s] skip_space_size [of s1]
        skip_space_size [of "ts_skip 1 (skip_space s1)"] ts_skip_peek_size [OF that(2)] by simp
    from 3 show ?case
    proof (cases rule: toml_inline_cases)
      case empty
      then show ?thesis using skip_space_size [of s] ts_skip_peek_size [of "skip_space s"] by fastforce
    next
      case (further ks s1 s2)
      then show ?thesis
        using key [of ks s1] Suc.IH(1) [of _ s2] Suc.IH(3) [of _ t] skip_space_size [of s2]
          ts_skip_peek_size [of "skip_space s2"] by fastforce
    next
      case (final ks s1 s2)
      then show ?thesis
        using key [of ks s1] Suc.IH(1) [of _ s2] skip_space_size [of s2] ts_skip_peek_size [of "skip_space s2"]
        by fastforce
    qed
  }
qed (simp_all add: ts_fail_def)

text \<open>Fuel: more changes nothing, and what \<open>scan_toml\<close> starts with is enough.\<close>

definition out_of_fuel :: "'a scanned \<Rightarrow> bool" where
  "out_of_fuel r \<longleftrightarrow> (\<exists>k. r = Inl (k, OutOfFuel))"

lemma out_of_fuel_simps [simp]:
  "out_of_fuel (Inl (k, e)) \<longleftrightarrow> e = OutOfFuel" "\<not> out_of_fuel (Inr x)" "out_of_fuel (ts_fail e s) \<longleftrightarrow> e = OutOfFuel"
  by (auto simp: out_of_fuel_def ts_fail_def)

lemma toml_value_more:
  "\<not> out_of_fuel (toml_value n s) \<Longrightarrow> toml_value (Suc n) s = toml_value n s"
  "\<not> out_of_fuel (toml_array n s) \<Longrightarrow> toml_array (Suc n) s = toml_array n s"
  "\<not> out_of_fuel (toml_inline n s) \<Longrightarrow> toml_inline (Suc n) s = toml_inline n s"
proof (induction n arbitrary: s)
  case (Suc n)
  {
    case 1
    then show ?case using Suc.IH(2,3) [of "ts_skip 1 s"]
      by (subst toml_value.simps(2), subst toml_value.simps(2)) (auto split: if_splits)
  next
    case 2
    obtain b s1 where s1: "skip_blank s = (b, s1)" by force
    have val: "toml_value (Suc n) s1 = toml_value n s1" if "b" "ts_peek s1 \<noteq> CHR '']''"
    proof (rule Suc.IH(1))
      show "\<not> out_of_fuel (toml_value n s1)" using 2 s1 that by (cases "toml_value n s1") auto
    qed
    show ?case
    proof (cases "b \<and> ts_peek s1 \<noteq> CHR '']''")
      case False
      then show ?thesis by (auto simp: s1 toml_array.simps(2) split: bool.splits)
    next
      case True
      note val = val [OF conjunct1 [OF True] conjunct2 [OF True]]
      show ?thesis
      proof (cases "toml_value n s1")
        case (Inl e)
        with True val s1 show ?thesis by (simp add: toml_array.simps(2))
      next
        case (Inr s2)
        obtain b3 s3 where s3: "skip_blank s2 = (b3, s3)" by force
        have "toml_array (Suc n) (ts_skip 1 s3) = toml_array n (ts_skip 1 s3)"
          if "b3" "ts_peek s3 = CHR '',''"
          using Suc.IH(2) [of "ts_skip 1 s3"] 2 True Inr s1 s3 that by simp
        with True val s1 s3 Inr show ?thesis
          by (cases b3) (simp_all add: toml_array.simps(2))
      qed
    qed
  next
    case 3
    show ?case
    proof (cases "ts_peek (skip_space s) = CHR ''}''")
      case False
      note brace = this
      show ?thesis
      proof (cases "toml_key (skip_space s)")
        case (Inr x)
        obtain ks s1 where x: "x = (ks, s1)" by force
        define v where "v = skip_space (ts_skip 1 (skip_space s1))"
        show ?thesis
        proof (cases "ts_peek (skip_space s1) = CHR ''=''")
          case True
          have val: "toml_value (Suc n) v = toml_value n v"
          proof (rule Suc.IH(1))
            show "\<not> out_of_fuel (toml_value n v)"
              using 3 brace Inr x True by (cases "toml_value n v") (auto simp: v_def Let_def)
          qed
          show ?thesis
          proof (cases "toml_value n v")
            case (Inl e)
            with val brace \<open>toml_key (skip_space s) = Inr x\<close> x True show ?thesis
              by (simp add: toml_inline.simps(2) v_def Let_def)
          next
            case (Inr s2)
            have "toml_inline (Suc n) (ts_skip 1 (skip_space s2)) = toml_inline n (ts_skip 1 (skip_space s2))"
              if "ts_peek (skip_space s2) = CHR '',''"
              using Suc.IH(3) [of "ts_skip 1 (skip_space s2)"] 3 brace \<open>toml_key (skip_space s) = Inr x\<close> x True Inr that
              by (simp add: v_def Let_def)
            with val brace \<open>toml_key (skip_space s) = Inr x\<close> x True Inr show ?thesis
              by (simp add: toml_inline.simps(2) v_def Let_def)
          qed
        qed (use brace Inr x in \<open>simp add: toml_inline.simps(2) Let_def\<close>)
      qed (use brace in \<open>simp add: toml_inline.simps(2) Let_def\<close>)
    qed (simp add: toml_inline.simps(2) Let_def)
  }
qed simp_all

lemma toml_value_fuel_le:
  assumes "\<not> out_of_fuel (toml_value n s)" "n \<le> m"
  shows "toml_value m s = toml_value n s"
  using assms(2)
proof (induction m rule: dec_induct)
  case (step m)
  have "toml_value (Suc m) s = toml_value m s" by (rule toml_value_more(1)) (simp only: step.IH assms(1) not_False_eq_True)
  with step.IH show ?case by (simp only:)
qed (rule refl)

lemma single_value_fuel: "\<not> out_of_fuel (single_value s)"
proof -
  have "after_basic x \<noteq> Inl OutOfFuel" for x by (induction x rule: after_basic.induct) (auto split: list.splits)
  then show ?thesis by (auto simp: single_value_def Let_def split: sum.splits option.splits)
qed

lemma multiline_string_fuel: "\<not> out_of_fuel (multiline_string q s)"
proof -
  have "\<not> out_of_fuel (multiline_from q li line rest)" for li line rest
  proof (induction q li line rest rule: multiline_from.induct)
    case (1 q li line rest)
    then show ?case by (subst multiline_from.simps) (auto split: option.splits list.splits)
  qed
  then show ?thesis by (simp add: multiline_string_def)
qed

lemma toml_key_fuel: "\<not> out_of_fuel (toml_key s)"
proof (induction s rule: toml_key.induct)
  case (1 s)
  have "\<not> out_of_fuel (key_part x)" for x by (auto simp: key_part_def Let_def split: option.splits)
  moreover have "\<not> out_of_fuel (toml_key (ts_skip 1 (skip_space a)))"
    if "key_part (skip_space s) = Inr (part, a)" "ts_peek (skip_space a) = CHR ''.''" for part a
    using 1 [OF that(1) refl refl] that(2) by simp
  ultimately show ?case
    by (subst toml_key.simps) (auto simp: Let_def out_of_fuel_def split: sum.splits)
qed

lemma toml_value_enough:
  "2 * ts_size s + 1 \<le> n \<Longrightarrow> \<not> out_of_fuel (toml_value n s)"
  "2 * ts_size s + 2 \<le> n \<Longrightarrow> \<not> out_of_fuel (toml_array n s)"
  "2 * ts_size s + 2 \<le> n \<Longrightarrow> \<not> out_of_fuel (toml_inline n s)"
proof (induction n arbitrary: s)
  case (Suc n)
  {
    case 1
    have "ts_size (ts_skip 1 s) < ts_size s" if "\<not> ts_end s" using that ts_skip_size by (simp add: ts_end_def)
    then show ?case
      using 1 Suc.IH(2,3) [of "ts_skip 1 s"] by (auto simp: single_value_fuel multiline_string_fuel)
  next
    case 2
    obtain b s1 where s1: "skip_blank s = (b, s1)" by force
    have val: "\<not> out_of_fuel (toml_value n s1)" using Suc.IH(1) [of s1] 2 skip_blank_size [OF s1] by simp
    show ?case
    proof (cases "toml_value n s1")
      case (Inl e)
      with val s1 show ?thesis by (cases e) (auto split: bool.splits)
    next
      case (Inr s2)
      obtain b3 s3 where s3: "skip_blank s2 = (b3, s3)" by force
      have "\<not> out_of_fuel (toml_array n (ts_skip 1 s3))" if "ts_peek s3 = CHR '',''"
        using Suc.IH(2) [of "ts_skip 1 s3"] 2 skip_blank_size [OF s1] skip_blank_size [OF s3]
          toml_value_size(1) [OF Inr] ts_skip_peek_size [OF that] by simp
      with s1 s3 Inr show ?thesis by (auto split: bool.splits)
    qed
  next
    case 3
    show ?case
    proof (cases "toml_key (skip_space s)")
      case (Inl e)
      with toml_key_fuel [of "skip_space s"] show ?thesis by (auto simp: Let_def out_of_fuel_def)
    next
      case key: (Inr x)
      obtain ks s1 where x: "x = (ks, s1)" by force
      define v where "v = skip_space (ts_skip 1 (skip_space s1))"
      show ?thesis
      proof (cases "ts_peek (skip_space s1) = CHR ''=''")
        case True
        have "ts_size v < ts_size s"
          using toml_key_size [OF key [unfolded x]] skip_space_size [of s] skip_space_size [of s1]
            skip_space_size [of "ts_skip 1 (skip_space s1)"] ts_skip_peek_size [OF True] by (simp add: v_def)
        note small = this
        have val: "\<not> out_of_fuel (toml_value n v)" using Suc.IH(1) [of v] 3 small by simp
        show ?thesis
        proof (cases "toml_value n v")
          case (Inl e)
          with val key x show ?thesis by (cases e) (auto simp: v_def Let_def)
        next
          case (Inr s2)
          have "\<not> out_of_fuel (toml_inline n (ts_skip 1 (skip_space s2)))" if "ts_peek (skip_space s2) = CHR '',''"
            using Suc.IH(3) [of "ts_skip 1 (skip_space s2)"] 3 small toml_value_size(1) [OF Inr]
              skip_space_size [of s2] ts_skip_peek_size [OF that] by simp
          with key x Inr show ?thesis by (auto simp: v_def Let_def)
        qed
      qed (use key x in \<open>auto simp: Let_def\<close>)
    qed
  }
qed simp_all

lemma scan_toml_enough: "\<not> out_of_fuel (scan_toml s)"
  unfolding scan_toml_def by (rule toml_value_enough(1)) (rule order_refl)

lemma scan_toml_eq:
  assumes "\<not> out_of_fuel (toml_value n s)"
  shows "toml_value n s = scan_toml s"
proof -
  define m where "m = max n (2 * ts_size s + 1)"
  have "toml_value m s = toml_value n s" using assms by (rule toml_value_fuel_le) (simp add: m_def)
  moreover have "toml_value m s = scan_toml s"
    unfolding scan_toml_def by (rule toml_value_fuel_le [OF toml_value_enough(1) [OF order_refl]]) (simp add: m_def)
  ultimately show ?thesis by simp
qed

end
