(* ===== verification/TomlValues.thy ===== *)
theory TomlValues
  imports TomlReads
begin

text \<open>
  A value of the config file is read the same whatever follows it, as long as what follows
  begins as before, or with a byte no value runs over (\<open>toml_value_reads\<close>).
\<close>

definition same_line :: "toml_scan \<Rightarrow> toml_scan \<Rightarrow> bool" where
  "same_line t t' \<longleftrightarrow> ts_li t' = ts_li t"

lemma begins_same_line: "begins_alike t t' \<Longrightarrow> same_line t t'"
  by (simp add: begins_alike_def same_line_def)

lemma stops_same_line: "stops_alike t t' \<Longrightarrow> same_line t t'"
  by (simp add: stops_alike_def same_line_def)

lemma ts_li_put_same: "same_line t t' \<Longrightarrow> ts_li (put cs t') = ts_li (put cs t)"
proof (induction cs)
  case (Cons c cs)
  then show ?case by (cases c) auto
qed (simp add: same_line_def)

text \<open>Before a place that is further on, two places begin alike whatever comes later.\<close>

lemma begins_alike_before:
  assumes "s = put cs t" "ts_size t < ts_size s" "ts_text s \<noteq> []" "same_line t t'"
  shows "begins_alike s (put cs t')"
proof -
  have "cs \<noteq> []" using assms(1,2) by auto
  then obtain c ds where cs: "cs = Some c # ds" using assms(1,3) by (cases cs; cases "hd cs") auto
  then show ?thesis using assms(1) ts_li_put_same [OF assms(4), of cs] by (simp add: begins_alike_def)
qed

lemma begins_alike_put_text: "begins_alike t t' \<Longrightarrow> ts_text (put cs t) \<noteq> [] \<Longrightarrow> begins_alike (put cs t) (put cs t')"
  using begins_alike_put [of t t' cs] by auto

lemma skip_one_reads:
  assumes "ts_peek s = c" "c \<noteq> CHR 0x00"
  shows "reads_only same_line (\<lambda>s' t. ts_skip 1 s' = t \<and> ts_peek s' = c) s (ts_skip 1 s)"
proof (rule reads_only_lineI [where c = "[c]"])
  show "ts_text s = [c] @ ts_text (ts_skip 1 s)"
    using assms ts_peek_nonempty [OF assms] by (cases "ts_text s") (auto simp: ts_peek_def ts_skip_def)
qed (auto simp: ts_skip_def ts_peek_def)

lemma bracket_reads:
  assumes f: "reads_only begins_alike f s t" and t: "ts_peek t = c" "c \<noteq> CHR 0x00"
    and h: "\<And>s' t'. f s' t' \<Longrightarrow> ts_peek t' = c \<Longrightarrow> h s' (ts_skip 1 t')"
  shows "reads_only same_line h s (ts_skip 1 t)"
proof (rule reads_only_trans [OF f skip_one_reads [OF t]])
  show "begins_alike t (put cs u')" if "t = put cs (ts_skip 1 t)" "same_line (ts_skip 1 t) u'" for cs u'
    using begins_alike_before [OF that(1) ts_skip_peek_size [OF t] ts_peek_nonempty [OF t] that(2)] .
qed (use h in auto)

text \<open>A key, its equals sign and the space before its value.\<close>

definition key_equals :: "string list \<Rightarrow> toml_scan \<Rightarrow> toml_scan \<Rightarrow> bool" where
  "key_equals ks s v \<longleftrightarrow>
     (\<exists>s1. toml_key s = Inr (ks, s1) \<and> ts_peek (skip_space s1) = CHR ''='' \<and> skip_space (ts_skip 1 (skip_space s1)) = v)"

text \<open>Where a value may begin.\<close>

definition value_place :: "toml_scan \<Rightarrow> toml_scan \<Rightarrow> bool" where
  "value_place v v' \<longleftrightarrow> ts_li v' = ts_li v \<and> ts_text v' \<noteq> [] \<and> \<not> blank (hd (ts_text v'))"

lemma skip_space_place: "reads_line value_place (\<lambda>s t. skip_space s = t) s (skip_space s)"
  unfolding reads_line_def
proof (intro exI [of _ "takeWhile blank (ts_text s)"] conjI allI impI)
  fix t' assume "value_place (skip_space s) t'"
  then have "dropWhile blank (takeWhile blank (ts_text s) @ ts_text t') = ts_text t'"
    by (intro dropWhile_takeWhile_alike) (simp add: value_place_def)
  then show "skip_space (t'\<lparr>ts_text := takeWhile blank (ts_text s) @ ts_text t'\<rparr>) = t'"
    by (simp add: skip_space_def)
qed (simp_all add: skip_space_def)

lemma key_equals_place:
  assumes key: "toml_key s = Inr (ks, s1)" and eq: "ts_peek (skip_space s1) = CHR ''=''"
    and v: "skip_space (ts_skip 1 (skip_space s1)) = v"
  shows "reads_line value_place (key_equals ks) s v"
proof -
  define b where "b = skip_space s1"
  have b: "ts_text b \<noteq> []" using ts_peek_nonempty [OF eq] by (simp add: b_def)
  have key_part: "reads_line begins_alike (\<lambda>s b. \<exists>a. toml_key s = Inr (ks, a) \<and> skip_space a = b) s b"
    by (rule reads_line_trans [OF toml_key_line [OF key skip_space_nonempty [OF b [unfolded b_def]]]
        skip_space_line [OF b_def [symmetric] b]]) (auto intro: begins_alike_line)
  have v': "skip_space (ts_skip 1 b) = v" using v by (simp add: b_def)
  have eq_part: "reads_line value_place (\<lambda>b v. ts_peek b = CHR ''='' \<and> skip_space (ts_skip 1 b) = v) b v"
  proof (rule reads_line_trans [OF skip_one_line [OF b] skip_space_place [of "ts_skip 1 b", unfolded v']])
    fix s' t' u'
    assume "ts_skip 1 s' = t' \<and> ts_text s' \<noteq> [] \<and> hd (ts_text s') = hd (ts_text b)" "skip_space t' = u'"
    with eq b show "ts_peek s' = CHR ''='' \<and> skip_space (ts_skip 1 s') = u'"
      by (auto simp: b_def [symmetric] ts_peek_def split: list.splits)
  qed (auto simp: value_place_def)
  have "ts_size v < ts_size b"
    by (rule le_less_trans [OF skip_space_size [of "ts_skip 1 b", unfolded v'] ts_skip_size [OF b]])
  moreover have "ts_rest v = ts_rest b" by (simp add: v' [symmetric] skip_space_def ts_skip_def)
  ultimately have shorter: "length (ts_text v) < length (ts_text b)" by (simp add: ts_size_def)
  show ?thesis
  proof (rule reads_line_trans [OF key_part eq_part])
    fix c and u' :: toml_scan assume c: "ts_text b = c @ ts_text v" "ts_li b = ts_li v" "value_place v u'"
    then have "c \<noteq> []" using shorter by auto
    with c show "begins_alike b (u'\<lparr>ts_text := c @ ts_text u'\<rparr>)"
      by (cases c) (auto simp: begins_alike_def value_place_def)
  qed (auto simp: key_equals_def)
qed

lemma reads_line_mono:
  assumes "reads_line R f s t" "\<And>t'. Q t t' \<Longrightarrow> R t t'"
  shows "reads_line Q f s t"
  using assms unfolding reads_line_def by blast

lemma key_equals_reads:
  assumes key: "toml_key s = Inr (ks, s1)" and eq: "ts_peek (skip_space s1) = CHR ''=''"
    and v: "skip_space (ts_skip 1 (skip_space s1)) = v" "ts_text v \<noteq> []"
  shows "reads_line begins_alike (key_equals ks) s v"
proof (rule reads_line_mono [OF key_equals_place [OF key eq v(1)]])
  have "\<not> blank (hd (ts_text v))"
    using v hd_dropWhile_not [of blank "ts_text (ts_skip 1 (skip_space s1))"]
    by (auto simp: skip_space_def simp del: dropWhile_eq_Nil_conv)
  then show "value_place v t'" if "begins_alike v t'" for t' using that by (simp add: value_place_def begins_alike_def)
qed

text \<open>What a value and a key begin with.\<close>

lemma toml_value_begins:
  assumes "toml_value n s = Inr t"
  shows "ts_text s \<noteq> []" "ts_peek s \<noteq> CHR '']''"
proof -
  obtain m where n: "n = Suc m" using assms by (cases n) (auto simp: ts_fail_def)
  show ne: "ts_text s \<noteq> []" using assms by (auto simp: n ts_end_def ts_fail_def)
  show "ts_peek s \<noteq> CHR '']''"
  proof
    assume c: "ts_peek s = CHR '']''"
    then obtain x where x: "ts_text s = CHR '']'' # x" using ne by (cases "ts_text s") (auto simp: ts_peek_def)
    then have "bare_stop (hd (ts_text s))" by (simp add: bare_stop_def)
    with assms c x show False
      by (auto simp: n ts_end_def ts_fail_def has_prefix_def dquote_def squote_def single_value_def split: if_splits)
  qed
qed

lemma toml_key_begins:
  assumes "toml_key s = Inr (ks, t)"
  shows "ts_peek (skip_space s) \<noteq> CHR ''}''"
proof
  assume c: "ts_peek (skip_space s) = CHR ''}''"
  then have "takeWhile bare_char (ts_text (skip_space s)) = []"
    by (auto simp: ts_peek_def bare_char_def is_digit_def is_upper_def is_lower_def byte_def split: list.splits)
  with c have "key_part (skip_space s) = ts_fail NoKey (skip_space s)"
    by (simp add: key_part_def dquote_def squote_def)
  with assms show False by (subst (asm) toml_key.simps) (simp add: ts_fail_def)
qed

lemma skip_space_idem [simp]: "skip_space (skip_space s) = skip_space s"
  by (simp add: skip_space_def)

lemma toml_key_skip_space [simp]: "toml_key (skip_space s) = toml_key s"
  by (subst (1 2) toml_key.simps) (simp only: skip_space_idem)

text \<open>A value no bracket begins, and a string over several lines.\<close>

lemma three_quotes_alike:
  assumes "has_prefix (c @ u') [q, q, q]" "q = dquote \<or> q = squote" "c \<noteq> []" "2 \<le> length c"
    and "u' = [] \<or> bare_stop (hd u') \<or> u \<noteq> [] \<and> hd u' = hd u"
  shows "has_prefix (c @ u) [q, q, q]"
proof -
  have no: "\<not> bare_stop q" using assms(2) by (auto simp: bare_stop_def blank_def dquote_def squote_def tab_def creturn_def)
  show ?thesis
  proof (cases "3 \<le> length c")
    case True
    with assms(1) show ?thesis by (simp add: has_prefix_def)
  next
    case False
    then have "length c = 2" using assms(4) by simp
    then obtain a b where c: "c = [a, b]" by (auto simp: length_Suc_conv numeral_2_eq_2)
    with assms(1) have "a = q" "b = q" "u' \<noteq> []" "hd u' = q" by (cases u'; auto simp: has_prefix_def)+
    with assms(5) no c show ?thesis by (cases u) (auto simp: has_prefix_def)
  qed
qed

lemma single_value_reads:
  assumes "toml_value (Suc n) s = single_value s" "single_value s = Inr t" "\<not> ts_end s"
    "\<not> has_prefix (ts_text s) [dquote, dquote, dquote]" "\<not> has_prefix (ts_text s) [squote, squote, squote]"
    "ts_peek s \<noteq> CHR ''[''" "ts_peek s \<noteq> CHR ''{''"
  shows "reads_only stops_alike (\<lambda>s t. toml_value (Suc n) s = Inr t) s t"
proof -
  obtain c where c: "c \<noteq> []" "ts_text s = c @ ts_text t" "t = s\<lparr>ts_text := ts_text t\<rparr>"
    "hd c = dquote \<or> hd c = squote \<longrightarrow> 2 \<le> length c"
    "\<And>t'. stops_alike t t' \<Longrightarrow> single_value (t'\<lparr>ts_text := c @ ts_text t'\<rparr>) = Inr t'"
    using single_value_part [OF assms(2)] by blast
  show ?thesis
  proof (rule reads_only_lineI)
    fix t' assume t': "stops_alike t t'"
    define s' where "s' = t'\<lparr>ts_text := c @ ts_text t'\<rparr>"
    have quotes: "\<not> has_prefix (ts_text s') [q, q, q]" if "q = dquote \<or> q = squote" for q
    proof
      assume p: "has_prefix (ts_text s') [q, q, q]"
      then have "hd c = q" using c(1) by (cases c) (auto simp: s'_def has_prefix_def)
      with that c(4) have "2 \<le> length c" by auto
      with p t' that c(1,2) have "has_prefix (ts_text s) [q, q, q]"
        using three_quotes_alike [of c "ts_text t'" q "ts_text t"] by (auto simp: s'_def stops_alike_def)
      with that assms(4,5) show False by auto
    qed
    have "ts_peek s' = ts_peek s" using c(1,2) by (cases c) (auto simp: s'_def ts_peek_def)
    moreover have "\<not> ts_end s'" using c(1) by (simp add: s'_def ts_end_def)
    moreover have "single_value s' = Inr t'" using c(5) [OF t'] by (simp add: s'_def)
    ultimately have "toml_value (Suc n) s' = Inr t'" using quotes assms(6,7) by simp
    then show "toml_value (Suc n) (t'\<lparr>ts_text := c @ ts_text t'\<rparr>) = Inr t'" by (simp add: s'_def)
  next
    show "ts_rest s = ts_rest t" "ts_li s = ts_li t"
      using c(3) by (metis toml_scan.select_convs(1,3) toml_scan.surjective toml_scan.update_convs(2))+
  qed (rule c(2))
qed

lemma multiline_string_reads:
  assumes "multiline_string q s = Inr t" "has_prefix (ts_text s) q" "q = [dquote, dquote, dquote] \<or> q = [squote, squote, squote]"
  shows "reads_only same_line (\<lambda>s t. toml_value (Suc n) s = Inr t) s t"
proof -
  have len: "length q = 3" using assms(3) by auto
  define s1 where "s1 = \<lparr>ts_li = ts_li s, ts_text = drop 3 (ts_text s), ts_rest = ts_rest s\<rparr>"
  have "reads_only (\<lambda>t t'. ts_li t' = ts_li t)
    (\<lambda>s t. multiline_from q (ts_li s) (ts_text s) (ts_rest s) = Inr t) s1 t"
    unfolding s1_def by (rule multiline_from_reads [OF len]) (use assms(1) in \<open>simp add: multiline_string_def\<close>)
  then obtain cs where cs: "s1 = put cs t" "ts_li t = ts_li s1 + line_ends cs"
    "\<And>t'. ts_li t' = ts_li t \<Longrightarrow>
      multiline_from q (ts_li (put cs t')) (ts_text (put cs t')) (ts_rest (put cs t')) = Inr t'"
    by (auto simp: reads_only_def)
  show ?thesis
  proof (rule reads_onlyI [where cs = "map Some q @ cs"])
    have "ts_text s = q @ drop 3 (ts_text s)"
      using assms(2) len unfolding has_prefix_def by (metis append_take_drop_id)
    then show "s = put (map Some q @ cs) t"
      by (simp add: put_some cs(1) [symmetric]) (simp add: s1_def)
    show "line_ends (map Some q @ cs) \<le> ts_li t" using cs(2) by simp
    fix t' assume "same_line t t'"
    with cs(3) [of t'] assms(3) len show "toml_value (Suc n) (put (map Some q @ cs) t') = Inr t'"
      by (auto simp: put_some same_line_def ts_end_def has_prefix_def multiline_string_def)
  qed
qed


lemma blank_bracket_reads:
  assumes "skip_blank s = (True, t)" "ts_peek t = c" "c \<noteq> CHR 0x00"
  shows "reads_only same_line (\<lambda>s u. \<exists>t. skip_blank s = (True, t) \<and> ts_peek t = c \<and> ts_skip 1 t = u) s (ts_skip 1 t)"
  by (rule bracket_reads [OF skip_blank_reads [OF assms(1)] assms(2,3)]) auto

lemma space_bracket_reads:
  assumes "ts_peek (skip_space s) = c" "c \<noteq> CHR 0x00"
  shows "reads_only same_line (\<lambda>s u. ts_peek (skip_space s) = c \<and> ts_skip 1 (skip_space s) = u) s (ts_skip 1 (skip_space s))"
  by (rule bracket_reads [OF skip_space_reads [OF refl ts_peek_nonempty [OF assms]] assms]) auto

text \<open>Before a place that is further on, what a value stops at is alike.\<close>

lemma stops_alike_before:
  assumes "s = put cs t" "ts_size t < ts_size s" "same_line t t'"
  shows "stops_alike s (put cs t')"
proof (cases "ts_text s = []")
  case True
  have "cs \<noteq> []" using assms(1,2) by auto
  with True assms(1) have "ts_text (put cs t') = []" by (cases cs; cases "hd cs") auto
  then show ?thesis using assms(1) ts_li_put_same [OF assms(3), of cs] by (simp add: stops_alike_def)
next
  case False
  then show ?thesis using begins_stops [OF begins_alike_before [OF assms(1,2) False assms(3)]] by simp
qed

lemma value_then_reads:
  assumes val: "reads_only stops_alike f s t" and further: "reads_only same_line g t u" "ts_size u < ts_size t"
    and h: "\<And>s' t' u'. f s' t' \<Longrightarrow> g t' u' \<Longrightarrow> h s' u'"
  shows "reads_only same_line h s u"
  by (rule reads_only_trans [OF val further(1) stops_alike_before]) (use h further(2) in auto)

text \<open>One value of an array or of an inline table, and what comes after it.\<close>

lemma value_within_reads:
  assumes f: "reads_only begins_alike f s s1" and val: "toml_value n s1 = Inr s2"
    and IH: "reads_only stops_alike (\<lambda>s t. toml_value n s = Inr t) s1 s2"
    and g: "reads_only same_line g s2 t" "ts_size t < ts_size s2"
  shows "reads_only same_line (\<lambda>s t. \<exists>s1 s2. f s s1 \<and> toml_value n s1 = Inr s2 \<and> g s2 t) s t"
proof -
  have rest: "reads_only same_line (\<lambda>s1 t. \<exists>s2. toml_value n s1 = Inr s2 \<and> g s2 t) s1 t"
    by (rule value_then_reads [OF IH g]) blast
  have less: "ts_size t < ts_size s1" using toml_value_size(1) [OF val] g(2) by simp
  show ?thesis
  proof (rule reads_only_trans [OF f rest])
    show "begins_alike s1 (put cs u')" if "s1 = put cs t" "same_line t u'" for cs u'
      by (rule begins_alike_before [OF that(1) less toml_value_begins(1) [OF val] that(2)])
  qed blast
qed

lemma same_line_put: "t = put cs u \<Longrightarrow> same_line u u' \<Longrightarrow> same_line t (put cs u')"
  using ts_li_put_same [of u u' cs] by (simp add: same_line_def)

lemma comma_reads:
  assumes "reads_only same_line f s t" "reads_only same_line g t u"
  shows "reads_only same_line (\<lambda>s u. \<exists>t. f s t \<and> g t u) s u"
proof (rule reads_only_trans [OF assms])
  show "same_line t (put cs u')" if "t = put cs u" "same_line u u'" for cs u' using that by (rule same_line_put)
qed blast

lemma toml_value_reads_fuel:
  "toml_value n s = Inr t \<Longrightarrow> reads_only stops_alike (\<lambda>s t. toml_value n s = Inr t) s t"
  "toml_array n s = Inr t \<Longrightarrow> reads_only same_line (\<lambda>s t. toml_array n s = Inr t) s t"
  "toml_inline n s = Inr t \<Longrightarrow> reads_only same_line (\<lambda>s t. toml_inline n s = Inr t) s t"
proof (induction n arbitrary: s t)
  case (Suc n)
  {
    case 1
    have ne: "\<not> ts_end s" using 1 by (auto simp: ts_fail_def)
    consider (dq) "has_prefix (ts_text s) [dquote, dquote, dquote]" | (sq) "has_prefix (ts_text s) [squote, squote, squote]"
      | (other) "\<not> has_prefix (ts_text s) [dquote, dquote, dquote]" "\<not> has_prefix (ts_text s) [squote, squote, squote]" by blast
    then show ?case
    proof cases
      case dq
      then have "take 3 (ts_text s) = [dquote, dquote, dquote]" by (simp add: has_prefix_def numeral_3_eq_3)
      with 1 ne dq have "multiline_string [dquote, dquote, dquote] s = Inr t" by simp
      from multiline_string_reads [OF this dq] show ?thesis by (rule reads_only_mono) (auto intro: stops_same_line)
    next
      case sq
      then have "take 3 (ts_text s) = [squote, squote, squote]" by (simp add: has_prefix_def numeral_3_eq_3)
      with 1 ne sq have "multiline_string [squote, squote, squote] s = Inr t" by simp
      from multiline_string_reads [OF this sq] show ?thesis by (rule reads_only_mono) (auto intro: stops_same_line)
    next
      case other
      show ?thesis
      proof (cases "ts_peek s = CHR ''['' \<or> ts_peek s = CHR ''{''")
        case False
        then show ?thesis using 1 ne other by (intro single_value_reads) auto
      next
        case True
        define c where "c = ts_peek s"
        define f where "f = (\<lambda>s t. (if c = CHR ''['' then toml_array n s else toml_inline n s) = Inr t)"
        have c: "ts_peek s = c" "c \<noteq> CHR 0x00" using True by (auto simp: c_def)
        have f: "f (ts_skip 1 s) t" using 1 ne other True by (auto simp: f_def c_def split: if_splits)
        then have body: "reads_only same_line f (ts_skip 1 s) t"
          using Suc.IH(2,3) [of "ts_skip 1 s" t] True by (auto simp: f_def c_def)
        have "reads_only stops_alike (\<lambda>s u. \<exists>t. (ts_skip 1 s = t \<and> ts_peek s = c) \<and> f t u) s t"
          by (rule reads_only_mono [OF comma_reads [OF skip_one_reads [OF c] body]]) (rule stops_same_line)
        then show ?thesis
        proof (rule reads_only_mono)
          fix s' t' assume "\<exists>t. (ts_skip 1 s' = t \<and> ts_peek s' = c) \<and> f t t'"
          moreover from this have "ts_text s' \<noteq> []" using ts_peek_nonempty c(2) by auto
          ultimately show "toml_value (Suc n) s' = Inr t'"
            using True by (cases "ts_text s'") (auto simp: f_def c_def ts_peek_def ts_end_def has_prefix_def dquote_def squote_def)
        qed
      qed
    qed
  next
    case 2
    then show ?case
    proof (cases rule: toml_array_cases)
      case (empty s1)
      show ?thesis unfolding empty(3)
        by (rule reads_only_mono [OF blank_bracket_reads [OF empty(1,2)]]) auto
    next
      case (further s1 s2 s3)
      have tail: "reads_only same_line (\<lambda>s u. \<exists>t. (\<exists>s3. skip_blank s = (True, s3) \<and> ts_peek s3 = CHR '','' \<and> ts_skip 1 s3 = t) \<and>
          toml_array n t = Inr u) s2 t"
        by (rule comma_reads [OF blank_bracket_reads [OF further(4,5)] Suc.IH(2) [OF further(6)]]) simp
      have "ts_size t < ts_size s2"
        using toml_value_size(2) [OF further(6)] ts_skip_peek_size [OF further(5)] skip_blank_size [OF further(4)] by simp
      note parts = value_within_reads [OF skip_blank_reads [OF further(1)] further(3) Suc.IH(1) [OF further(3)] tail this]
      show ?thesis
        by (rule reads_only_mono [OF parts]) (auto dest: toml_value_begins(2))
    next
      case (final s1 s2 s3)
      have "ts_size t < ts_size s2"
        using ts_skip_peek_size [OF final(5)] skip_blank_size [OF final(4)] final(6) by simp
      note parts = value_within_reads [OF skip_blank_reads [OF final(1)] final(3) Suc.IH(1) [OF final(3)]
        blank_bracket_reads [OF final(4,5)], folded final(6), OF _ this]
      show ?thesis
        by (rule reads_only_mono [OF parts]) (auto dest: toml_value_begins(2))
    qed
  next
    case 3
    define f where "f = (\<lambda>s v. \<exists>ks. key_equals ks (skip_space s) v)"
    have f: "reads_only begins_alike f s (skip_space (ts_skip 1 (skip_space s1)))"
      if "toml_key (skip_space s) = Inr (ks, s1)" "ts_peek (skip_space s1) = CHR ''=''"
        "toml_value n (skip_space (ts_skip 1 (skip_space s1))) = Inr s2" for ks s1 s2
    proof -
      have "reads_line begins_alike (key_equals ks) s (skip_space (ts_skip 1 (skip_space s1)))"
        using that(1) by (intro key_equals_reads [OF _ that(2) refl toml_value_begins(1) [OF that(3)]]) simp
      from reads_line_only [OF this] show ?thesis
        by (rule reads_only_mono) (auto simp: f_def key_equals_def)
    qed
    from 3 show ?case
    proof (cases rule: toml_inline_cases)
      case empty
      show ?thesis unfolding empty(2)
        by (rule reads_only_mono [OF space_bracket_reads [OF empty(1)]]) (auto simp: Let_def)
    next
      case (further ks s1 s2)
      have tail: "reads_only same_line (\<lambda>s u. \<exists>t. (ts_peek (skip_space s) = CHR '','' \<and> ts_skip 1 (skip_space s) = t) \<and>
          toml_inline n t = Inr u) s2 t"
        by (rule comma_reads [OF space_bracket_reads [OF further(5)] Suc.IH(3) [OF further(6)]]) simp
      have "ts_size t < ts_size s2"
        using toml_value_size(3) [OF further(6)] ts_skip_peek_size [OF further(5)] skip_space_size [of s2] by simp
      note parts = value_within_reads [OF f [OF further(2,3,4)] further(4) Suc.IH(1) [OF further(4)] tail this]
      show ?thesis
        by (rule reads_only_mono [OF parts])
           (auto simp: f_def key_equals_def Let_def dest: toml_key_begins)
    next
      case (final ks s1 s2)
      have "ts_size t < ts_size s2"
        using ts_skip_peek_size [OF final(5)] skip_space_size [of s2] final(6) by simp
      note parts = value_within_reads [OF f [OF final(2,3,4)] final(4) Suc.IH(1) [OF final(4)]
        space_bracket_reads [OF final(5)], folded final(6), OF _ this]
      show ?thesis
        by (rule reads_only_mono [OF parts])
           (auto simp: f_def key_equals_def Let_def dest: toml_key_begins)
    qed
  }
qed (simp_all add: ts_fail_def)


lemma toml_value_reads:
  assumes "scan_toml s = Inr t"
  shows "reads_only stops_alike (\<lambda>s t. scan_toml s = Inr t) s t"
proof -
  have "reads_only stops_alike (\<lambda>u t. toml_value (2 * ts_size s + 1) u = Inr t) s t"
    by (rule toml_value_reads_fuel(1)) (use assms in \<open>simp only: scan_toml_def\<close>)
  then show ?thesis
  proof (rule reads_only_mono)
    fix u t' assume "toml_value (2 * ts_size s + 1) u = Inr t'"
    then show "scan_toml u = Inr t'" using scan_toml_eq [of "2 * ts_size s + 1" u] by (simp del: toml_value.simps)
  qed
qed

lemma scan_toml_begins:
  assumes "scan_toml s = Inr t"
  shows "ts_text s \<noteq> []" "\<not> bare_stop (hd (ts_text s))"
proof -
  have val: "toml_value (Suc (2 * ts_size s)) s = Inr t" using assms by (simp add: scan_toml_def)
  then show ne: "ts_text s \<noteq> []" by (rule toml_value_begins(1))
  show "\<not> bare_stop (hd (ts_text s))"
  proof
    assume stop: "bare_stop (hd (ts_text s))"
    obtain c x where c: "ts_text s = c # x" using ne by (cases "ts_text s") auto
    with stop have "c \<noteq> dquote" "c \<noteq> squote" "c \<noteq> CHR ''[''" "c \<noteq> CHR ''{''"
      by (auto simp: bare_stop_def blank_def dquote_def squote_def tab_def creturn_def)
    with val c stop show False
      by (simp add: ts_end_def has_prefix_def ts_peek_def single_value_def ts_fail_def)
  qed
qed

lemma scan_toml_size: "scan_toml s = Inr t \<Longrightarrow> ts_size t < ts_size s"
  unfolding scan_toml_def by (rule toml_value_size(1))

end
