(* ===== verification/TomlEdit.thy ===== *)
theory TomlEdit
  imports TomlValues
begin

text \<open>
  Setting a key of the config file that is there changes that key's value and nothing else: the
  new text parses, and as a map from table and key to value text it is the old one updated
  (\<open>set_refines_update\<close>).
\<close>

subsection \<open>A reading and the lines below it\<close>

lemma put_rest:
  "put cs (t\<lparr>ts_rest := r\<rparr>) = (put cs t)\<lparr>ts_rest := take (line_ends cs) (ts_rest (put cs t)) @ r\<rparr>"
proof (induction cs)
  case (Cons c cs)
  then show ?case by (cases c) auto
qed simp

lemma put_lines:
  "length (ts_rest (put cs t)) = line_ends cs + length (ts_rest t)"
  "drop (line_ends cs) (ts_rest (put cs t)) = ts_rest t"
proof (induction cs)
  case (Cons c cs)
  {
    case 1
    with Cons.IH(1) show ?case by (cases c) auto
  next
    case 2
    with Cons.IH(2) show ?case by (cases c) auto
  }
qed simp_all

lemma put_last_line:
  "\<exists>c. (ts_text (put cs t) # ts_rest (put cs t)) ! line_ends cs = c @ ts_text t"
proof (induction cs)
  case (Cons c cs)
  then obtain x where x: "(ts_text (put cs t) # ts_rest (put cs t)) ! line_ends cs = x @ ts_text t" by blast
  show ?case
  proof (cases c)
    case None
    with x show ?thesis by simp
  next
    case (Some a)
    with x show ?thesis by (cases "line_ends cs") (auto intro: exI [of _ "a # x"])
  qed
qed simp

text \<open>What an entry is read as.\<close>

definition line_over :: "toml_scan \<Rightarrow> bool" where
  "line_over u \<longleftrightarrow> (let t = dropWhile blank (ts_text u) in t = [] \<or> hd t = CHR ''#'')"

lemma end_of_line_iff: "(\<exists>w. end_of_line u = Inr w) \<longleftrightarrow> line_over u"
  by (auto simp: end_of_line_def line_over_def ts_end_def ts_peek_def skip_space_def ts_fail_def Let_def split: list.splits)

lemma line_over_stops: "line_over u \<Longrightarrow> ts_text u = [] \<or> bare_stop (hd (ts_text u))"
  by (cases "ts_text u") (auto simp: line_over_def bare_stop_def Let_def split: if_splits)

lemma read_entry_iff:
  "read_entry s = Inr (ks, v, u) \<longleftrightarrow> key_equals ks s v \<and> scan_toml v = Inr u \<and> line_over u"
proof (cases "toml_key s")
  case (Inl e)
  then show ?thesis by (simp add: read_entry_def key_equals_def)
next
  case (Inr x)
  obtain parts s1 where x: "x = (parts, s1)" by force
  show ?thesis
  proof (cases "ts_peek (skip_space s1) = CHR ''=''")
    case False
    then show ?thesis using Inr x by (auto simp: read_entry_def key_equals_def Let_def ts_fail_def)
  next
    case True
    then have ne: "\<not> ts_end (skip_space s1)" by (auto simp: ts_end_def ts_peek_def)
    define w where "w = skip_space (ts_skip 1 (skip_space s1))"
    have "read_entry s = (case scan_toml w of Inl e \<Rightarrow> Inl e
        | Inr u \<Rightarrow> (case end_of_line u of Inl e \<Rightarrow> Inl e | Inr _ \<Rightarrow> Inr (parts, w, u)))"
      using Inr x True ne unfolding w_def by (simp add: read_entry_def Let_def del: One_nat_def)
    moreover have "key_equals ks s v \<longleftrightarrow> ks = parts \<and> v = w"
      using Inr x True by (auto simp: key_equals_def w_def)
    ultimately show ?thesis
      unfolding end_of_line_iff [symmetric] by (auto split: sum.splits)
  qed
qed

lemma key_equals_line: "key_equals ks s v \<Longrightarrow> reads_line value_place (key_equals ks) s v"
  using key_equals_place unfolding key_equals_def by blast

lemma key_equals_shorter:
  assumes "key_equals ks s v"
  shows "length (ts_text v) < length (ts_text s)"
proof -
  obtain s1 where s1: "toml_key s = Inr (ks, s1)" "ts_peek (skip_space s1) = CHR ''=''"
    "skip_space (ts_skip 1 (skip_space s1)) = v" using assms by (auto simp: key_equals_def)
  have "ts_size v \<le> ts_size s1"
    using skip_space_size [of "ts_skip 1 (skip_space s1)", unfolded s1(3)] ts_skip_peek_size [OF s1(2)]
      skip_space_size [of s1] by (simp del: One_nat_def)
  then have "ts_size v < ts_size s" using toml_key_size [OF s1(1)] by simp
  moreover have "ts_rest v = ts_rest s" using key_equals_line [OF assms] by (auto simp: reads_line_def)
  ultimately show ?thesis by (simp add: ts_size_def)
qed

text \<open>An entry is read over some of the lines below it and says nothing of the rest.\<close>

lemma read_entry_rest:
  assumes "read_entry s = Inr (ks, v, u)" "ts_li s = 0"
  shows "ts_li v = 0" "ts_rest v = ts_rest s" "ts_li u \<le> length (ts_rest s)" "ts_rest u = drop (ts_li u) (ts_rest s)"
    "\<exists>c. c \<noteq> [] \<and> ts_text s = c @ ts_text v" "\<exists>c. (ts_text v # ts_rest s) ! ts_li u = c @ ts_text u"
    "read_entry (s\<lparr>ts_rest := take (ts_li u) (ts_rest s) @ r\<rparr>) =
       Inr (ks, v\<lparr>ts_rest := take (ts_li u) (ts_rest s) @ r\<rparr>, u\<lparr>ts_rest := r\<rparr>)"
proof -
  have key: "key_equals ks s v" and val: "scan_toml v = Inr u" and over: "line_over u"
    using assms(1) by (auto simp: read_entry_iff)
  obtain c where c: "ts_text s = c @ ts_text v" "ts_rest s = ts_rest v" "ts_li s = ts_li v"
    "\<And>v'. value_place v v' \<Longrightarrow> key_equals ks (v'\<lparr>ts_text := c @ ts_text v'\<rparr>) v'"
    using key_equals_line [OF key] by (auto simp: reads_line_def)
  obtain cs where cs: "v = put cs u" "ts_li u = ts_li v + line_ends cs"
    "\<And>u'. stops_alike u u' \<Longrightarrow> scan_toml (put cs u') = Inr u'"
    using toml_value_reads [OF val] by (auto simp: reads_only_def)
  have li: "ts_li u = line_ends cs" using cs(2) c(3) assms(2) by simp
  show "ts_li v = 0" "ts_rest v = ts_rest s" using c assms(2) by simp_all
  show "ts_li u \<le> length (ts_rest s)" "ts_rest u = drop (ts_li u) (ts_rest s)"
    using put_lines [of cs u] by (simp_all add: li c(2) cs(1) [symmetric])
  show "\<exists>c. c \<noteq> [] \<and> ts_text s = c @ ts_text v"
    using c(1) key_equals_shorter [OF key] by (cases c) auto
  show "\<exists>c. (ts_text v # ts_rest s) ! ts_li u = c @ ts_text u"
    using put_last_line [of cs u] by (simp add: li c(2) cs(1) [symmetric])
  define u' where "u' = u\<lparr>ts_rest := r\<rparr>"
  define v' where "v' = v\<lparr>ts_rest := take (ts_li u) (ts_rest s) @ r\<rparr>"
  have v': "v' = put cs u'" unfolding u'_def v'_def put_rest cs(1) [symmetric] li c(2) ..
  have "stops_alike u u'" by (cases "ts_text u = []") (simp_all add: stops_alike_def u'_def)
  then have "scan_toml v' = Inr u'" unfolding v' by (rule cs(3))
  moreover have "value_place v v'"
    using scan_toml_begins [OF val] by (auto simp: value_place_def v'_def bare_stop_def)
  then have "key_equals ks (v'\<lparr>ts_text := c @ ts_text v'\<rparr>) v'" by (rule c(4))
  moreover have "v'\<lparr>ts_text := c @ ts_text v'\<rparr> = s\<lparr>ts_rest := take (ts_li u) (ts_rest s) @ r\<rparr>"
    using c by (cases s) (auto simp: v'_def)
  moreover have "line_over u'" using over by (simp add: line_over_def u'_def)
  ultimately show "read_entry (s\<lparr>ts_rest := take (ts_li u) (ts_rest s) @ r\<rparr>) =
       Inr (ks, v\<lparr>ts_rest := take (ts_li u) (ts_rest s) @ r\<rparr>, u\<lparr>ts_rest := r\<rparr>)"
    by (simp add: read_entry_iff v'_def u'_def)
qed

text \<open>The text of a value that is on one line.\<close>

definition value_literal :: "string \<Rightarrow> bool" where
  "value_literal lit \<longleftrightarrow>
     CHR 0x0A \<notin> set lit \<and>
     scan_toml \<lparr>ts_li = 0, ts_text = lit, ts_rest = []\<rparr> = Inr \<lparr>ts_li = 0, ts_text = [], ts_rest = []\<rparr>"

lemma value_literal_reads:
  assumes "value_literal lit" "ts_li u = 0" "ts_text u = [] \<or> bare_stop (hd (ts_text u))"
  shows "scan_toml (u\<lparr>ts_text := lit @ ts_text u\<rparr>) = Inr u"
proof -
  define e where "e = \<lparr>ts_li = 0, ts_text = [], ts_rest = []\<rparr>"
  have "scan_toml \<lparr>ts_li = 0, ts_text = lit, ts_rest = []\<rparr> = Inr e"
    using assms(1) by (simp add: value_literal_def e_def)
  then obtain cs where cs: "\<lparr>ts_li = 0, ts_text = lit, ts_rest = []\<rparr> = put cs e" "ts_li e = line_ends cs"
    "\<And>t'. stops_alike e t' \<Longrightarrow> scan_toml (put cs t') = Inr t'"
    using toml_value_reads by (fastforce simp: reads_only_def)
  have "None \<notin> set cs" using cs(2) by (auto simp: e_def line_ends_def filter_empty_conv)
  then have "cs = map Some (map the cs)" by (induction cs) auto
  then obtain c where c: "cs = map Some c" by blast
  with cs(1) have "c = lit" by (simp add: put_some e_def)
  moreover have "stops_alike e u" using assms(2,3) by (simp add: stops_alike_def e_def)
  ultimately show ?thesis using cs(3) [of u] c by (simp add: put_some)
qed

text \<open>An entry with its value replaced.\<close>

lemma read_entry_replaced:
  assumes "read_entry s = Inr (ks, v, u)" "ts_li s = 0" "ts_text s = c @ ts_text v" "value_literal lit"
  shows "read_entry \<lparr>ts_li = 0, ts_text = c @ lit @ ts_text u, ts_rest = r\<rparr> =
    Inr (ks, \<lparr>ts_li = 0, ts_text = lit @ ts_text u, ts_rest = r\<rparr>, \<lparr>ts_li = 0, ts_text = ts_text u, ts_rest = r\<rparr>)"
proof -
  have key: "key_equals ks s v" and over: "line_over u" using assms(1) by (auto simp: read_entry_iff)
  define u' where "u' = \<lparr>ts_li = 0, ts_text = ts_text u, ts_rest = r\<rparr>"
  define v' where "v' = u'\<lparr>ts_text := lit @ ts_text u'\<rparr>"
  have val: "scan_toml v' = Inr u'" unfolding v'_def
    by (rule value_literal_reads [OF assms(4)]) (use line_over_stops [OF over] in \<open>simp_all add: u'_def\<close>)
  have "value_place v v'"
    using scan_toml_begins [OF val] read_entry_rest(1) [OF assms(1,2)]
    by (auto simp: value_place_def v'_def u'_def bare_stop_def)
  then have "key_equals ks (v'\<lparr>ts_text := c @ ts_text v'\<rparr>) v'"
    using key_equals_line [OF key] assms(3) by (auto simp: reads_line_def)
  moreover have "line_over u'" using over by (simp add: line_over_def u'_def)
  ultimately show ?thesis using val by (simp add: read_entry_iff v'_def u'_def)
qed


subsection \<open>A header and the lines below it\<close>

lemma key_part_rest:
  "key_part (s\<lparr>ts_rest := r\<rparr>) = map_sum id (\<lambda>(p, t). (p, t\<lparr>ts_rest := r\<rparr>)) (key_part s)"
  by (auto simp: key_part_def ts_fail_def ts_peek_def ts_skip_def Let_def split: option.splits)

lemma skip_rest [simp]:
  "skip_space (s\<lparr>ts_rest := r\<rparr>) = (skip_space s)\<lparr>ts_rest := r\<rparr>" "ts_skip n (s\<lparr>ts_rest := r\<rparr>) = (ts_skip n s)\<lparr>ts_rest := r\<rparr>"
  "ts_peek (s\<lparr>ts_rest := r\<rparr>) = ts_peek s"
  by (simp_all add: skip_space_def ts_skip_def ts_peek_def)

lemma toml_key_rest:
  "toml_key (s\<lparr>ts_rest := r\<rparr>) = map_sum id (\<lambda>(p, t). (p, t\<lparr>ts_rest := r\<rparr>)) (toml_key s)"
proof (induction s rule: toml_key.induct)
  case (1 s)
  show ?case
  proof (cases "key_part (skip_space s)")
    case (Inl e)
    then show ?thesis by (subst (1 2) toml_key.simps) (simp add: key_part_rest)
  next
    case (Inr x)
    obtain part a where x: "x = (part, a)" by force
    have ih: "toml_key ((ts_skip 1 (skip_space a))\<lparr>ts_rest := r\<rparr>) =
        map_sum id (\<lambda>(p, t). (p, t\<lparr>ts_rest := r\<rparr>)) (toml_key (ts_skip 1 (skip_space a)))"
      if "ts_peek (skip_space a) = CHR ''.''"
      using "1.IH" [OF Inr x [symmetric] refl] that by (simp add: id_def)
    show ?thesis
      by (subst (1 2) toml_key.simps)
         (auto simp: key_part_rest Inr x Let_def ih simp del: One_nat_def split: sum.splits)
  qed
qed

lemma end_of_line_ok: "(\<exists>w. end_of_line (s\<lparr>ts_rest := r\<rparr>) = Inr w) \<longleftrightarrow> (\<exists>w. end_of_line s = Inr w)"
  by (simp add: end_of_line_iff line_over_def)

lemma read_header_rest: "read_header s = Inr x \<Longrightarrow> read_header (s\<lparr>ts_rest := r\<rparr>) = Inr x"
proof -
  have eol: "\<exists>w'. end_of_line (u\<lparr>ts_rest := r\<rparr>) = Inr w'" if "end_of_line u = Inr w" for u w
    using that end_of_line_ok by blast
  assume "read_header s = Inr x"
  then show "read_header (s\<lparr>ts_rest := r\<rparr>) = Inr x"
    by (auto simp: read_header_def Let_def toml_key_rest ts_fail_def simp del: One_nat_def
        split: sum.splits prod.splits if_splits dest: eol)
qed


subsection \<open>The statements of the file\<close>

abbreviation line_start :: "string \<Rightarrow> string list \<Rightarrow> toml_scan" where
  "line_start line rest \<equiv> skip_space \<lparr>ts_li = 0, ts_text = line, ts_rest = rest\<rparr>"

abbreviation header_stmt :: "string \<Rightarrow> bool \<Rightarrow> nat \<Rightarrow> toml_stmt" where
  "header_stmt table is_array li \<equiv> \<lparr>st_table = table, st_key = [], st_header = True, st_array = is_array,
     st_first = li, st_last = li, st_value_col = 0, st_end_col = 0\<rparr>"

abbreviation entry_stmt :: "string \<Rightarrow> string \<Rightarrow> nat \<Rightarrow> nat \<Rightarrow> nat \<Rightarrow> nat \<Rightarrow> toml_stmt" where
  "entry_stmt table key li lj v e \<equiv> \<lparr>st_table = table, st_key = key, st_header = False, st_array = False,
     st_first = li, st_last = lj, st_value_col = v, st_end_col = e\<rparr>"

abbreviation keys_after :: "string \<Rightarrow> string \<Rightarrow> string list \<Rightarrow> string list" where
  "keys_after table key keys \<equiv> (if in_array table then keys else key_id table key # keys)"

definition blank_start :: "toml_scan \<Rightarrow> bool" where
  "blank_start s \<longleftrightarrow> ts_end s \<or> ts_peek s = CHR ''#''"

lemma parse_blank:
  "blank_start (line_start line rest) \<Longrightarrow>
     parse_lines li (line # rest) table tables keys = parse_lines (li + 1) rest table tables keys"
  by (subst parse_lines.simps) (simp add: blank_start_def Let_def)

lemma parse_header:
  assumes "\<not> blank_start (line_start line rest)" "ts_peek (line_start line rest) = CHR ''[''"
    "read_header (line_start line rest) = Inr (parts, is_array)" "header_error tables keys parts is_array = None"
  shows "parse_lines li (line # rest) table tables keys =
    map_sum id (\<lambda>sts. header_stmt (table_name parts is_array) is_array li # sts)
      (parse_lines (li + 1) rest (table_name parts is_array) (table_name parts is_array # tables) keys)"
  using assms by (subst parse_lines.simps) (simp add: blank_start_def Let_def split: sum.splits)

lemma parse_entry:
  assumes "\<not> blank_start (line_start line rest)" "ts_peek (line_start line rest) \<noteq> CHR ''[''"
    "read_entry (line_start line rest) = Inr (parts, v, u)" "\<not> key_twice tables keys table (join ''.'' parts)"
  shows "parse_lines li (line # rest) table tables keys =
    map_sum id (\<lambda>sts. entry_stmt table (join ''.'' parts) li (li + ts_li u) (length line - length (ts_text v))
        (length ((line # rest) ! ts_li u) - length (ts_text u)) # sts)
      (parse_lines (li + ts_li u + 1) (drop (ts_li u) rest) table tables (keys_after table (join ''.'' parts) keys))"
  using assms by (subst parse_lines.simps) (simp add: blank_start_def Let_def split: sum.splits)

lemma parse_cases:
  assumes "parse_lines li (line # rest) table tables keys = Inr sts"
  obtains (blank) "blank_start (line_start line rest)" "parse_lines (li + 1) rest table tables keys = Inr sts"
  | (header) parts is_array sts' where
      "\<not> blank_start (line_start line rest)" "ts_peek (line_start line rest) = CHR ''[''"
      "read_header (line_start line rest) = Inr (parts, is_array)" "header_error tables keys parts is_array = None"
      "parse_lines (li + 1) rest (table_name parts is_array) (table_name parts is_array # tables) keys = Inr sts'"
      "sts = header_stmt (table_name parts is_array) is_array li # sts'"
  | (entry) parts v u sts' where
      "\<not> blank_start (line_start line rest)" "ts_peek (line_start line rest) \<noteq> CHR ''[''"
      "read_entry (line_start line rest) = Inr (parts, v, u)" "\<not> key_twice tables keys table (join ''.'' parts)"
      "parse_lines (li + ts_li u + 1) (drop (ts_li u) rest) table tables (keys_after table (join ''.'' parts) keys) = Inr sts'"
      "sts = entry_stmt table (join ''.'' parts) li (li + ts_li u) (length line - length (ts_text v))
        (length ((line # rest) ! ts_li u) - length (ts_text u)) # sts'"
proof (cases "blank_start (line_start line rest)")
  case True
  with assms blank show ?thesis by (simp add: parse_blank)
next
  case nb: False
  show ?thesis
  proof (cases "ts_peek (line_start line rest) = CHR ''[''")
    case True
    with nb assms obtain parts is_array where "read_header (line_start line rest) = Inr (parts, is_array)"
      "header_error tables keys parts is_array = None"
      by (subst (asm) parse_lines.simps) (auto simp: blank_start_def Let_def split: sum.splits option.splits)
    with nb True assms header show ?thesis
      by (simp add: parse_header) (auto simp: map_sum_def split: sum.splits)
  next
    case False
    with nb assms obtain parts v u where "read_entry (line_start line rest) = Inr (parts, v, u)"
      "\<not> key_twice tables keys table (join ''.'' parts)"
      by (subst (asm) parse_lines.simps) (auto simp: blank_start_def Let_def split: sum.splits if_splits)
    with nb False assms entry show ?thesis
      by (simp add: parse_entry) (auto simp: map_sum_def split: sum.splits)
  qed
qed

text \<open>They come in the order of their lines.\<close>

lemma parse_in_order:
  "parse_lines li ls table tables keys = Inr sts \<Longrightarrow>
     sorted_wrt (\<lambda>a b. st_last a < st_first b) sts \<and>
     (\<forall>st \<in> set sts. li \<le> st_first st \<and> st_first st \<le> st_last st \<and> st_last st < li + length ls \<and>
       (st_first st = st_last st \<longrightarrow> st_value_col st \<le> st_end_col st))"
proof (induction "length ls" arbitrary: li ls table tables keys sts rule: less_induct)
  case less
  show ?case
  proof (cases ls)
    case Nil
    with less.prems show ?thesis by (simp add: parse_lines.simps(1))
  next
    case (Cons line rest)
    have ih: "sorted_wrt (\<lambda>a b. st_last a < st_first b) sts' \<and>
       (\<forall>st \<in> set sts'. li' \<le> st_first st \<and> st_first st \<le> st_last st \<and> st_last st < li' + length ls' \<and>
         (st_first st = st_last st \<longrightarrow> st_value_col st \<le> st_end_col st))"
      if "parse_lines li' ls' table' tables' keys' = Inr sts'" "length ls' \<le> length rest"
      for li' ls' table' tables' keys' sts'
      using less.hyps [OF _ that(1)] that(2) Cons by simp
    from less.prems [unfolded Cons] show ?thesis
    proof (cases rule: parse_cases)
      case blank
      with ih [OF blank(2)] show ?thesis by (fastforce simp: Cons)
    next
      case (header parts is_array sts')
      with ih [OF header(5)] show ?thesis by (fastforce simp: Cons)
    next
      case (entry parts v u sts')
      have "ts_li u \<le> length rest"
        using read_entry_rest(3) [OF entry(3)] by (simp add: skip_space_def)
      moreover have "length (ts_text u) \<le> length (ts_text v)" if "ts_li u = 0"
        using read_entry_rest(6) [OF entry(3)] that by (auto simp: skip_space_def)
      ultimately show ?thesis using ih [OF entry(5)] entry(6) by (fastforce simp: Cons)
    qed
  qed
qed


text \<open>The same lines begun at another number.\<close>

definition move_stmt :: "nat \<Rightarrow> nat \<Rightarrow> toml_stmt \<Rightarrow> toml_stmt" where
  "move_stmt li lj st = st\<lparr>st_first := lj + (st_first st - li), st_last := lj + (st_last st - li)\<rparr>"

lemma move_stmt_further:
  "li + n \<le> st_first st \<Longrightarrow> st_first st \<le> st_last st \<Longrightarrow> move_stmt (li + n) (lj + n) st = move_stmt li lj st"
  by (simp add: move_stmt_def)

lemma parse_moved:
  "parse_lines li ls table tables keys = Inr sts \<Longrightarrow>
     parse_lines lj ls table tables keys = Inr (map (move_stmt li lj) sts)"
proof (induction "length ls" arbitrary: li lj ls table tables keys sts rule: less_induct)
  case less
  show ?case
  proof (cases ls)
    case Nil
    with less.prems show ?thesis by (simp add: parse_lines.simps(1))
  next
    case (Cons line rest)
    have ih: "parse_lines (lj + n) ls' table' tables' keys' = Inr (map (move_stmt li lj) sts')"
      if "parse_lines (li + n) ls' table' tables' keys' = Inr sts'" "length ls' \<le> length rest"
      for n ls' table' tables' keys' sts'
      using less.hyps [OF _ that(1), of "lj + n"] that(2) Cons parse_in_order [OF that(1)]
      by (auto simp: move_stmt_further cong: map_cong)
    from less.prems [unfolded Cons] show ?thesis
    proof (cases rule: parse_cases)
      case blank
      with ih [OF blank(2)] show ?thesis by (simp add: Cons parse_blank)
    next
      case (header parts is_array sts')
      with ih [OF header(5)] show ?thesis by (simp add: Cons parse_header move_stmt_def)
    next
      case (entry parts v u sts')
      note rest = ih [of "ts_li u + 1", simplified, OF entry(5) [simplified]]
      with entry show ?thesis by (simp add: Cons parse_entry move_stmt_def)
    qed
  qed
qed

subsection \<open>A value replaced\<close>

definition set_lines :: "nat \<Rightarrow> nat \<Rightarrow> toml_stmt \<Rightarrow> string \<Rightarrow> string list \<Rightarrow> string list" where
  "set_lines a b st lit ls =
     take a ls @ (take (st_value_col st) (ls ! a) @ lit @ drop (st_end_col st) (ls ! b)) # drop (b + 1) ls"

definition set_stmt :: "string \<Rightarrow> toml_stmt \<Rightarrow> toml_stmt" where
  "set_stmt lit st = st\<lparr>st_last := st_first st, st_end_col := st_value_col st + length lit\<rparr>"

lemma set_lines_further:
  assumes "n \<le> a" "a \<le> b" "n \<le> length ls"
  shows "set_lines a b st lit ls = take n ls @ set_lines (a - n) (b - n) st lit (drop n ls)"
proof -
  obtain a' b' where "a = n + a'" "b = n + b'" using assms by (metis le_iff_add order_trans)
  with assms(3) show ?thesis by (simp add: set_lines_def take_add) (simp add: add.commute)
qed

lemma line_start_text: "ts_text (line_start line rest) = dropWhile blank line" "ts_rest (line_start line rest) = rest"
  "ts_li (line_start line rest) = 0"
  by (simp_all add: skip_space_def)

lemma line_start_rest: "line_start line rest' = (line_start line rest)\<lparr>ts_rest := rest'\<rparr>"
  by (simp add: skip_space_def)

lemma line_start_peek: "ts_peek (line_start line rest') = ts_peek (line_start line rest)"
  by (simp add: skip_space_def ts_peek_def)

lemma blank_start_rest: "blank_start (line_start line rest') = blank_start (line_start line rest)"
  by (simp add: skip_space_def blank_start_def ts_end_def ts_peek_def)

text \<open>The entry at hand, its value replaced.\<close>

lemma parse_entry_set:
  assumes "\<not> blank_start (line_start line rest)" "ts_peek (line_start line rest) \<noteq> CHR ''[''"
    "read_entry (line_start line rest) = Inr (parts, v, u)" "\<not> key_twice tables keys table (join ''.'' parts)"
    "value_literal lit"
    and st: "st = entry_stmt table (join ''.'' parts) li (li + ts_li u) (length line - length (ts_text v))
      (length ((line # rest) ! ts_li u) - length (ts_text u))"
  shows "parse_lines li (set_lines 0 (ts_li u) st lit (line # rest)) table tables keys =
    map_sum id (\<lambda>sts. set_stmt lit st # sts)
      (parse_lines (li + 1) (drop (ts_li u) rest) table tables (keys_after table (join ''.'' parts) keys))"
    "st_value_col st \<le> length line"
proof -
  define s where "s = line_start line rest"
  define w where "w = takeWhile blank line"
  have s: "ts_li s = 0" "line = w @ ts_text s" "ts_rest s = rest" by (simp_all add: s_def w_def line_start_text)
  note entry = read_entry_rest [OF assms(3) [folded s_def] s(1)]
  obtain c where c: "c \<noteq> []" "ts_text s = c @ ts_text v" using entry(5) by blast
  obtain d where d: "(ts_text v # ts_rest s) ! ts_li u = d @ ts_text u" using entry(6) by blast
  have "\<exists>d. (line # rest) ! ts_li u = d @ ts_text u"
    using d s(2,3) c(2) by (cases "ts_li u") auto
  then have final: "drop (st_end_col st) ((line # rest) ! ts_li u) = ts_text u" by (auto simp: st)
  have col: "st_value_col st = length (w @ c)" using s(2) c(2) by (simp add: st)
  then have first: "take (st_value_col st) line = w @ c" using s(2) c(2) by simp
  show "st_value_col st \<le> length line" by (simp add: st)
  define rest' where "rest' = drop (ts_li u) rest"
  define line' where "line' = w @ c @ lit @ ts_text u"
  have lines: "set_lines 0 (ts_li u) st lit (line # rest) = line' # rest'"
    using final first by (simp add: set_lines_def line'_def rest'_def)
  have hd: "\<not> blank (hd c)"
    using hd_dropWhile_not [of blank line] c(1) c(2) [unfolded s_def line_start_text(1)]
    by (simp del: dropWhile_eq_Nil_conv)
  have same: "ts_text (line_start line' rest') = c @ lit @ ts_text u"
    using hd c(1) dropWhile_takeWhile_alike [of "c @ lit @ ts_text u" blank line]
    by (simp add: line_start_text line'_def w_def)
  then have start: "line_start line' rest' = \<lparr>ts_li = 0, ts_text = c @ lit @ ts_text u, ts_rest = rest'\<rparr>"
    by (intro toml_scan.equality) (simp_all add: line_start_text)
  have peek: "ts_peek (line_start line' rest') = ts_peek s"
    using c by (cases c) (simp_all add: start ts_peek_def)
  have "\<not> blank_start (line_start line' rest')"
    using assms(1) c(1) peek unfolding s_def [symmetric] blank_start_def
    by (simp add: ts_end_def start)
  moreover have "read_entry (line_start line' rest') = Inr (parts, \<lparr>ts_li = 0, ts_text = lit @ ts_text u, ts_rest = rest'\<rparr>,
      \<lparr>ts_li = 0, ts_text = ts_text u, ts_rest = rest'\<rparr>)"
    unfolding start by (rule read_entry_replaced [OF assms(3) [folded s_def] s(1) c(2) assms(5)])
  moreover have "ts_peek (line_start line' rest') \<noteq> CHR ''[''" using assms(2) peek by (simp add: s_def)
  moreover have "set_stmt lit st = entry_stmt table (join ''.'' parts) li li (length line' - length (lit @ ts_text u))
      (length line' - length (ts_text u))"
    using col by (simp add: set_stmt_def line'_def) (simp add: st)
  ultimately show "parse_lines li (set_lines 0 (ts_li u) st lit (line # rest)) table tables keys =
    map_sum id (\<lambda>sts. set_stmt lit st # sts)
      (parse_lines (li + 1) (drop (ts_li u) rest) table tables (keys_after table (join ''.'' parts) keys))"
    using assms(4) by (simp add: lines parse_entry rest'_def)
qed

lemma parse_set:
  assumes "parse_lines li ls table tables keys = Inr (xs @ st # ys)" "\<not> st_header st" "value_literal lit"
  shows "parse_lines li (set_lines (st_first st - li) (st_last st - li) st lit ls) table tables keys =
      Inr (xs @ set_stmt lit st # map (move_stmt (st_last st + 1) (st_first st + 1)) ys) \<and>
    st_value_col st \<le> length (ls ! (st_first st - li))"
  using assms(1)
proof (induction "length ls" arbitrary: li ls table tables keys xs rule: less_induct)
  case less
  show ?case
  proof (cases ls)
    case Nil
    with less.prems show ?thesis by (simp add: parse_lines.simps(1))
  next
    case (Cons line rest)
    have ih: "parse_lines li' (set_lines (st_first st - li') (st_last st - li') st lit ls') table' tables' keys' =
        Inr (xs' @ set_stmt lit st # map (move_stmt (st_last st + 1) (st_first st + 1)) ys) \<and>
        st_value_col st \<le> length (ls' ! (st_first st - li')) \<and> li' \<le> st_first st \<and> st_first st \<le> st_last st"
      if "parse_lines li' ls' table' tables' keys' = Inr (xs' @ st # ys)" "length ls' \<le> length rest"
      for li' ls' table' tables' keys' xs'
      using less.hyps [OF _ that(1)] that(2) Cons parse_in_order [OF that(1)] by simp
    from less.prems [unfolded Cons] show ?thesis
    proof (cases rule: parse_cases)
      case blank
      note rest = ih [OF blank(2) order_refl]
      then have "set_lines (st_first st - li) (st_last st - li) st lit ls =
          line # set_lines (st_first st - (li + 1)) (st_last st - (li + 1)) st lit rest"
        unfolding Cons by (subst set_lines_further [of 1]) auto
      with rest blank(1) show ?thesis
        by (simp add: Cons nth_Cons')
           (simp add: parse_blank blank_start_rest [of line "set_lines (st_first st - Suc li) (st_last st - Suc li) st lit rest" rest])
    next
      case (header parts is_array sts')
      with assms(2) obtain xs' where xs: "xs = header_stmt (table_name parts is_array) is_array li # xs'" "sts' = xs' @ st # ys"
        by (cases xs) auto
      note rest = ih [OF header(5) [unfolded xs(2)] order_refl]
      then have lines: "set_lines (st_first st - li) (st_last st - li) st lit ls =
          line # set_lines (st_first st - (li + 1)) (st_last st - (li + 1)) st lit rest"
        unfolding Cons by (subst set_lines_further [of 1]) auto
      have read: "read_header (line_start line rest') = Inr (parts, is_array)" for rest'
        using read_header_rest [OF header(3)] line_start_rest by metis
      define r where "r = set_lines (st_first st - (li + 1)) (st_last st - (li + 1)) st lit rest"
      have "parse_lines li (line # r) table tables keys =
          map_sum id ((#) (header_stmt (table_name parts is_array) is_array li))
            (parse_lines (li + 1) r (table_name parts is_array) (table_name parts is_array # tables) keys)"
        using header(1,2)
        by (intro parse_header [OF _ _ read header(4)])
           (simp_all add: blank_start_rest [of line r rest] line_start_peek [of line r rest])
      moreover have "ls ! (st_first st - li) = rest ! (st_first st - (li + 1))"
        using rest by (simp add: Cons nth_Cons')
      ultimately show ?thesis using rest [folded r_def] by (simp add: lines [folded r_def] xs(1))
    next
      case (entry parts v u sts')
      note whole = read_entry_rest [OF entry(3), simplified line_start_text, OF refl]
      show ?thesis
      proof (cases xs)
        case Nil
        with entry(6) have st: "st = entry_stmt table (join ''.'' parts) li (li + ts_li u) (length line - length (ts_text v))
            (length ((line # rest) ! ts_li u) - length (ts_text u))" and ys: "sts' = ys" by auto
        have "parse_lines (li + 1) (drop (ts_li u) rest) table tables (keys_after table (join ''.'' parts) keys) =
            Inr (map (move_stmt (li + ts_li u + 1) (li + 1)) ys)"
          by (rule parse_moved) (use entry(5) ys in simp)
        with parse_entry_set [OF entry(1-4) assms(3) st] Nil show ?thesis
          by (simp add: Cons st)
      next
        case further: (Cons x xs')
        define k where "k = ts_li u"
        define r where "r = set_lines (st_first st - (li + k + 1)) (st_last st - (li + k + 1)) st lit (drop k rest)"
        have k: "k \<le> length rest" using whole(3) by (simp add: k_def)
        have sts: "sts' = xs' @ st # ys" "x = entry_stmt table (join ''.'' parts) li (li + k) (length line - length (ts_text v))
            (length ((line # rest) ! k) - length (ts_text u))"
          using entry(6) further by (auto simp: k_def)
        note rest = ih [OF entry(5) [unfolded sts(1) k_def [symmetric]], folded r_def, simplified]
        then have lines: "set_lines (st_first st - li) (st_last st - li) st lit ls = line # take k rest @ r"
          unfolding Cons using k by (subst set_lines_further [of "k + 1"]) (auto simp: r_def)
        have read: "read_entry (line_start line (take k rest @ r)) =
            Inr (parts, v\<lparr>ts_rest := take k rest @ r\<rparr>, u\<lparr>ts_rest := r\<rparr>)"
          unfolding line_start_rest [of line "take k rest @ r" rest] using whole(7) [of r, folded k_def] .
        have final: "(line # take k rest @ r) ! k = (line # rest) ! k"
          using k by (cases k) (simp_all add: nth_append)
        have "parse_lines li (line # take k rest @ r) table tables keys =
            map_sum id ((#) x) (parse_lines (li + k + 1) r table tables (keys_after table (join ''.'' parts) keys))"
          using entry(1,2,4) k final
          by (subst parse_entry [OF _ _ read])
             (simp_all add: blank_start_rest [of line "take k rest @ r" rest] line_start_peek [of line "take k rest @ r" rest]
               k_def [symmetric] sts(2))
        moreover have "ls ! (st_first st - li) = drop k rest ! (st_first st - (li + k + 1))"
        proof -
          have "Suc (li + k) \<le> st_first st" using rest by blast
          then have "st_first st - li = Suc (k + (st_first st - (li + k + 1)))" by arith
          then show ?thesis using k by (simp add: Cons)
        qed
        ultimately show ?thesis using rest by (simp add: lines further)
      qed
    qed
  qed
qed


subsection \<open>The text of a value, by its lines\<close>

lemma text_at_append: "a \<le> b \<Longrightarrow> b < length p \<Longrightarrow> text_at (p @ q) a b v e = text_at p a b v e"
  by (simp add: text_at_def nth_append)

lemma text_at_drop:
  assumes "length p \<le> a" "a \<le> b"
  shows "text_at (p @ q) a b v e = text_at q (a - length p) (b - length p) v e"
proof -
  obtain a' b' where "a = length p + a'" "b = length p + b'" using assms by (metis le_iff_add order_trans)
  then show ?thesis by (simp add: text_at_def nth_append)
qed

definition stmt_text :: "string list \<Rightarrow> toml_stmt \<Rightarrow> string" where
  "stmt_text ls st = text_at ls (st_first st) (st_last st) (st_value_col st) (st_end_col st)"

definition file_entries :: "string list \<Rightarrow> toml_stmt list \<Rightarrow> ((string \<times> string) \<times> string) list" where
  "file_entries ls sts = map (\<lambda>st. ((st_table st, st_key st), stmt_text ls st)) (filter (Not \<circ> st_header) sts)"

lemma file_entries_simps [simp]:
  "file_entries ls [] = []"
  "file_entries ls (st # sts) = (if st_header st then [] else [((st_table st, st_key st), stmt_text ls st)]) @ file_entries ls sts"
  "file_entries ls (xs @ ys) = file_entries ls xs @ file_entries ls ys"
  by (simp_all add: file_entries_def)

lemma toml_lookup_entries: "toml_lookup c table key = map_of (file_entries (ct_lines c) (ct_stmts c)) (table, key)"
proof -
  have "map_option (stmt_text ls) (find (\<lambda>st. is_entry table st \<and> st_key st = key) sts) =
      map_of (file_entries ls sts) (table, key)" for ls sts
    by (induction sts) (auto simp: is_entry_def)
  then show ?thesis by (simp add: toml_lookup_def value_text_def stmt_text_def fun_eq_iff cong: option.map_cong)
qed

text \<open>Entries above a change, and entries below it at their new lines.\<close>

lemma entries_above:
  assumes "\<forall>st \<in> set xs. st_first st \<le> st_last st \<and> st_last st < length p"
  shows "file_entries (p @ q) xs = file_entries (p @ q') xs"
  using assms by (auto simp: file_entries_def stmt_text_def text_at_append)

lemma entries_below:
  assumes "\<forall>st \<in> set ys. length p \<le> st_first st \<and> st_first st \<le> st_last st"
  shows "file_entries (p' @ q) (map (move_stmt (length p) (length p')) ys) = file_entries (p @ q) ys"
proof -
  have "stmt_text (p' @ q) (move_stmt (length p) (length p') st) = stmt_text (p @ q) st" if "st \<in> set ys" for st
    using assms that by (auto simp: stmt_text_def move_stmt_def text_at_drop)
  then show ?thesis by (simp add: file_entries_def filter_map comp_def) (simp add: move_stmt_def)
qed

subsection \<open>A key that is there\<close>

definition config_map :: "config_toml \<Rightarrow> string \<times> string \<Rightarrow> string option" where
  "config_map c = (\<lambda>(table, key). toml_lookup c table key)"

lemma config_map_entries: "config_map c = map_of (file_entries (ct_lines c) (ct_stmts c))"
  by (auto simp: config_map_def toml_lookup_entries)

lemma parsed_lines:
  assumes "parse_config_toml txt = Inr c"
  shows "ct_lines c = split_on CHR 0x0A txt" "parse_lines 0 (ct_lines c) [] [] [] = Inr (ct_stmts c)"
  using assms by (auto simp: parse_config_toml_def Let_def split: sum.splits)

lemma parse_joined:
  assumes "ls \<noteq> []" "\<And>l. l \<in> set ls \<Longrightarrow> CHR 0x0A \<notin> set l"
  shows "parse_config_toml (join [CHR 0x0A] ls) = map_sum id (config_toml.make ls) (parse_lines 0 ls [] [] [])"
  using split_on_join [OF assms] by (simp add: parse_config_toml_def Let_def config_toml.make_def split: sum.splits)

lemma find_split: "find P xs = Some x \<Longrightarrow> \<exists>ys zs. xs = ys @ x # zs \<and> P x \<and> (\<forall>y \<in> set ys. \<not> P y)"
proof (induction xs)
  case (Cons a xs)
  show ?case
  proof (cases "P a")
    case True
    with Cons.prems show ?thesis by (intro exI [of _ "[]"] exI [of _ xs]) simp
  next
    case False
    with Cons obtain ys zs where "xs = ys @ x # zs" "P x" "\<forall>y \<in> set ys. \<not> P y" by auto
    with False show ?thesis by (intro exI [of _ "a # ys"] exI [of _ zs]) simp
  qed
qed simp

text \<open>Setting it, statement by statement.\<close>

lemma set_present:
  assumes parse: "parse_config_toml txt = Inr c" and lit: "value_literal lit"
    and found: "find (\<lambda>st. is_entry table st \<and> st_key st = key) (ct_stmts c) = Some st"
  shows "\<exists>c' xs ys. parse_config_toml (toml_set c table key lit) = Inr c' \<and>
    ct_stmts c = xs @ st # ys \<and> ct_stmts c' = xs @ set_stmt lit st # map (move_stmt (st_last st + 1) (st_first st + 1)) ys \<and>
    file_entries (ct_lines c') (ct_stmts c') =
      file_entries (ct_lines c) xs @ ((table, key), trim_space lit) # file_entries (ct_lines c) ys \<and>
    (\<forall>x \<in> set xs. \<not> (is_entry table x \<and> st_key x = key))"
proof -
  define ls where "ls = ct_lines c"
  define a where "a = st_first st"
  define b where "b = st_last st"
  obtain xs ys where sts: "ct_stmts c = xs @ st # ys" "is_entry table st" "st_key st = key"
    "\<forall>x \<in> set xs. \<not> (is_entry table x \<and> st_key x = key)"
    using find_split [OF found] by blast
  have header: "\<not> st_header st" "st_table st = table" using sts(2) by (auto simp: is_entry_def)
  have p: "parse_lines 0 ls [] [] [] = Inr (xs @ st # ys)"
    using parsed_lines(2) [OF parse] sts(1) by (simp add: ls_def)
  note order = parse_in_order [OF p]
  have ab: "a \<le> b" "b < length ls" using order by (auto simp: a_def b_def)
  define new where "new = take (st_value_col st) (ls ! a) @ lit @ drop (st_end_col st) (ls ! b)"
  have lines: "set_entry c st lit = take a ls @ new # drop (b + 1) ls"
    by (simp add: set_entry_def new_def ls_def a_def b_def)
  have set: "set_lines a b st lit ls = take a ls @ new # drop (b + 1) ls" by (simp add: set_lines_def new_def)
  have p': "parse_lines 0 (take a ls @ new # drop (b + 1) ls) [] [] [] =
      Inr (xs @ set_stmt lit st # map (move_stmt (b + 1) (a + 1)) ys)" and col: "st_value_col st \<le> length (ls ! a)"
    using parse_set [OF p header(1) lit] by (simp_all add: a_def b_def set [unfolded a_def b_def])
  have nl: "CHR 0x0A \<notin> set l" if "l \<in> set ls" for l
    using split_on_no_sep that parsed_lines(1) [OF parse] by (simp add: ls_def)
  have nl': "CHR 0x0A \<notin> set l" if "l \<in> set (take a ls @ new # drop (b + 1) ls)" for l
  proof -
    have "CHR 0x0A \<notin> set (ls ! a)" "CHR 0x0A \<notin> set (ls ! b)" using nl ab by simp_all
    then have "CHR 0x0A \<notin> set new" using lit by (auto simp: new_def value_literal_def dest: in_set_takeD in_set_dropD)
    with that nl show ?thesis by (auto dest: in_set_takeD in_set_dropD)
  qed
  define c' where "c' = config_toml.make (take a ls @ new # drop (b + 1) ls)
      (xs @ set_stmt lit st # map (move_stmt (b + 1) (a + 1)) ys)"
  have "parse_config_toml (toml_set c table key lit) = Inr c'"
    using parse_joined [of "take a ls @ new # drop (b + 1) ls", OF _ nl'] p'
    by (simp add: toml_set_def found lines c'_def)
  moreover have "file_entries (ct_lines c') (ct_stmts c') =
      file_entries ls xs @ ((table, key), trim_space lit) # file_entries ls ys"
  proof -
    have ls: "ls = take a ls @ drop a ls" "ls = take (b + 1) ls @ drop (b + 1) ls" by simp_all
    have above: "file_entries (take a ls @ new # drop (b + 1) ls) xs = file_entries ls xs"
      using entries_above [of xs "take a ls" "new # drop (b + 1) ls" "drop a ls"] order ab
      by (auto simp: sorted_wrt_append a_def)
    have len: "length (take (b + 1) ls) = b + 1" "length (take a ls @ [new]) = a + 1" using ab by simp_all
    have "file_entries ((take a ls @ [new]) @ drop (b + 1) ls) (map (move_stmt (length (take (b + 1) ls)) (length (take a ls @ [new]))) ys) =
        file_entries (take (b + 1) ls @ drop (b + 1) ls) ys"
      by (rule entries_below) (use order ab in \<open>auto simp: sorted_wrt_append b_def\<close>)
    then have below: "file_entries (take a ls @ new # drop (b + 1) ls) (map (move_stmt (b + 1) (a + 1)) ys) = file_entries ls ys"
      unfolding len by simp
    have "stmt_text (take a ls @ new # drop (b + 1) ls) (set_stmt lit st) = trim_space lit"
      using col ab by (simp add: stmt_text_def set_stmt_def text_at_def a_def [symmetric] nth_append new_def min_def)
    moreover have "set_stmt lit st = st\<lparr>st_last := a, st_end_col := st_value_col st + length lit\<rparr>"
      by (simp add: set_stmt_def a_def)
    ultimately show ?thesis
      using header sts(3) above below by (simp add: c'_def config_toml.make_def)
  qed
  ultimately show ?thesis
    using sts(1,4) by (intro exI [of _ c'] exI [of _ xs] exI [of _ ys]) (simp add: c'_def config_toml.make_def ls_def a_def b_def)
qed


subsection \<open>Every other byte\<close>

lemma join_around: "ms \<noteq> [] \<Longrightarrow> \<exists>pre post. \<forall>ms'. ms' \<noteq> [] \<longrightarrow> join [c] (ls @ ms' @ ns) = pre @ join [c] ms' @ post"
proof -
  have after: "\<exists>post. \<forall>ms'. ms' \<noteq> [] \<longrightarrow> join [c] (ms' @ ns) = join [c] ms' @ post"
  proof (cases ns)
    case Nil
    then show ?thesis by (intro exI [of _ "[]"]) simp
  next
    case (Cons n ns')
    have "join [c] (ms' @ ns) = join [c] ms' @ c # join [c] ns" if "ms' \<noteq> []" for ms'
      using that
    proof (induction ms')
      case (Cons m ms')
      then show ?case using \<open>ns = n # ns'\<close> by (cases ms') (simp_all add: join_Cons)
    qed simp
    then show ?thesis by (intro exI [of _ "c # join [c] ns"]) simp
  qed
  then obtain post where post: "\<forall>ms'. ms' \<noteq> [] \<longrightarrow> join [c] (ms' @ ns) = join [c] ms' @ post" by blast
  have "join [c] (ls @ ms' @ ns) = concat (map (\<lambda>l. l @ [c]) ls) @ join [c] ms' @ post" if "ms' \<noteq> []" for ms'
    using that post by (induction ls) (simp_all add: join_Cons)
  then show ?thesis by blast
qed

lemma join_first: "join [c] ((p @ x) # ls) = p @ join [c] (x # ls)"
  by (cases ls) simp_all

lemma join_last: "join [c] (ls @ [x @ q]) = join [c] (ls @ [x]) @ q"
proof (induction ls)
  case (Cons l ls)
  then show ?case by (cases ls) simp_all
qed simp

lemma set_present_bytes:
  assumes parse: "parse_config_toml txt = Inr c"
    and found: "find (\<lambda>st. is_entry table st \<and> st_key st = key) (ct_stmts c) = Some st"
  shows "\<exists>pre old post. txt = pre @ old @ post \<and> toml_set c table key lit = pre @ lit @ post \<and>
    toml_lookup c table key = Some (trim_space old)"
proof -
  define ls where "ls = ct_lines c"
  define a where "a = st_first st"
  define b where "b = st_last st"
  define v where "v = st_value_col st"
  define e where "e = st_end_col st"
  have p: "parse_lines 0 ls [] [] [] = Inr (ct_stmts c)" using parsed_lines(2) [OF parse] by (simp add: ls_def)
  have txt': "join [CHR 0x0A] ls = txt" using parsed_lines(1) [OF parse] by (simp add: ls_def)
  have "st \<in> set (ct_stmts c)" using found by (auto simp: find_Some_iff)
  then have st: "a \<le> b" "b < length ls" "a = b \<Longrightarrow> v \<le> e"
    using parse_in_order [OF p] by (auto simp: a_def b_def v_def e_def)
  define ms where "ms = take (b + 1 - a) (drop a ls)"
  define p' where "p' = take v (ls ! a)"
  define q' where "q' = drop e (ls ! b)"
  have "ls = take a ls @ drop a ls" by simp
  also have "drop a ls = ms @ drop (b + 1) ls"
    using st(1) append_take_drop_id [of "b + 1 - a" "drop a ls"] by (simp add: ms_def)
  finally have ls: "ls = take a ls @ ms @ drop (b + 1) ls" .
  have ms: "ms \<noteq> []" using st by (simp add: ms_def)
  obtain pre post where around: "\<And>ms'. ms' \<noteq> [] \<Longrightarrow> join [CHR 0x0A] (take a ls @ ms' @ drop (b + 1) ls) = pre @ join [CHR 0x0A] ms' @ post"
    using join_around [OF ms, of "CHR 0x0A" "take a ls" "drop (b + 1) ls"] by blast
  have look: "toml_lookup c table key = Some (text_at ls a b v e)"
    by (simp add: toml_lookup_def found value_text_def ls_def a_def b_def v_def e_def)
  have new: "toml_set c table key lit = (pre @ p') @ lit @ (q' @ post)"
    using around [of "[p' @ lit @ q']"]
    by (simp add: toml_set_def found set_entry_def ls_def [symmetric] a_def [symmetric] b_def [symmetric] v_def [symmetric]
        e_def [symmetric] p'_def q'_def)
  have "\<exists>old. join [CHR 0x0A] ms = p' @ old @ q' \<and> text_at ls a b v e = trim_space old"
  proof (cases "a = b")
    case True
    then have "ms = [ls ! a]" using st by (simp add: ms_def take_Suc_conv_app_nth)
    moreover have "ls ! a = p' @ drop v (take e (ls ! a)) @ q'"
    proof -
      have "take e (ls ! a) = p' @ drop v (take e (ls ! a))"
        using st(3) [OF True] append_take_drop_id [of v "take e (ls ! a)"] by (simp add: p'_def min_def)
      moreover have "ls ! a = take e (ls ! a) @ q'" using True by (simp add: q'_def)
      ultimately show ?thesis by (metis append.assoc)
    qed
    ultimately show ?thesis using True
      by (intro exI [of _ "drop v (take e (ls ! a))"]) (simp add: text_at_def)
  next
    case False
    define mid where "mid = drop (a + 1) (take b ls)"
    have seg: "ms = ls ! a # mid @ [ls ! b]"
    proof -
      have "take (b + 1) ls = take b ls @ [ls ! b]" using st by (simp add: take_Suc_conv_app_nth)
      then have "ms = drop a (take b ls) @ [ls ! b]" using st by (simp add: ms_def take_drop)
      moreover have "drop a (take b ls) = ls ! a # mid" using st False by (simp add: mid_def Cons_nth_drop_Suc [symmetric])
      ultimately show ?thesis by simp
    qed
    have "join [CHR 0x0A] ms = p' @ join [CHR 0x0A] (drop v (ls ! a) # mid @ [take e (ls ! b)]) @ q'"
    proof -
      have "join [CHR 0x0A] ms = join [CHR 0x0A] ((p' @ drop v (ls ! a)) # mid @ [take e (ls ! b) @ q'])"
        by (simp add: seg p'_def q'_def)
      also have "\<dots> = p' @ join [CHR 0x0A] ((drop v (ls ! a) # mid) @ [take e (ls ! b) @ q'])" by (simp only: join_first append_Cons)
      also have "\<dots> = p' @ join [CHR 0x0A] ((drop v (ls ! a) # mid) @ [take e (ls ! b)]) @ q'" by (simp only: join_last)
      finally show ?thesis by simp
    qed
    with False show ?thesis by (auto simp: text_at_def mid_def)
  qed
  then obtain old where old: "join [CHR 0x0A] ms = p' @ old @ q'" "text_at ls a b v e = trim_space old" by blast
  have "txt = pre @ join [CHR 0x0A] ms @ post" using around [OF ms] ls txt' by simp
  with old new look show ?thesis
    by (intro exI [of _ "pre @ p'"] exI [of _ old] exI [of _ "q' @ post"]) simp
qed

end
