(* ===== verification/TomlInsert.thy ===== *)
theory TomlInsert
  imports TomlEdit
begin

text \<open>
  Setting a key the config file does not have: wherever the new line goes, when the new text
  parses it is the old map with that one key added.
\<close>

subsection \<open>A value ends with a byte of its last line\<close>

definition reached :: "toml_scan \<Rightarrow> toml_scan \<Rightarrow> bool" where
  "reached s t \<longleftrightarrow> (\<exists>cs. s = put cs t)"

definition ends_before :: "toml_scan \<Rightarrow> toml_scan \<Rightarrow> bool" where
  "ends_before s t \<longleftrightarrow> (\<exists>c. reached s (push (Some c) t))"

lemma reached_trans: "reached s t \<Longrightarrow> reached t u \<Longrightarrow> reached s u"
  unfolding reached_def by (metis put_append)

lemma reached_ends: "reached s t \<Longrightarrow> ends_before t u \<Longrightarrow> ends_before s u"
  unfolding ends_before_def using reached_trans by blast

lemma reads_reached: "reads_only R f s t \<Longrightarrow> reached s t"
  by (auto simp: reads_only_def reached_def)

lemma ends_reached: "ends_before s t \<Longrightarrow> reached s t"
  unfolding ends_before_def reached_def by (metis put_append put_Cons put_Nil)

lemma line_ends_before:
  assumes "ts_text s = c @ ts_text t" "c \<noteq> []" "ts_rest s = ts_rest t" "ts_li s = ts_li t"
  shows "ends_before s t"
  unfolding ends_before_def reached_def
proof (intro exI)
  show "s = put (map Some (butlast c)) (push (Some (last c)) t)"
    using assms by (intro toml_scan.equality) (simp_all add: put_some)
qed

lemma skip_one_ends: "ts_peek s = c \<Longrightarrow> c \<noteq> CHR 0x00 \<Longrightarrow> ends_before s (ts_skip 1 s)"
  by (rule line_ends_before [of _ "[c]"]) (auto simp: ts_peek_def ts_skip_def split: list.splits)

lemma multiline_from_ends:
  "length q = 3 \<Longrightarrow> multiline_from q li line rest = Inr t \<Longrightarrow>
     ends_before \<lparr>ts_li = li, ts_text = line, ts_rest = rest\<rparr> t"
proof (induction q li line rest rule: multiline_from.induct)
  case (1 q li line rest)
  show ?case
  proof (cases "after_quotes q line")
    case (Some u)
    obtain c where "line = c @ u" "3 \<le> length c" using after_quotes_part [OF "1.prems"(1) Some] by blast
    moreover have "t = \<lparr>ts_li = li, ts_text = u, ts_rest = rest\<rparr>"
      using "1.prems"(2) Some by (subst (asm) multiline_from.simps) simp
    ultimately show ?thesis by (intro line_ends_before [of _ c]) auto
  next
    case None
    then obtain l ls where rest: "rest = l # ls" "multiline_from q (li + 1) l ls = Inr t"
      using "1.prems" by (subst (asm) multiline_from.simps) (auto split: list.splits)
    have "\<lparr>ts_li = li, ts_text = line, ts_rest = rest\<rparr> = put (map Some line @ [None]) \<lparr>ts_li = li + 1, ts_text = l, ts_rest = ls\<rparr>"
      by (simp add: put_some rest)
    then have "reached \<lparr>ts_li = li, ts_text = line, ts_rest = rest\<rparr> \<lparr>ts_li = li + 1, ts_text = l, ts_rest = ls\<rparr>"
      unfolding reached_def by blast
    from reached_ends [OF this "1.IH" [OF None rest(1) "1.prems"(1) rest(2)]] show ?thesis .
  qed
qed

lemma skip_blank_reached: "skip_blank s = (True, t) \<Longrightarrow> reached s t"
  using skip_blank_reads reads_reached by blast

lemma skip_space_reached: "reached s (skip_space s)"
proof -
  have "s = put (map Some (takeWhile blank (ts_text s))) (skip_space s)"
    by (simp add: put_some skip_space_def)
  then show ?thesis unfolding reached_def by blast
qed

lemma toml_value_ends:
  "toml_value n s = Inr t \<Longrightarrow> ends_before s t"
  "toml_array n s = Inr t \<Longrightarrow> ends_before s t"
  "toml_inline n s = Inr t \<Longrightarrow> ends_before s t"
proof (induction n arbitrary: s t)
  case (Suc n)
  {
    case 1
    have ne: "\<not> ts_end s" using 1 by (auto simp: ts_fail_def)
    show ?case
    proof (cases "has_prefix (ts_text s) [dquote, dquote, dquote] \<or> has_prefix (ts_text s) [squote, squote, squote]")
      case True
      define q where "q = take 3 (ts_text s)"
      have q: "length q = 3" using True by (auto simp: q_def has_prefix_def min_def dest: arg_cong [where f = length])
      have "multiline_string q s = Inr t" using 1 ne True by (auto simp: q_def)
      then have "ends_before \<lparr>ts_li = ts_li s, ts_text = drop 3 (ts_text s), ts_rest = ts_rest s\<rparr> t"
        by (intro multiline_from_ends [OF q]) (simp add: multiline_string_def)
      moreover have "s = put (map Some q) \<lparr>ts_li = ts_li s, ts_text = drop 3 (ts_text s), ts_rest = ts_rest s\<rparr>"
        by (simp add: put_some q_def)
      then have "reached s \<lparr>ts_li = ts_li s, ts_text = drop 3 (ts_text s), ts_rest = ts_rest s\<rparr>" unfolding reached_def by blast
      ultimately show ?thesis using reached_ends by blast
    next
      case False
      then consider (bracket) "ts_peek s = CHR ''[''" "toml_array n (ts_skip 1 s) = Inr t"
        | (brace) "ts_peek s = CHR ''{''" "toml_inline n (ts_skip 1 s) = Inr t" | (single) "single_value s = Inr t"
        using 1 ne by (auto split: if_splits)
      then show ?thesis
      proof cases
        case bracket
        then show ?thesis using reached_ends [OF ends_reached [OF skip_one_ends [OF bracket(1)]] Suc.IH(2)] by simp
      next
        case brace
        then show ?thesis using reached_ends [OF ends_reached [OF skip_one_ends [OF brace(1)]] Suc.IH(3)] by simp
      next
        case single
        obtain c where c: "c \<noteq> []" "ts_text s = c @ ts_text t" "t = s\<lparr>ts_text := ts_text t\<rparr>"
          using single_value_part [OF single] by blast
        from c(3) have "ts_rest s = ts_rest t" "ts_li s = ts_li t"
          by (metis toml_scan.select_convs(1,3) toml_scan.surjective toml_scan.update_convs(2))+
        with c(1,2) show ?thesis by (intro line_ends_before)
      qed
    qed
  next
    case 2
    then show ?case
    proof (cases rule: toml_array_cases)
      case (empty s1)
      with reached_ends [OF skip_blank_reached skip_one_ends] show ?thesis by simp
    next
      case (further s1 s2 s3)
      have "ends_before s3 t"
        using reached_ends [OF ends_reached [OF skip_one_ends [OF further(5)]] Suc.IH(2) [OF further(6)]] by simp
      then show ?thesis
        using skip_blank_reached [OF further(1)] ends_reached [OF Suc.IH(1) [OF further(3)]] skip_blank_reached [OF further(4)]
          reached_trans reached_ends by blast
    next
      case (final s1 s2 s3)
      have "ends_before s3 t" using skip_one_ends [OF final(5)] final(6) by simp
      then show ?thesis
        using skip_blank_reached [OF final(1)] ends_reached [OF Suc.IH(1) [OF final(3)]] skip_blank_reached [OF final(4)]
          reached_trans reached_ends by blast
    qed
  next
    case 3
    have key: "reached s (skip_space (ts_skip 1 (skip_space s1)))"
      if "toml_key (skip_space s) = Inr (ks, s1)" "ts_peek (skip_space s1) = CHR ''=''" for ks s1
    proof -
      have "key_equals ks s (skip_space (ts_skip 1 (skip_space s1)))" using that by (auto simp: key_equals_def)
      from reads_line_only [OF key_equals_line [OF this]] show ?thesis by (rule reads_reached)
    qed
    from 3 show ?case
    proof (cases rule: toml_inline_cases)
      case empty
      with reached_ends [OF skip_space_reached skip_one_ends] show ?thesis by simp
    next
      case (further ks s1 s2)
      have "ends_before (skip_space s2) t"
        using reached_ends [OF ends_reached [OF skip_one_ends [OF further(5)]] Suc.IH(3) [OF further(6)]] by simp
      then show ?thesis
        using key [OF further(2,3)] ends_reached [OF Suc.IH(1) [OF further(4)]] skip_space_reached [of s2]
          reached_trans reached_ends by blast
    next
      case (final ks s1 s2)
      have "ends_before (skip_space s2) t" using skip_one_ends [OF final(5)] final(6) by simp
      then show ?thesis
        using key [OF final(2,3)] ends_reached [OF Suc.IH(1) [OF final(4)]] skip_space_reached [of s2]
          reached_trans reached_ends by blast
    qed
  }
qed (simp_all add: ts_fail_def)

lemma entry_last_line:
  assumes "read_entry s = Inr (ks, v, u)" "ts_li s = 0"
  shows "(ts_text s # ts_rest s) ! ts_li u \<noteq> []"
proof (cases "ts_li u")
  case 0
  then show ?thesis using read_entry_rest(5) [OF assms] by auto
next
  case (Suc k)
  have "scan_toml v = Inr u" using assms(1) by (simp add: read_entry_iff)
  then have "ends_before v u" unfolding scan_toml_def by (rule toml_value_ends(1))
  then obtain c cs where v: "v = put cs (push (Some c) u)" by (auto simp: ends_before_def reached_def)
  note whole = read_entry_rest(1-4) [OF assms]
  have "length (ts_rest u) = length (ts_rest s) - ts_li u" unfolding whole(4) by simp
  then have "line_ends cs = ts_li u"
    using put_lines(1) [of cs "push (Some c) u", folded v] whole(2,3) by simp
  with put_last_line [of cs "push (Some c) u", folded v] Suc whole(2) show ?thesis by auto
qed


subsection \<open>The lines of one statement, and what is read after them\<close>

text \<open>What \<open>n\<close> lines are read as, whatever comes after them.\<close>

definition reads_first ::
  "nat \<Rightarrow> string list \<Rightarrow> string \<times> string list \<times> string list \<Rightarrow> toml_stmt list \<Rightarrow>
    nat \<Rightarrow> string \<times> string list \<times> string list \<Rightarrow> toml_stmt list \<Rightarrow> toml_stmt list \<Rightarrow> bool"
where
  "reads_first li ls = (\<lambda>(table, tables, keys) sts n (table', tables', keys') new sts'.
     0 < n \<and> n \<le> length ls \<and> sts = new @ sts' \<and>
     parse_lines (li + n) (drop n ls) table' tables' keys' = Inr sts' \<and>
     (\<forall>post. parse_lines li (take n ls @ post) table tables keys =
       map_sum id ((@) new) (parse_lines (li + n) post table' tables' keys')) \<and>
     (new = [] \<or> (\<exists>st. new = [st] \<and> st_last st + 1 = li + n \<and> table' = st_table st \<and> ls ! (n - 1) \<noteq> [])))"

lemma append_one: "(@) [x] = (#) x"
  by (simp add: fun_eq_iff)

lemma parse_oneI: "reads_first li ls (table, tables, keys) sts n (table', tables', keys') new sts' \<Longrightarrow>
    \<exists>n table' tables' keys' new sts'. reads_first li ls (table, tables, keys) sts n (table', tables', keys') new sts'"
  by blast

lemma parse_one:
  assumes "parse_lines li (line # rest) table tables keys = Inr sts"
  shows "\<exists>n table' tables' keys' new sts'.
    reads_first li (line # rest) (table, tables, keys) sts n (table', tables', keys') new sts'"
  using assms
proof (cases rule: parse_cases)
  case blank
  have "parse_lines li (line # post) table tables keys = parse_lines (li + 1) post table tables keys" for post
    using blank(1) by (intro parse_blank) (simp add: blank_start_rest [of line post rest])
  moreover have "map_sum id ((@) []) r = r" for r :: "toml_stmt list scanned" by (cases r) simp_all
  ultimately show ?thesis using blank(2)
    by (intro parse_oneI [of _ _ _ _ _ _ 1 table tables keys "[]" sts]) (simp add: reads_first_def)
next
  case (header parts is_array sts')
  let ?table = "table_name parts is_array"
  have read: "read_header (line_start line post) = Inr (parts, is_array)" for post
    using read_header_rest [OF header(3)] line_start_rest by metis
  have "parse_lines li (line # post) table tables keys =
      map_sum id ((#) (header_stmt ?table is_array li)) (parse_lines (li + 1) post ?table (?table # tables) keys)" for post
    using header(1,2)
    by (intro parse_header [OF _ _ read header(4)])
       (simp_all add: blank_start_rest [of line post rest] line_start_peek [of line post rest])
  moreover have "line \<noteq> []" using header(1) by (auto simp: blank_start_def ts_end_def line_start_text)
  ultimately show ?thesis using header(5,6)
    by (intro parse_oneI [of _ _ _ _ _ _ 1 ?table "?table # tables" keys "[header_stmt ?table is_array li]" sts'])
       (simp add: reads_first_def append_one)
next
  case (entry parts v u sts')
  define k where "k = ts_li u"
  let ?key = "join ''.'' parts"
  let ?st = "entry_stmt table ?key li (li + k) (length line - length (ts_text v)) (length ((line # rest) ! k) - length (ts_text u))"
  have li: "ts_li (line_start line rest) = 0" by (simp add: line_start_text)
  note whole = read_entry_rest [OF entry(3) li, unfolded line_start_text(2)]
  have k: "k \<le> length rest" using whole(3) by (simp add: k_def)
  have read: "read_entry (line_start line (take k rest @ post)) = Inr (parts, v\<lparr>ts_rest := take k rest @ post\<rparr>, u\<lparr>ts_rest := post\<rparr>)"
    for post unfolding line_start_rest [of line "take k rest @ post" rest] using whole(7) [of post, folded k_def] .
  have final: "(line # take k rest @ post) ! k = (line # rest) ! k" for post
    using k by (cases k) (simp_all add: nth_append)
  have "parse_lines li (line # take k rest @ post) table tables keys =
      map_sum id ((#) ?st) (parse_lines (li + k + 1) post table tables (keys_after table ?key keys))" for post
    using entry(1,2,4) k final
    by (subst parse_entry [OF _ _ read])
       (simp_all add: blank_start_rest [of line "take k rest @ post" rest] line_start_peek [of line "take k rest @ post" rest]
         k_def [symmetric])
  moreover have "(line # rest) ! k \<noteq> []"
  proof (cases k)
    case 0
    then show ?thesis using entry(1) by (auto simp: blank_start_def ts_end_def line_start_text)
  next
    case (Suc m)
    then show ?thesis using entry_last_line [OF entry(3) li] by (simp add: k_def [symmetric] line_start_text)
  qed
  ultimately show ?thesis using entry(5,6) k
    by (intro parse_oneI [of _ _ _ _ _ _ "k + 1" table tables "keys_after table ?key keys" "[?st]" sts'])
       (simp add: k_def [symmetric] reads_first_def append_one)
qed

text \<open>The file up to a statement, and after it.\<close>

lemma parse_split:
  assumes "parse_lines li ls table tables keys = Inr (xs @ st # ys)"
  shows "\<exists>tables' keys'. (let n = st_last st + 1 - li in
    li \<le> st_last st \<and> n \<le> length ls \<and> ls ! (n - 1) \<noteq> [] \<and>
    (\<forall>post. parse_lines li (take n ls @ post) table tables keys =
      map_sum id ((@) (xs @ [st])) (parse_lines (li + n) post (st_table st) tables' keys')) \<and>
    parse_lines (li + n) (drop n ls) (st_table st) tables' keys' = Inr ys)"
  using assms
proof (induction "length ls" arbitrary: li ls table tables keys xs rule: less_induct)
  case less
  obtain line rest where ls: "ls = line # rest" using less.prems by (cases ls) (simp_all add: parse_lines.simps(1))
  obtain n table' tables' keys' new sts'
    where first: "reads_first li ls (table, tables, keys) (xs @ st # ys) n (table', tables', keys') new sts'"
    using parse_one [OF less.prems [unfolded ls]] unfolding ls by blast
  then have one: "0 < n" "n \<le> length ls" "xs @ st # ys = new @ sts'"
    "parse_lines (li + n) (drop n ls) table' tables' keys' = Inr sts'"
    "\<And>post. parse_lines li (take n ls @ post) table tables keys = map_sum id ((@) new) (parse_lines (li + n) post table' tables' keys')"
    "new = [] \<or> (\<exists>st. new = [st] \<and> st_last st + 1 = li + n \<and> table' = st_table st \<and> ls ! (n - 1) \<noteq> [])"
    by (auto simp: reads_first_def)
  show ?case
  proof (cases "new = [st] \<and> xs = []")
    case True
    then have "sts' = ys" "st_last st + 1 - li = n" "li \<le> st_last st" "table' = st_table st" "ls ! (n - 1) \<noteq> []"
      using one(1,3,6) by auto
    with one True show ?thesis by (intro exI [of _ tables'] exI [of _ keys']) (simp add: Let_def)
  next
    case False
    then obtain xs' where xs: "sts' = xs' @ st # ys" "xs = new @ xs'"
      using one(3,6) by (cases xs) auto
    define m where "m = st_last st + 1 - (li + n)"
    have "length (drop n ls) < length ls" using one(1,2) by simp
    from less.hyps [OF this one(4) [unfolded xs(1)]]
    obtain tables2 keys2 where rest: "li + n \<le> st_last st" "m \<le> length (drop n ls)" "drop n ls ! (m - 1) \<noteq> []"
      "\<And>post. parse_lines (li + n) (take m (drop n ls) @ post) table' tables' keys' =
        map_sum id ((@) (xs' @ [st])) (parse_lines (li + n + m) post (st_table st) tables2 keys2)"
      "parse_lines (li + n + m) (drop m (drop n ls)) (st_table st) tables2 keys2 = Inr ys"
      unfolding m_def [symmetric] by (auto simp: Let_def)
    have m: "st_last st + 1 - li = n + m" "0 < m" using rest(1) by (simp_all add: m_def)
    have "parse_lines li (take (n + m) ls @ post) table tables keys =
        map_sum id ((@) (xs @ [st])) (parse_lines (li + (n + m)) post (st_table st) tables2 keys2)" for post
    proof -
      have "parse_lines li (take n ls @ take m (drop n ls) @ post) table tables keys =
          map_sum id ((@) new) (map_sum id ((@) (xs' @ [st])) (parse_lines (li + n + m) post (st_table st) tables2 keys2))"
        unfolding one(5) rest(4) ..
      then show ?thesis
        by (cases "parse_lines (li + n + m) post (st_table st) tables2 keys2") (simp_all add: take_add xs(2) add.assoc)
    qed
    moreover have "ls ! (n + m - 1) \<noteq> []" using rest(3) m(2) one(2) by (simp add: Nat.add_diff_assoc)
    moreover have "parse_lines (li + (n + m)) (drop (n + m) ls) (st_table st) tables2 keys2 = Inr ys"
      using rest(5) by (simp add: add.assoc add.commute [of m n])
    ultimately show ?thesis
      using rest(1,2) one(2) m by (intro exI [of _ tables2] exI [of _ keys2]) (simp add: Let_def)
  qed
qed

text \<open>The tables and keys given before only ever refuse.\<close>

lemma parse_same:
  "parse_lines li ls table tables keys = Inr sts \<Longrightarrow> parse_lines li ls table tables2 keys2 = Inr sts2 \<Longrightarrow> sts = sts2"
proof (induction "length ls" arbitrary: li ls table tables keys tables2 keys2 sts sts2 rule: less_induct)
  case less
  show ?case
  proof (cases ls)
    case Nil
    with less.prems show ?thesis by (simp add: parse_lines.simps(1))
  next
    case (Cons line rest)
    have ih: "s1 = s2" if "parse_lines li' ls' table' t1 k1 = Inr s1" "parse_lines li' ls' table' t2 k2 = Inr s2"
      "length ls' \<le> length rest" for li' ls' table' t1 k1 t2 k2 s1 s2
      using less.hyps [OF _ that(1,2)] that(3) Cons by simp
    from less.prems(1) [unfolded Cons] show ?thesis
    proof (cases rule: parse_cases)
      case blank
      with ih [OF blank(2)] less.prems(2) Cons show ?thesis by (simp add: parse_blank)
    next
      case (header parts is_array sts')
      note first = this
      from less.prems(2) [unfolded Cons] show ?thesis
      proof (cases rule: parse_cases)
        case (header parts2 is_array2 sts2')
        then have "parts2 = parts" "is_array2 = is_array" using first(3) by simp_all
        with ih [OF first(5)] header(5,6) first(6) show ?thesis by simp
      qed (use first in \<open>simp_all\<close>)
    next
      case (entry parts v u sts')
      note first = this
      from less.prems(2) [unfolded Cons] show ?thesis
      proof (cases rule: parse_cases)
        case (entry parts2 v2 u2 sts2')
        then have "parts2 = parts" "v2 = v" "u2 = u" using first(3) by simp_all
        with ih [OF first(5)] entry(5,6) first(6) show ?thesis by simp
      qed (use first in \<open>simp_all\<close>)
    qed
  qed
qed


subsection \<open>A line for the new key\<close>

definition blank_line :: "string \<Rightarrow> bool" where
  "blank_line l \<longleftrightarrow> blank_start (line_start l [])"

lemma parse_blanks:
  "\<forall>l \<in> set ls. blank_line l \<Longrightarrow>
     parse_lines li (ls @ post) table tables keys = parse_lines (li + length ls) post table tables keys"
proof (induction ls arbitrary: li)
  case (Cons l ls)
  then have "blank_start (line_start l (ls @ post))" using blank_start_rest [of l "ls @ post" "[]"] by (simp add: blank_line_def)
  with Cons show ?case by (simp add: parse_blank)
qed simp

lemma parse_nil: "parse_lines li ls table tables keys = Inr [] \<Longrightarrow> \<forall>l \<in> set ls. blank_line l"
proof (induction ls arbitrary: li)
  case (Cons l ls)
  from Cons.prems show ?case
  proof (cases rule: parse_cases)
    case blank
    with Cons.IH [OF blank(2)] show ?thesis using blank_start_rest [of l ls "[]"] by (simp add: blank_line_def)
  qed auto
qed simp

lemma bare_char_plain: "bare_char c \<Longrightarrow> \<not> blank c \<and> c \<noteq> dquote \<and> c \<noteq> squote \<and> c \<noteq> CHR ''#'' \<and> c \<noteq> CHR ''[''"
  by (auto simp: bare_char_def blank_def tab_def creturn_def dquote_def squote_def is_digit_def is_upper_def is_lower_def byte_def)

lemma key_part_bare:
  assumes "bare_key p" "ts_text s = p @ x" "x = [] \<or> \<not> bare_char (hd x)"
  shows "skip_space s = s" "key_part s = Inr (p, s\<lparr>ts_text := x\<rparr>)" "ts_peek s = hd p"
proof -
  obtain c q where p: "p = c # q" "bare_char c" "\<forall>c \<in> set p. bare_char c"
    using assms(1) by (cases p) (auto simp: bare_key_def list_all_iff)
  show peek: "ts_peek s = hd p" using assms(2) p(1) by (simp add: ts_peek_def)
  have "dropWhile blank (ts_text s) = ts_text s" using assms(2) p bare_char_plain by simp
  then show "skip_space s = s" by (simp add: skip_space_def)
  have "takeWhile bare_char (p @ x) = p" using p(3) assms(3) by (cases x) (auto simp: takeWhile_append2)
  then show "key_part s = Inr (p, s\<lparr>ts_text := x\<rparr>)"
    using p bare_char_plain [OF p(2)] peek assms(2) by (simp add: key_part_def Let_def ts_skip_def)
qed

lemma dot_not_bare: "\<not> bare_char CHR ''.''" "\<not> bare_char CHR '' ''" "\<not> bare_char CHR '']''"
  by (simp_all add: bare_char_def is_digit_def is_upper_def is_lower_def byte_def)

lemma toml_key_join:
  "ps \<noteq> [] \<Longrightarrow> \<forall>p \<in> set ps. bare_key p \<Longrightarrow> ts_text s = join ''.'' ps @ x \<Longrightarrow>
     x \<noteq> [] \<Longrightarrow> \<not> bare_char (hd x) \<Longrightarrow> \<not> blank (hd x) \<Longrightarrow> hd x \<noteq> CHR ''.'' \<Longrightarrow> toml_key s = Inr (ps, s\<lparr>ts_text := x\<rparr>)"
proof (induction ps arbitrary: s)
  case (Cons p ps)
  define y where "y = (if ps = [] then x else CHR ''.'' # join ''.'' ps @ x)"
  have spelled: "ts_text s = p @ y" using Cons.prems(3) by (cases ps) (auto simp: y_def)
  have y: "y \<noteq> []" "\<not> bare_char (hd y)" "\<not> blank (hd y)"
    using Cons.prems(4-6) dot_not_bare by (auto simp: y_def blank_def tab_def creturn_def)
  then have dw: "dropWhile blank y = y" by (cases y) auto
  have bare: "bare_key p" using Cons.prems(2) by simp
  note part = key_part_bare [OF bare spelled disjI2 [OF y(2)]]
  show ?case
  proof (cases "ps = []")
    case True
    then have "y = x" by (simp add: y_def)
    with Cons.prems(4,7) show ?thesis
      by (subst toml_key.simps) (use part dw True in \<open>auto simp: Let_def skip_space_def ts_peek_def split: list.splits\<close>)
  next
    case False
    then have y': "y = CHR ''.'' # join ''.'' ps @ x" by (simp add: y_def)
    have "toml_key (s\<lparr>ts_text := join ''.'' ps @ x\<rparr>) = Inr (ps, s\<lparr>ts_text := x\<rparr>)"
      using Cons.IH [OF False, of "s\<lparr>ts_text := join ''.'' ps @ x\<rparr>"] Cons.prems by simp
    then show ?thesis
      by (subst toml_key.simps) (use part dw y' in \<open>auto simp: Let_def skip_space_def ts_peek_def ts_skip_def\<close>)
  qed
qed simp

definition line_eol :: "string \<Rightarrow> bool" where
  "line_eol eol \<longleftrightarrow> eol = [] \<or> eol = [creturn]"

lemma line_eol_blank: "line_eol eol \<Longrightarrow> dropWhile blank eol = []"
  by (auto simp: line_eol_def blank_def)

definition added_line :: "string \<Rightarrow> string \<Rightarrow> string \<Rightarrow> string" where
  "added_line key lit eol = key @ '' = '' @ lit @ eol"

lemma added_entry:
  assumes key: "bare_key key" and lit: "value_literal lit" and eol: "line_eol eol"
  shows "\<not> blank_start (line_start (added_line key lit eol) post)"
    "ts_peek (line_start (added_line key lit eol) post) \<noteq> CHR ''[''"
    "read_entry (line_start (added_line key lit eol) post) =
      Inr ([key], \<lparr>ts_li = 0, ts_text = lit @ eol, ts_rest = post\<rparr>, \<lparr>ts_li = 0, ts_text = eol, ts_rest = post\<rparr>)"
proof -
  define s where "s = \<lparr>ts_li = 0, ts_text = added_line key lit eol, ts_rest = post\<rparr>"
  define x where "x = '' = '' @ lit @ eol"
  have spelled: "ts_text s = key @ x" by (simp add: s_def x_def added_line_def)
  have x: "x = [] \<or> \<not> bare_char (hd x)" by (simp add: x_def dot_not_bare)
  note part = key_part_bare [OF key spelled x]
  have start: "line_start (added_line key lit eol) post = s" using part(1) by (simp add: s_def)
  obtain c q where "key = c # q" "bare_char c" using key by (cases key) (auto simp: bare_key_def)
  then have c: "hd key \<noteq> CHR ''#''" "hd key \<noteq> CHR ''[''" "ts_text s \<noteq> []" using bare_char_plain by (auto simp: spelled)
  then show "\<not> blank_start (line_start (added_line key lit eol) post)"
    "ts_peek (line_start (added_line key lit eol) post) \<noteq> CHR ''[''"
    unfolding start blank_start_def ts_end_def part(3) by simp_all
  define u where "u = \<lparr>ts_li = 0, ts_text = eol, ts_rest = post\<rparr>"
  define v where "v = u\<lparr>ts_text := lit @ ts_text u\<rparr>"
  have val: "scan_toml v = Inr u"
    unfolding v_def by (rule value_literal_reads [OF lit]) (use eol in \<open>auto simp: u_def line_eol_def bare_stop_def blank_def\<close>)
  have sp: "blank CHR '' ''" "\<not> blank CHR ''=''" by (simp_all add: blank_def tab_def creturn_def)
  have v': "skip_space v = v" using scan_toml_begins [OF val]
    by (cases "ts_text v") (auto simp: skip_space_def bare_stop_def)
  have "toml_key s = Inr ([key], s\<lparr>ts_text := ''= '' @ lit @ eol\<rparr>)"
    by (subst toml_key.simps) (use part sp in \<open>simp add: Let_def x_def skip_space_def ts_peek_def\<close>)
  moreover have "skip_space (s\<lparr>ts_text := ''= '' @ lit @ eol\<rparr>) = s\<lparr>ts_text := ''= '' @ lit @ eol\<rparr>"
    using sp by (simp add: skip_space_def)
  moreover have "skip_space (s\<lparr>ts_text := '' '' @ lit @ eol\<rparr>) = v"
  proof -
    have "skip_space (s\<lparr>ts_text := '' '' @ lit @ eol\<rparr>) = skip_space v"
      using sp by (simp add: skip_space_def v_def u_def s_def)
    with v' show ?thesis by simp
  qed
  ultimately have "key_equals [key] s v"
    by (simp add: key_equals_def ts_peek_def ts_skip_def)
  moreover have "line_over u" using line_eol_blank [OF eol] by (simp add: line_over_def u_def)
  ultimately show "read_entry (line_start (added_line key lit eol) post) =
      Inr ([key], \<lparr>ts_li = 0, ts_text = lit @ eol, ts_rest = post\<rparr>, \<lparr>ts_li = 0, ts_text = eol, ts_rest = post\<rparr>)"
    using val unfolding start by (simp add: read_entry_iff v_def u_def)
qed

abbreviation added_stmt :: "string \<Rightarrow> string \<Rightarrow> string \<Rightarrow> nat \<Rightarrow> toml_stmt" where
  "added_stmt table key lit li \<equiv> entry_stmt table key li li (length key + 3) (length key + 3 + length lit)"

lemma parse_added:
  assumes key: "bare_key key" and lit: "value_literal lit" and eol: "line_eol eol"
    and parse: "parse_lines li (added_line key lit eol # post) table tables keys = Inr zs"
  shows "\<exists>zs' keys'. zs = added_stmt table key lit li # zs' \<and> parse_lines (li + 1) post table tables keys' = Inr zs'"
  using parse
proof (cases rule: parse_cases)
  case (entry parts v u sts')
  with added_entry(3) [OF key lit eol] show ?thesis by (auto simp: added_line_def)
qed (use added_entry [OF key lit eol] in simp_all)

lemma added_text: "stmt_text (p @ added_line key lit eol # q) (added_stmt table key lit (length p)) = trim_space lit"
  by (simp add: stmt_text_def text_at_def added_line_def numeral_3_eq_3)


subsection \<open>A key that is missing\<close>

text \<open>What the three places a new line can go have in common.\<close>

definition key_added :: "config_toml \<Rightarrow> config_toml \<Rightarrow> string \<Rightarrow> string \<Rightarrow> string \<Rightarrow> bool" where
  "key_added c c' table key lit \<longleftrightarrow>
     (\<exists>es1 es2. file_entries (ct_lines c) (ct_stmts c) = es1 @ es2 \<and>
       file_entries (ct_lines c') (ct_stmts c') = es1 @ ((table, key), trim_space lit) # es2)"

text \<open>Below a statement of the table.\<close>

lemma added_below_stmt:
  assumes p: "parse_lines 0 ls [] [] [] = Inr (xs @ st # ys)" and key: "bare_key key" and lit: "value_literal lit"
    and eol: "line_eol eol"
    and p': "parse_lines 0 (take (st_last st + 1) ls @ added_line key lit eol # drop (st_last st + 1) ls) [] [] [] = Inr sts'"
  shows "key_added (config_toml.make ls (xs @ st # ys))
    (config_toml.make (take (st_last st + 1) ls @ added_line key lit eol # drop (st_last st + 1) ls) sts') (st_table st) key lit"
proof -
  define n where "n = st_last st + 1"
  define new where "new = added_line key lit eol"
  obtain tables' keys' where split: "n \<le> length ls"
    "\<And>post. parse_lines 0 (take n ls @ post) [] [] [] = map_sum id ((@) (xs @ [st])) (parse_lines n post (st_table st) tables' keys')"
    "parse_lines n (drop n ls) (st_table st) tables' keys' = Inr ys"
    using parse_split [OF p] by (auto simp: n_def Let_def)
  from p' [folded n_def] split(2) obtain zs where zs: "sts' = xs @ st # zs"
    "parse_lines n (new # drop n ls) (st_table st) tables' keys' = Inr zs"
    unfolding new_def [symmetric] by (cases "parse_lines n (new # drop n ls) (st_table st) tables' keys'") auto
  obtain zs' keys'' where zs': "zs = added_stmt (st_table st) key lit n # zs'"
    "parse_lines (n + 1) (drop n ls) (st_table st) tables' keys'' = Inr zs'"
    using parse_added [OF key lit eol zs(2) [unfolded new_def]] by blast
  have "zs' = map (move_stmt n (n + 1)) ys" by (rule parse_same [OF zs'(2) parse_moved [OF split(3)]])
  with zs zs' have sts': "sts' = (xs @ [st]) @ added_stmt (st_table st) key lit n # map (move_stmt n (n + 1)) ys" by simp
  note order = parse_in_order [OF p]
  have len: "length (take n ls) = n" "length (take n ls @ [new]) = n + 1" using split(1) by simp_all
  have above: "file_entries (take n ls @ new # drop n ls) (xs @ [st]) = file_entries (take n ls @ drop n ls) (xs @ [st])"
  proof (rule entries_above)
    have "\<forall>x \<in> set (xs @ [st]). st_first x \<le> st_last x \<and> st_last x < n"
      using order by (fastforce simp: sorted_wrt_append n_def)
    then show "\<forall>x \<in> set (xs @ [st]). st_first x \<le> st_last x \<and> st_last x < length (take n ls)" unfolding len .
  qed
  have "file_entries ((take n ls @ [new]) @ drop n ls) (map (move_stmt (length (take n ls)) (length (take n ls @ [new]))) ys) =
      file_entries (take n ls @ drop n ls) ys"
    by (rule entries_below) (use order len in \<open>auto simp: sorted_wrt_append n_def\<close>)
  then have below: "file_entries (take n ls @ new # drop n ls) (map (move_stmt n (n + 1)) ys) = file_entries ls ys"
    unfolding len by simp
  have "stmt_text (take n ls @ new # drop n ls) (added_stmt (st_table st) key lit n) = trim_space lit"
    using added_text [of "take n ls" key lit eol "drop n ls" "st_table st"] unfolding len(1) new_def .
  then have "file_entries (take n ls @ new # drop n ls) sts' =
      file_entries ls (xs @ [st]) @ ((st_table st, key), trim_space lit) # file_entries ls ys"
    using above below by (simp add: sts')
  then show ?thesis
    unfolding key_added_def n_def [symmetric] new_def [symmetric]
    by (intro exI [of _ "file_entries ls (xs @ [st])"] exI [of _ "file_entries ls ys"]) (simp add: config_toml.make_def)
qed

text \<open>Above everything.\<close>

lemma added_at_top:
  assumes p: "parse_lines 0 ls [] [] [] = Inr sts" and key: "bare_key key" and lit: "value_literal lit"
    and eol: "line_eol eol" and blanks: "\<forall>l \<in> set bs. blank_line l"
    and p': "parse_lines 0 (added_line key lit eol # bs @ ls) [] [] [] = Inr sts'"
  shows "key_added (config_toml.make ls sts) (config_toml.make (added_line key lit eol # bs @ ls) sts') [] key lit"
proof -
  define new where "new = added_line key lit eol"
  define n where "n = length bs + 1"
  obtain zs keys' where zs: "sts' = added_stmt [] key lit 0 # zs" "parse_lines (0 + 1) (bs @ ls) [] [] keys' = Inr zs"
    using parse_added [OF key lit eol p'] by blast
  then have "parse_lines n ls [] [] keys' = Inr zs" by (simp add: parse_blanks [OF blanks] n_def)
  then have zs': "zs = map (move_stmt 0 n) sts" by (rule parse_same [OF _ parse_moved [OF p]])
  have "\<forall>st \<in> set sts. length ([] :: string list) \<le> st_first st \<and> st_first st \<le> st_last st"
    using parse_in_order [OF p] by simp
  from entries_below [OF this, of "new # bs" ls] have below: "file_entries (new # bs @ ls) (map (move_stmt 0 n) sts) = file_entries ls sts" by (simp add: n_def)
  have "stmt_text (new # bs @ ls) (added_stmt [] key lit 0) = trim_space lit"
    using added_text [of "[]" key lit eol "bs @ ls" "[]"] by (simp add: new_def)
  with below show ?thesis
    unfolding key_added_def new_def [symmetric]
    by (intro exI [of _ "[]"] exI [of _ "file_entries ls sts"]) (simp add: config_toml.make_def zs(1) zs')
qed

text \<open>In a new table below everything.\<close>

lemma read_bare_header:
  assumes "ps \<noteq> []" "\<forall>p \<in> set ps. bare_key p" "line_eol eol"
  shows "\<not> blank_start (line_start (''['' @ join ''.'' ps @ '']'' @ eol) post)"
    "ts_peek (line_start (''['' @ join ''.'' ps @ '']'' @ eol) post) = CHR ''[''"
    "read_header (line_start (''['' @ join ''.'' ps @ '']'' @ eol) post) = Inr (ps, False)"
proof -
  define s where "s = \<lparr>ts_li = 0, ts_text = ''['' @ join ''.'' ps @ '']'' @ eol, ts_rest = post\<rparr>"
  have nb: "\<not> blank CHR ''[''" "\<not> blank CHR '']''" by (simp_all add: blank_def tab_def creturn_def)
  then have start: "line_start (''['' @ join ''.'' ps @ '']'' @ eol) post = s" by (simp add: s_def skip_space_def)
  show "\<not> blank_start (line_start (''['' @ join ''.'' ps @ '']'' @ eol) post)"
    "ts_peek (line_start (''['' @ join ''.'' ps @ '']'' @ eol) post) = CHR ''[''"
    unfolding start by (simp_all add: s_def blank_start_def ts_end_def ts_peek_def)
  define t where "t = ts_skip 1 s"
  obtain p qs where ps: "ps = p # qs" using assms(1) by (cases ps) auto
  obtain d q where p: "p = d # q" "bare_char d" using assms(2) ps by (cases p) (auto simp: bare_key_def)
  have "ts_peek t = d" using ps p by (cases qs) (simp_all add: t_def s_def ts_skip_def ts_peek_def)
  then have no: "ts_peek t \<noteq> CHR ''[''" using bare_char_plain [OF p(2)] by simp
  have key: "toml_key t = Inr (ps, t\<lparr>ts_text := '']'' @ eol\<rparr>)"
    by (rule toml_key_join [OF assms(1,2)]) (simp_all add: t_def s_def ts_skip_def dot_not_bare nb)
  have "\<exists>w. end_of_line (t\<lparr>ts_text := eol\<rparr>) = Inr w"
    unfolding end_of_line_iff using line_eol_blank [OF assms(3)] by (simp add: line_over_def)
  then obtain w where w: "end_of_line (t\<lparr>ts_text := eol\<rparr>) = Inr w" by blast
  have closing: "skip_space (t\<lparr>ts_text := '']'' @ eol\<rparr>) = t\<lparr>ts_text := '']'' @ eol\<rparr>"
    "has_prefix (ts_text (t\<lparr>ts_text := '']'' @ eol\<rparr>)) '']''"
    "ts_skip (length '']'') (t\<lparr>ts_text := '']'' @ eol\<rparr>) = t\<lparr>ts_text := eol\<rparr>"
    using nb(2) by (simp_all add: skip_space_def has_prefix_def ts_skip_def)
  have "read_header s = Inr (ps, False)"
    unfolding read_header_def Let_def t_def [symmetric] by (simp only: no key closing w if_False sum.case prod.case simp_thms)
  then show "read_header (line_start (''['' @ join ''.'' ps @ '']'' @ eol) post) = Inr (ps, False)" unfolding start .
qed


lemma parse_whole:
  assumes p: "parse_lines 0 ls [] [] [] = Inr sts"
  shows "\<exists>n table tables keys. n \<le> length ls \<and> (n = 0 \<or> ls ! (n - 1) \<noteq> []) \<and> (\<forall>l \<in> set (drop n ls). blank_line l) \<and>
    (\<forall>st \<in> set sts. st_first st \<le> st_last st \<and> st_last st < n) \<and>
    (\<forall>post. parse_lines 0 (take n ls @ post) [] [] [] = map_sum id ((@) sts) (parse_lines n post table tables keys))"
proof (cases sts rule: rev_cases)
  case Nil
  have "map_sum id ((@) []) r = r" for r :: "toml_stmt list scanned" by (cases r) simp_all
  with Nil parse_nil [of 0 ls "[]" "[]" "[]"] p show ?thesis by (intro exI [of _ 0] exI [of _ "[]"]) auto
next
  case (snoc xs st)
  obtain tables keys where split: "st_last st + 1 \<le> length ls" "ls ! (st_last st + 1 - 1) \<noteq> []"
    "\<And>post. parse_lines 0 (take (st_last st + 1) ls @ post) [] [] [] =
      map_sum id ((@) (xs @ [st])) (parse_lines (st_last st + 1) post (st_table st) tables keys)"
    "parse_lines (st_last st + 1) (drop (st_last st + 1) ls) (st_table st) tables keys = Inr []"
    using parse_split [of 0 ls "[]" "[]" "[]" xs st "[]"] p snoc by (auto simp: Let_def)
  have "\<forall>x \<in> set sts. st_first x \<le> st_last x \<and> st_last x < st_last st + 1"
    using parse_in_order [OF p] snoc by (fastforce simp: sorted_wrt_append)
  with split parse_nil [OF split(4)] snoc show ?thesis
    by (intro exI [of _ "st_last st + 1"] exI [of _ "st_table st"]) auto
qed

lemma added_at_end:
  assumes p: "parse_lines 0 ls [] [] [] = Inr sts" and ls: "ls \<noteq> []" and key: "bare_key key" and lit: "value_literal lit"
    and eol: "line_eol eol" and blanks: "\<forall>l \<in> set bs. blank_line l" and table: "ps \<noteq> []" "\<forall>p \<in> set ps. bare_key p"
    and ls0: "ls0 = (if last ls = [] then butlast ls else ls)"
    and ls': "ls' = ls0 @ bs @ [''['' @ join ''.'' ps @ '']'' @ eol, added_line key lit eol, []]"
    and p': "parse_lines 0 ls' [] [] [] = Inr sts'"
  shows "key_added (config_toml.make ls sts) (config_toml.make ls' sts') (join ''.'' ps) key lit"
proof -
  obtain n table tables keys where whole: "n \<le> length ls" "n = 0 \<or> ls ! (n - 1) \<noteq> []" "\<forall>l \<in> set (drop n ls). blank_line l"
    "\<forall>st \<in> set sts. st_first st \<le> st_last st \<and> st_last st < n"
    "\<And>post. parse_lines 0 (take n ls @ post) [] [] [] = map_sum id ((@) sts) (parse_lines n post table tables keys)"
    using parse_whole [OF p] by blast
  define r where "r = drop n ls0"
  have n: "n \<le> length ls0"
  proof (cases "last ls = []")
    case True
    then have "n \<noteq> length ls" using whole(2) ls by (auto simp: last_conv_nth)
    with True whole(1) show ?thesis by (simp add: ls0)
  qed (use whole(1) in \<open>simp add: ls0\<close>)
  have take: "take n ls0 = take n ls" using n by (auto simp: ls0 butlast_conv_take)
  then have "ls0 = take n ls @ r" by (simp add: r_def) (metis append_take_drop_id)
  have "\<forall>l \<in> set r. blank_line l" using whole(3) by (auto simp: r_def ls0 drop_butlast dest: in_set_butlastD split: if_splits)
  with blanks have rb: "\<forall>l \<in> set (r @ bs). blank_line l" by auto
  define header where "header = ''['' @ join ''.'' ps @ '']'' @ eol"
  define new where "new = added_line key lit eol"
  define m where "m = n + length (r @ bs)"
  have lines: "ls' = take n ls @ (r @ bs) @ [header, new, []]"
    using \<open>ls0 = take n ls @ r\<close> by (simp add: ls' header_def new_def)
  obtain zs where zs: "sts' = sts @ zs" "parse_lines m [header, new, []] table tables keys = Inr zs"
    using p' unfolding lines whole(5) parse_blanks [OF rb] m_def [symmetric]
    by (cases "parse_lines m [header, new, []] table tables keys") auto
  from zs(2) obtain zs' tables' where zs': "zs = header_stmt (join ''.'' ps) False m # zs'"
    "parse_lines (m + 1) [new, []] (join ''.'' ps) tables' keys = Inr zs'"
  proof (cases rule: parse_cases)
    case (header parts is_array sts')
    then have "parts = ps" "\<not> is_array" using read_bare_header(3) [OF table eol] by (auto simp: header_def)
    with header that show ?thesis by (simp add: table_name_def)
  qed (use read_bare_header [OF table eol] in \<open>simp_all add: header_def\<close>)
  obtain zs'' keys' where zs'': "zs' = added_stmt (join ''.'' ps) key lit (m + 1) # zs''"
    "parse_lines (m + 1 + 1) [[]] (join ''.'' ps) tables' keys' = Inr zs''"
    using parse_added [OF key lit eol zs'(2) [unfolded new_def]] by blast
  have "blank_line []" by (simp add: blank_line_def blank_start_def ts_end_def skip_space_def)
  then have "zs'' = []"
    using zs''(2) parse_blanks [of "[[]]" "m + 1 + 1" "[]" "join ''.'' ps" tables' keys'] by (simp add: parse_lines.simps(1))
  have len: "length ((take n ls @ r @ bs) @ [header]) = m + 1" using whole(1) by (simp add: m_def)
  have "stmt_text ls' (added_stmt (join ''.'' ps) key lit (m + 1)) = trim_space lit"
    using added_text [of "(take n ls @ r @ bs) @ [header]" key lit eol "[[]]" "join ''.'' ps"]
    unfolding len by (simp add: lines new_def)
  moreover have "file_entries (take n ls @ (r @ bs) @ [header, new, []]) sts = file_entries (take n ls @ drop n ls) sts"
    by (rule entries_above) (use whole(1,4) in simp)
  then have "file_entries ls' sts = file_entries ls sts" by (simp add: lines)
  ultimately show ?thesis
    unfolding key_added_def
    by (intro exI [of _ "file_entries ls sts"] exI [of _ "[]"]) (simp add: config_toml.make_def zs(1) zs'(1) zs''(1) \<open>zs'' = []\<close>)
qed


text \<open>Where \<open>Set\<close> puts the line.\<close>

lemma last_of_table_stmt:
  assumes "last_of_table sts table = Some a"
  shows "\<exists>st \<in> set sts. st_table st = table \<and> st_last st = a"
proof -
  define step where "step = (\<lambda>after (st :: toml_stmt). if st_table st = table \<and> \<not> st_array st \<and>
         (case after of None \<Rightarrow> True | Some a \<Rightarrow> a < st_last st) then Some (st_last st) else after)"
  have "foldl step acc sts = Some a \<Longrightarrow> acc = Some a \<or> (\<exists>st \<in> set sts. st_table st = table \<and> st_last st = a)" for acc
  proof (induction sts arbitrary: acc)
    case (Cons st sts)
    from Cons.prems Cons.IH [of "step acc st"] show ?case by (auto simp: step_def split: if_splits)
  qed simp
  from this [of None] assms show ?thesis by (simp add: last_of_table_def step_def)
qed

lemma line_end_eol: "line_eol (line_end c)"
  by (simp add: line_eol_def line_end_def)

lemma join_snoc: "ls \<noteq> [] \<Longrightarrow> join sep (ls @ [x]) = join sep ls @ sep @ x"
proof (induction ls)
  case (Cons l ls)
  then show ?case by (cases ls) (simp_all add: join_Cons)
qed simp

lemma join_lines: "ls \<noteq> [] \<Longrightarrow> ms \<noteq> [] \<Longrightarrow> join sep (ls @ ms) = join sep ls @ sep @ join sep ms"
proof (induction ls)
  case (Cons l ls)
  then show ?case by (cases ls) (simp_all add: join_Cons)
qed simp

lemma has_suffix_snoc [simp]: "has_suffix (s @ [c]) [c]"
  by (simp add: has_suffix_def has_prefix_def)

lemma add_table_root:
  assumes "ct_lines c = split_on CHR 0x0A txt"
  shows "\<exists>bs. (\<forall>l \<in> set bs. blank_line l) \<and> (\<forall>l \<in> set bs. CHR 0x0A \<notin> set l) \<and>
    add_table c [] new = join [CHR 0x0A] (new # bs @ ct_lines c)"
proof -
  have whole: "join [CHR 0x0A] (ct_lines c) = txt" "ct_lines c \<noteq> []" by (simp_all add: assms)
  have blank: "blank_line []" by (simp add: blank_line_def blank_start_def ts_end_def skip_space_def)
  consider (empty) "txt = []" | (line) "txt \<noteq> []" "trim_space (ct_lines c ! 0) \<noteq> []"
    | (none) "txt \<noteq> []" "trim_space (ct_lines c ! 0) = []" by blast
  then show ?thesis
  proof cases
    case empty
    then have "ct_lines c = [[]]" by (simp add: assms)
    with empty whole show ?thesis by (intro exI [of _ "[]"]) (simp add: add_table_def Let_def)
  next
    case line
    with whole blank show ?thesis by (intro exI [of _ "[[]]"]) (simp add: add_table_def Let_def join_Cons)
  next
    case none
    with whole show ?thesis by (intro exI [of _ "[]"]) (simp add: add_table_def Let_def join_Cons)
  qed
qed

lemma add_table_end:
  assumes lines: "ct_lines c = split_on CHR 0x0A txt" and table: "table \<noteq> []"
  shows "\<exists>bs. (\<forall>l \<in> set bs. blank_line l) \<and> (\<forall>l \<in> set bs. CHR 0x0A \<notin> set l) \<and>
    add_table c table new = join [CHR 0x0A] ((if last (ct_lines c) = [] then butlast (ct_lines c) else ct_lines c) @ bs @
      [''['' @ table @ '']'' @ line_end c, new, []])"
proof -
  define ls where "ls = ct_lines c"
  define h where "h = ''['' @ table @ '']'' @ line_end c"
  have whole: "join [CHR 0x0A] ls = txt" "ls \<noteq> []" by (simp_all add: lines ls_def)
  show ?thesis
  proof (cases "txt = []")
    case True
    then have "ls = [[]]" by (simp add: lines ls_def)
    with True whole table show ?thesis
      by (intro exI [of _ "[]"]) (simp add: add_table_def Let_def ls_def [symmetric])
  next
    case False
    define ls0 where "ls0 = (if last ls = [] then butlast ls else ls)"
    define txt' where "txt' = (if has_suffix txt [CHR 0x0A] then txt else txt @ [CHR 0x0A])"
    have ls0: "ls0 \<noteq> [] \<and> txt' = join [CHR 0x0A] ls0 @ [CHR 0x0A]"
    proof (cases "last ls = []")
      case True
      then have ls: "ls = butlast ls @ [[]]" using whole(2) by (metis append_butlast_last_id)
      moreover from this have "butlast ls \<noteq> []" using False whole(1) by (metis append_Nil join.simps(2))
      ultimately have "txt = join [CHR 0x0A] (butlast ls) @ [CHR 0x0A]"
        using join_snoc [of "butlast ls" "[CHR 0x0A]" "[]"] whole(1) by simp
      with True \<open>butlast ls \<noteq> []\<close> show ?thesis by (simp add: ls0_def txt'_def)
    next
      case no: False
      have ls: "ls = butlast ls @ [last ls]" using whole(2) by simp
      have "last (last ls) \<noteq> CHR 0x0A" using last_in_set [OF no] split_on_no_sep [of "last ls" "CHR 0x0A" "txt"] whole(2)
        by (metis last_in_set lines ls_def)
      moreover have "txt = (if butlast ls = [] then [] else join [CHR 0x0A] (butlast ls) @ [CHR 0x0A]) @ last ls"
        using whole(1) join_snoc [of "butlast ls" "[CHR 0x0A]" "last ls"] ls
        by (cases "butlast ls = []") (metis append_Nil join.simps(2), simp)
      then have "last txt = last (last ls)" using no by simp
      ultimately have "\<not> has_suffix txt [CHR 0x0A]"
        using no False
        by (cases "txt" rule: rev_cases) (auto simp: has_suffix_def has_prefix_def)
      with no whole show ?thesis by (simp add: ls0_def txt'_def)
    qed
    define b where "b \<longleftrightarrow> trim_space (drop (case last_index_byte (trim_suffix txt' [CHR 0x0A]) (CHR 0x0A) of None \<Rightarrow> 0 | Some i \<Rightarrow> i + 1)
        (trim_suffix txt' [CHR 0x0A])) \<noteq> []"
    define bs where "bs = (if b then [line_end c] else [])"
    have "add_table c table new = txt' @ (if b then line_end c @ [CHR 0x0A] else []) @ h @ [CHR 0x0A] @ new @ [CHR 0x0A]"
      using False table whole(1) by (simp add: add_table_def Let_def ls_def [symmetric] txt'_def b_def h_def)
    also have "\<dots> = join [CHR 0x0A] (ls0 @ bs @ [h, new, []])"
      using ls0 join_lines [of ls0 "bs @ [h, new, []]" "[CHR 0x0A]"] by (simp add: bs_def join_Cons)
    finally have "add_table c table new = join [CHR 0x0A] (ls0 @ bs @ [h, new, []])" .
    moreover have "blank_line (line_end c)"
      using line_eol_blank [OF line_end_eol] by (simp add: blank_line_def blank_start_def ts_end_def skip_space_def)
    moreover have "CHR 0x0A \<notin> set (line_end c)" by (simp add: line_end_def creturn_def)
    ultimately show ?thesis
      by (intro exI [of _ bs]) (simp add: bs_def ls0_def ls_def h_def)
  qed
qed

text \<open>A table named without quotes.\<close>

definition bare_table :: "string \<Rightarrow> bool" where
  "bare_table table \<longleftrightarrow> table = [] \<or> list_all bare_key (split_on CHR ''.'' table)"

lemma bare_no_newline: "bare_char c \<Longrightarrow> c \<noteq> CHR 0x0A"
  by (auto simp: bare_char_def is_digit_def is_upper_def is_lower_def byte_def)

lemma bare_table_no_newline:
  assumes "bare_table table"
  shows "CHR 0x0A \<notin> set table"
proof -
  have "CHR 0x0A \<notin> set (join ''.'' ps)" if "\<forall>p \<in> set ps. bare_key p" for ps
    using that
  proof (induction ps)
    case (Cons p ps)
    then have "CHR 0x0A \<notin> set p" by (auto simp: bare_key_def list_all_iff dest: bare_no_newline)
    with Cons show ?case by (cases ps) simp_all
  qed simp
  from this [of "split_on CHR ''.'' table"] assms show ?thesis by (auto simp: bare_table_def list_all_iff)
qed

lemma set_missing:
  assumes parse: "parse_config_toml txt = Inr c" and lit: "value_literal lit" and key: "bare_key key" and table: "bare_table table"
    and missing: "find (\<lambda>st. is_entry table st \<and> st_key st = key) (ct_stmts c) = None"
    and after: "parse_config_toml (toml_set c table key lit) = Inr c'"
  shows "key_added c c' table key lit"
proof -
  define ls where "ls = ct_lines c"
  define new where "new = added_line key lit (line_end c)"
  note lines = parsed_lines [OF parse]
  have p: "parse_lines 0 ls [] [] [] = Inr (ct_stmts c)" using lines(2) by (simp add: ls_def)
  have c: "c = config_toml.make ls (ct_stmts c)" by (simp add: ls_def config_toml.make_def)
  have nl: "CHR 0x0A \<notin> set l" if "l \<in> set ls" for l
    using split_on_no_sep that lines(1) by (simp add: ls_def)
  have nl': "CHR 0x0A \<notin> set new" using key lit
    by (auto simp: new_def added_line_def value_literal_def bare_key_def list_all_iff line_end_def creturn_def dest: bare_no_newline)
  have made: "\<exists>sts'. c' = config_toml.make ls' sts' \<and> parse_lines 0 ls' [] [] [] = Inr sts'"
    if "toml_set c table key lit = join [CHR 0x0A] ls'" "ls' \<noteq> []" "\<And>l. l \<in> set ls' \<Longrightarrow> CHR 0x0A \<notin> set l" for ls'
    using after parse_joined [OF that(2,3)] that(1) by (cases "parse_lines 0 ls' [] [] []") auto
  show ?thesis
  proof (cases "last_of_table (ct_stmts c) table")
    case (Some a)
    obtain st where st: "st \<in> set (ct_stmts c)" "st_table st = table" "st_last st = a"
      using last_of_table_stmt [OF Some] by blast
    obtain xs ys where sts: "ct_stmts c = xs @ st # ys" using split_list [OF st(1)] by blast
    have "toml_set c table key lit = join [CHR 0x0A] (take (a + 1) ls @ new # drop (a + 1) ls)"
      by (simp add: toml_set_def missing Some new_def added_line_def ls_def)
    then obtain sts' where "c' = config_toml.make (take (a + 1) ls @ new # drop (a + 1) ls) sts'"
      "parse_lines 0 (take (a + 1) ls @ new # drop (a + 1) ls) [] [] [] = Inr sts'"
      using made [of "take (a + 1) ls @ new # drop (a + 1) ls"] nl nl' by (auto dest: in_set_takeD in_set_dropD)
    with added_below_stmt [OF p [unfolded sts] key lit line_end_eol [of c]] st(2,3) c sts show ?thesis
      by (simp add: new_def)
  next
    case None
    then have add: "toml_set c table key lit = add_table c table new"
      by (simp add: toml_set_def missing new_def added_line_def Let_def)
    show ?thesis
    proof (cases "table = []")
      case True
      obtain bs where bs: "\<forall>l \<in> set bs. blank_line l" "\<forall>l \<in> set bs. CHR 0x0A \<notin> set l"
        "add_table c [] new = join [CHR 0x0A] (new # bs @ ls)"
        using add_table_root [OF lines(1), of new] by (auto simp: ls_def)
      obtain sts' where "c' = config_toml.make (new # bs @ ls) sts'" "parse_lines 0 (new # bs @ ls) [] [] [] = Inr sts'"
        using made [of "new # bs @ ls"] add True bs(2,3) nl nl' by auto
      with added_at_top [OF p key lit line_end_eol bs(1)] True c show ?thesis by (simp add: new_def)
    next
      case False
      define ls0 where "ls0 = (if last ls = [] then butlast ls else ls)"
      obtain bs where bs: "\<forall>l \<in> set bs. blank_line l" "\<forall>l \<in> set bs. CHR 0x0A \<notin> set l"
        "add_table c table new = join [CHR 0x0A] (ls0 @ bs @ [''['' @ table @ '']'' @ line_end c, new, []])"
        using add_table_end [OF lines(1) False, of new] by (auto simp: ls_def ls0_def)
      define ls' where "ls' = ls0 @ bs @ [''['' @ table @ '']'' @ line_end c, new, []]"
      have "CHR 0x0A \<notin> set (''['' @ table @ '']'' @ line_end c)"
        using bare_table_no_newline [OF table] by (auto simp: line_end_def creturn_def)
      with nl nl' bs(2) have nls: "CHR 0x0A \<notin> set l" if "l \<in> set ls'" for l
        using that by (auto simp: ls'_def ls0_def dest: in_set_butlastD split: if_splits)
      have "toml_set c table key lit = join [CHR 0x0A] ls'" "ls' \<noteq> []" using add bs(3) by (simp_all add: ls'_def)
      from made [OF this nls] obtain sts' where sts': "c' = config_toml.make ls' sts'"
        "parse_lines 0 ls' [] [] [] = Inr sts'" by blast
      have ne: "ls \<noteq> []" by (simp add: ls_def lines(1))
      have parts: "split_on CHR ''.'' table \<noteq> []" "\<forall>p \<in> set (split_on CHR ''.'' table). bare_key p"
        using table False by (auto simp: bare_table_def list_all_iff)
      have "ls' = ls0 @ bs @ [''['' @ join ''.'' (split_on CHR ''.'' table) @ '']'' @ line_end c, added_line key lit (line_end c), []]"
        by (simp add: ls'_def new_def)
      from added_at_end [OF p ne key lit line_end_eol bs(1) parts ls0_def this sts'(2)] c sts'(1) show ?thesis by simp
    qed
  qed
qed

end
