(* ===== verification/TomlLiteral.thy ===== *)
theory TomlLiteral
  imports TomlInsert Utf8
begin

text \<open>
  \<^verbatim>\<open>domain/configtoml.go\<close>, the texts of values: the key a command names split into table and
  key, a value as TOML text (\<open>toml_literal\<close>) and a string read back from it
  (\<open>toml_string\<close>, with \<^verbatim>\<open>strconv.Unquote\<close> of a double-quoted text as \<open>go_unquote\<close>).
  What \<open>toml_literal\<close> makes of a value that is no TOML of its own is one value of the file, and
  reads back as that value.
\<close>

subsection \<open>The key\<close>

definition known_root_keys :: "string list" where
  "known_root_keys =
     [''age_key_file'', ''beads_backup_minutes'', ''beads_budget_bytes'', ''beads_flush_file'', ''beads_server_host'',
      ''beads_sync'', ''builder_jobs'', ''builder_nice'', ''cap'', ''deputy_model'', ''dispatch_sync_tries'',
      ''dispatch_sync_wait'', ''events_log_path'', ''gemini_model'', ''ghost_url'', ''google_client_file'',
      ''grist_key_file'', ''grist_state_dir'', ''grist_test_key_file'', ''handoff_at'', ''hands_root_helper'',
      ''home_move_bead'', ''host'', ''host_silent_hours'', ''max_attempts'', ''metered'', ''millhand_review_model'',
      ''millhand_routine_model'', ''nudge_after_minutes'', ''nudge_sync_stale_minutes'', ''postern_backend'',
      ''postern_channel'', ''postern_data'', ''postern_float_sats'', ''postern_governor_key'', ''postern_key_file'',
      ''postern_local_url'', ''postern_snapshot_path'', ''postern_transcribe_cmd'', ''postern_view_path'',
      ''postern_watchdog_target'', ''push_tries'', ''push_wait_seconds'', ''rig_memory_bytes'', ''stamps_dir'',
      ''tick_recheck_seconds'', ''vault'']"

datatype key_error = UnknownRootKey string | NotBareKey string string

definition split_config_key :: "string \<Rightarrow> (key_error, string \<times> string) result" where
  "split_config_key dotted =
     (case last_index_byte dotted (CHR ''.'') of
        None \<Rightarrow> if List.member known_root_keys dotted then Inr ([], dotted) else Inl (UnknownRootKey dotted)
      | Some i \<Rightarrow>
          let table = take i dotted; key = drop (i + 1) dotted
          in (case find (\<lambda>part. \<not> bare_key part) (split_on CHR ''.'' table @ [key]) of
                Some part \<Rightarrow> Inl (NotBareKey dotted part)
              | None \<Rightarrow> Inr (table, key)))"

subsection \<open>A value as text\<close>

definition upper_hex :: "nat \<Rightarrow> char" where
  "upper_hex d = (if d < 10 then char_of (48 + d) else char_of (55 + d))"

text \<open>A rune of a basic string: \<open>\<backslash>u%04X\<close> for a control character.\<close>

definition quote_rune :: "nat \<Rightarrow> string" where
  "quote_rune r =
     (if r = 0x5C \<or> r = 0x22 then bslash # encode_rune r
      else if r = 0x09 then [bslash, CHR ''t'']
      else if r < 0x20 \<or> r = 0x7F then [bslash, CHR ''u'', CHR ''0'', CHR ''0'', upper_hex (r div 16), upper_hex (r mod 16)]
      else encode_rune r)"

definition toml_basic_string :: "string \<Rightarrow> string" where
  "toml_basic_string s = [dquote] @ concat (map quote_rune (decode_runes s)) @ [dquote]"

text \<open>A value that spans lines has none: \<open>None\<close>.\<close>

definition toml_literal :: "string \<Rightarrow> string option" where
  "toml_literal s =
     (if contains_any s [CHR 0x0A, creturn] then None
      else let trimmed = trim_space s
           in if trimmed \<noteq> [] \<and> (List.member [dquote, squote, CHR ''['', CHR ''{''] (hd trimmed) \<or> valid_bare_value trimmed)
              then Some trimmed
              else Some (toml_basic_string s))"

subsection \<open>\<^verbatim>\<open>strconv.Unquote\<close>\<close>

definition hex_digit :: "char \<Rightarrow> nat option" where
  "hex_digit c =
     (if is_digit c then Some (byte c - 48)
      else if 97 \<le> byte c \<and> byte c \<le> 102 then Some (byte c - 87)
      else if 65 \<le> byte c \<and> byte c \<le> 70 then Some (byte c - 55)
      else None)"

text \<open>A number of so many digits a text begins with.\<close>

fun digits_of :: "(char \<Rightarrow> nat option) \<Rightarrow> nat \<Rightarrow> nat \<Rightarrow> nat \<Rightarrow> string \<Rightarrow> nat option" where
  "digits_of d base 0 acc s = Some acc"
| "digits_of d base (Suc n) acc [] = None"
| "digits_of d base (Suc n) acc (c # s) =
     (case d c of None \<Rightarrow> None | Some x \<Rightarrow> digits_of d base n (acc * base + x) s)"

definition octal_digit :: "char \<Rightarrow> nat option" where
  "octal_digit c = (if CHR ''0'' \<le> c \<and> c \<le> CHR ''7'' then Some (byte c - 48) else None)"

definition valid_rune :: "nat \<Rightarrow> bool" where
  "valid_rune v \<longleftrightarrow> v < 0xD800 \<or> 0xE000 \<le> v \<and> v \<le> 0x10FFFF"

definition simple_escapes :: "(char \<times> nat) list" where
  "simple_escapes =
     [(CHR ''a'', 7), (CHR ''b'', 8), (CHR ''f'', 12), (CHR ''n'', 10), (CHR ''r'', 13), (CHR ''t'', 9), (CHR ''v'', 11),
      (bslash, 0x5C), (dquote, 0x22)]"

text \<open>\<open>strconv.UnquoteChar\<close> before a double quote: the bytes appended, and how many bytes it read.\<close>

definition unquote_char :: "string \<Rightarrow> (string \<times> nat) option" where
  "unquote_char s =
     (case s of
        [] \<Rightarrow> None
      | c # t \<Rightarrow>
          if c = dquote then None
          else if 0x80 \<le> byte c then
            (let w = rune_width s in if w = 0 then Some (encode_rune 0xFFFD, 1) else Some (encode_rune (rune_value s w), w))
          else if c \<noteq> bslash then Some ([c], 1)
          else (case t of
                  [] \<Rightarrow> None
                | e # u \<Rightarrow>
                    (case map_of simple_escapes e of
                       Some v \<Rightarrow> Some ([char_of v], 2)
                     | None \<Rightarrow>
                         if e = CHR ''x'' then
                           map_option (\<lambda>v. ([char_of v], 4)) (digits_of hex_digit 16 2 0 u)
                         else if e = CHR ''u'' \<or> e = CHR ''U'' then
                           (let n = (if e = CHR ''u'' then 4 else 8)
                            in case digits_of hex_digit 16 n 0 u of
                                 None \<Rightarrow> None
                               | Some v \<Rightarrow> if valid_rune v then Some (encode_rune v, n + 2) else None)
                         else (case digits_of octal_digit 8 3 0 t of
                                 None \<Rightarrow> None
                               | Some v \<Rightarrow> if 255 < v then None else Some ([char_of v], 4)))))"

lemma unquote_char_positive: "unquote_char s = Some (out, n) \<Longrightarrow> 0 < n"
  by (auto simp: unquote_char_def Let_def split: list.splits if_splits option.splits)

text \<open>The escapes of a text up to its closing quote, which must end it.\<close>

function unquote_from :: "string \<Rightarrow> string option" where
  "unquote_from s =
     (if s = [] then None
      else if hd s = dquote then (if tl s = [] then Some [] else None)
      else (case unquote_char s of
              None \<Rightarrow> None
            | Some (out, n) \<Rightarrow>
                if hd s = CHR 0x0A \<or> n = 0 then None
                else map_option ((@) out) (unquote_from (drop n s))))"
  by pat_completeness auto
termination by (relation "measure length") auto

declare unquote_from.simps [simp del]

text \<open>A double-quoted text; one with no escape whose content is well formed is its content.\<close>

definition go_unquote :: "string \<Rightarrow> string option" where
  "go_unquote s =
     (if length s < 2 then None
      else case index_of (tl s) [dquote] of
        None \<Rightarrow> None
      | Some e \<Rightarrow>
          let body = take e (tl s)
          in if bslash \<notin> set body \<and> CHR 0x0A \<notin> set body \<and> valid_utf8 body
             then (if drop (e + 1) (tl s) = [] then Some body else None)
             else unquote_from (tl s))"

definition toml_string :: "string \<Rightarrow> string \<times> bool" where
  "toml_string lit =
     (let d3 = [dquote, dquote, dquote]; s3 = [squote, squote, squote]; inner = drop 1 (take (length lit - 1) lit)
      in if 6 \<le> length lit \<and> (has_prefix lit d3 \<and> has_suffix lit d3 \<or> has_prefix lit s3 \<and> has_suffix lit s3)
         then (trim_prefix (drop 3 (take (length lit - 3) lit)) [CHR 0x0A], True)
         else if 2 \<le> length lit \<and> hd lit = squote \<and> last lit = squote then (inner, True)
         else if 2 \<le> length lit \<and> hd lit = dquote \<and> last lit = dquote
         then (case go_unquote lit of Some s \<Rightarrow> (s, True) | None \<Rightarrow> (inner, True))
         else (lit, False))"

definition same_toml_value :: "string \<Rightarrow> string \<Rightarrow> bool" where
  "same_toml_value a b \<longleftrightarrow> toml_string a = toml_string b"


subsection \<open>A bare value is of plain characters\<close>

definition value_char :: "char \<Rightarrow> bool" where
  "value_char c \<longleftrightarrow> is_digit c \<or> is_upper c \<or> is_lower c \<or> List.member ''+-_.:'' c"

text \<open>\<open>t\<close> is what is left of \<open>s\<close> after characters of bare values.\<close>

definition bare_rest :: "string \<Rightarrow> string \<Rightarrow> bool" where
  "bare_rest s t \<longleftrightarrow> (\<exists>p. s = p @ t \<and> list_all value_char p)"

lemma bare_rest_refl: "bare_rest s s"
  by (simp add: bare_rest_def)

lemma bare_rest_trans: "bare_rest s t \<Longrightarrow> bare_rest t u \<Longrightarrow> bare_rest s u"
  unfolding bare_rest_def by (metis append.assoc list_all_append)

lemma bare_rest_Cons: "value_char c \<Longrightarrow> bare_rest s t \<Longrightarrow> bare_rest (c # s) t"
  unfolding bare_rest_def by (metis append_Cons list.pred_inject(2))

lemma bare_rest_all: "bare_rest s [] \<longleftrightarrow> list_all value_char s"
  by (simp add: bare_rest_def)

lemma value_char_facts:
  "value_char CHR ''_''" "value_char CHR ''+''" "value_char CHR ''-''" "value_char CHR ''.''" "value_char CHR '':''"
  "is_digit c \<Longrightarrow> value_char c" "is_hex c \<Longrightarrow> value_char c" "is_upper c \<Longrightarrow> value_char c" "is_lower c \<Longrightarrow> value_char c"
  by (auto simp: value_char_def is_hex_def is_upper_def is_lower_def)

lemma after_run_rest: "(\<And>c. d c \<Longrightarrow> value_char c) \<Longrightarrow> bare_rest s (after_run d s)"
proof (induction d s rule: after_run.induct)
  case (2 d c s)
  show ?case
  proof (cases "\<not> d c \<and> c = CHR ''_'' \<and> s \<noteq> [] \<and> d (hd s)")
    case True
    then have "\<not> d c" by blast
    with 2 True have "bare_rest (tl s) (after_run d (tl s))" by blast
    then have "bare_rest s (after_run d (tl s))" using True 2(3) bare_rest_Cons [of "hd s" "tl s"] by simp
    with True have "bare_rest (c # s) (after_run d (tl s))" by (simp add: bare_rest_Cons value_char_facts)
    moreover have "after_run d (c # s) = after_run d (tl s)" using True by (metis after_run.simps(2))
    ultimately show ?thesis by simp
  qed (use 2 in \<open>auto simp: bare_rest_refl intro: bare_rest_Cons\<close>)
qed (simp add: bare_rest_refl)

lemma after_sign_rest: "bare_rest s (after_sign s)"
  by (cases s) (auto simp: after_sign_def bare_rest_refl intro!: bare_rest_Cons value_char_facts)

lemma after_whole_rest: "after_whole s = Some t \<Longrightarrow> bare_rest s t"
proof (cases s)
  case (Cons c u)
  have "is_digit CHR ''0''" by (simp add: is_digit_def byte_def)
  moreover assume "after_whole s = Some t"
  ultimately show ?thesis
    using Cons after_run_rest [of is_digit u]
    by (auto simp: after_whole_def value_char_facts bare_rest_refl split: if_splits intro!: bare_rest_Cons)
qed (simp add: after_whole_def)

lemma after_digits_rest:
  assumes "after_digits d s = Some t" "\<And>c. d c \<Longrightarrow> value_char c"
  shows "bare_rest s t"
proof (cases s)
  case (Cons c u)
  have "bare_rest u (after_run d u)" using assms(2) by (rule after_run_rest)
  with Cons assms show ?thesis by (auto simp: after_digits_def split: if_splits intro!: bare_rest_Cons)
qed (use assms in \<open>simp add: after_digits_def\<close>)

lemma after_fraction_rest: "after_fraction s = Some t \<Longrightarrow> bare_rest s t"
proof (cases s)
  case (Cons c u)
  assume "after_fraction s = Some t"
  then show ?thesis using Cons after_digits_rest [of is_digit u t]
    by (auto simp: after_fraction_def value_char_facts bare_rest_refl split: if_splits intro!: bare_rest_Cons)
qed (simp add: after_fraction_def bare_rest_refl)

lemma after_exponent_rest: "after_exponent s = Some t \<Longrightarrow> bare_rest s t"
proof (cases s)
  case (Cons c u)
  have e: "value_char CHR ''e''" "value_char CHR ''E''" by (simp_all add: value_char_def is_lower_def is_upper_def byte_def)
  assume "after_exponent s = Some t"
  then show ?thesis using Cons e bare_rest_trans [OF after_sign_rest after_digits_rest [of is_digit "after_sign u" t]]
    by (auto simp: after_exponent_def value_char_facts bare_rest_refl split: if_splits intro!: bare_rest_Cons)
qed (simp add: after_exponent_def bare_rest_refl)

lemma after_pattern_rest: "after_pattern ps s = Some t \<Longrightarrow> list_all value_char ps \<Longrightarrow> bare_rest s t"
  by (induction ps s rule: after_pattern.induct)
     (auto simp: value_char_facts bare_rest_refl split: if_splits intro!: bare_rest_Cons)

lemma after_subsecond_rest: "bare_rest s (after_subsecond s)"
proof -
  have "bare_rest u (dropWhile is_digit u)" for u
    by (induction u) (auto simp: value_char_facts bare_rest_refl intro: bare_rest_Cons)
  then show ?thesis by (cases s) (auto simp: after_subsecond_def value_char_facts bare_rest_refl intro!: bare_rest_Cons)
qed

lemma pattern_chars:
  "list_all value_char ''00:00:00''" "list_all value_char ''0000-00-00''"
  "list_all value_char ''+00:00''" "list_all value_char ''-00:00''"
  by (simp_all add: value_char_def is_digit_def byte_def)

lemma toml_zone_chars: "toml_zone s \<Longrightarrow> bare_rest s []"
  using after_pattern_rest [OF _ pattern_chars(3), of s "[]"] after_pattern_rest [OF _ pattern_chars(4), of s "[]"]
  by (auto simp: toml_zone_def bare_rest_all value_char_def is_upper_def is_lower_def byte_def)

lemma toml_integer_chars:
  assumes "toml_integer s"
  shows "bare_rest s []"
proof -
  have octal: "value_char c" if "CHR ''0'' \<le> c \<and> c \<le> CHR ''7''" for c
  proof -
    have "48 \<le> byte c" "byte c \<le> 55" using that by (simp_all add: less_eq_char_def byte_def)
    then show ?thesis by (simp add: value_char_def is_digit_def)
  qed
  have bits: "value_char c" if "c = CHR ''0'' \<or> c = CHR ''1''" for c
  proof -
    have "is_digit CHR ''0''" "is_digit CHR ''1''" by (simp_all add: is_digit_def byte_def)
    with that show ?thesis by (elim disjE) (simp_all only: value_char_facts)
  qed
  have two: "bare_rest s []" if "has_prefix s p" "length p = 2" "list_all value_char p" "bare_rest (drop 2 s) []" for p
  proof -
    have "take 2 s = p" using that(1,2) by (simp add: has_prefix_def)
    then have "s = p @ drop 2 s" using append_take_drop_id [of 2 s] by metis
    with that(3) have "bare_rest s (drop 2 s)" unfolding bare_rest_def by (intro exI [of _ p] conjI)
    then show ?thesis using that(4) by (rule bare_rest_trans)
  qed
  have prefixes: "list_all value_char ''0x''" "list_all value_char ''0o''" "list_all value_char ''0b''"
    by (simp_all add: value_char_def is_digit_def is_lower_def byte_def)
  consider "after_whole (after_sign s) = Some []"
    | "has_prefix s ''0x''" "after_digits is_hex (drop 2 s) = Some []"
    | "has_prefix s ''0o''" "after_digits (\<lambda>c. CHR ''0'' \<le> c \<and> c \<le> CHR ''7'') (drop 2 s) = Some []"
    | "has_prefix s ''0b''" "after_digits (\<lambda>c. c = CHR ''0'' \<or> c = CHR ''1'') (drop 2 s) = Some []"
    using assms unfolding toml_integer_def by blast
  then show ?thesis
  proof cases
    case 1
    then show ?thesis by (rule bare_rest_trans [OF after_sign_rest after_whole_rest])
  next
    case 2
    then show ?thesis by (intro two [OF _ _ prefixes(1)] after_digits_rest [OF 2(2)]) (auto intro: value_char_facts)
  next
    case 3
    then show ?thesis by (intro two [OF _ _ prefixes(2)] after_digits_rest [OF 3(2)] octal) auto
  next
    case 4
    then show ?thesis by (intro two [OF _ _ prefixes(3)] after_digits_rest [OF 4(2)] bits) auto
  qed
qed

lemma valid_bare_chars:
  assumes "valid_bare_value s"
  shows "list_all value_char s"
proof -
  consider "s = ''true'' \<or> s = ''false''" | "toml_integer s" | "toml_special s" | "toml_datetime s" | "toml_time s" | "toml_float s"
    using assms unfolding valid_bare_value_def by blast
  then show ?thesis
  proof cases
    case 1
    then show ?thesis by (auto simp: value_char_def is_lower_def byte_def)
  next
    case 2
    then show ?thesis using toml_integer_chars bare_rest_all by blast
  next
    case 3
    have "list_all value_char ''inf''" "list_all value_char ''nan''" by (simp_all add: value_char_def is_lower_def byte_def)
    with 3 have "bare_rest (after_sign s) []" by (auto simp: toml_special_def bare_rest_all)
    with after_sign_rest [of s] show ?thesis using bare_rest_trans bare_rest_all by blast
  next
    case 4
    then obtain t where t: "after_pattern ''0000-00-00'' s = Some t" by (auto simp: toml_datetime_def split: option.splits)
    have "bare_rest t []"
    proof (cases t)
      case (Cons c u)
      with 4 t obtain x where x: "c = CHR ''T'' \<or> c = CHR ''t''" "after_pattern ''00:00:00'' u = Some x" "toml_zone (after_subsecond x)"
        by (auto simp: toml_datetime_def split: option.splits)
      have "bare_rest u []"
        using after_pattern_rest [OF x(2) pattern_chars(1)] after_subsecond_rest [of x] toml_zone_chars [OF x(3)] bare_rest_trans by blast
      with x(1) Cons show ?thesis by (auto intro!: bare_rest_Cons simp: value_char_def is_lower_def is_upper_def byte_def)
    qed (simp add: bare_rest_refl)
    with after_pattern_rest [OF t pattern_chars(2)] show ?thesis using bare_rest_trans bare_rest_all by blast
  next
    case 5
    then obtain t where "after_pattern ''00:00:00'' s = Some t" "after_subsecond t = []"
      by (auto simp: toml_time_def split: option.splits)
    then have "bare_rest s t" "bare_rest t []"
      using after_pattern_rest [OF _ pattern_chars(1)] after_subsecond_rest [of t] by simp_all
    then show ?thesis using bare_rest_trans bare_rest_all by blast
  next
    case 6
    then obtain t u where "after_whole (after_sign s) = Some t" "after_fraction t = Some u" "after_exponent u = Some []"
      by (auto simp: toml_float_def split: option.splits)
    then have "bare_rest s []"
      by (intro bare_rest_trans [OF after_sign_rest bare_rest_trans [OF after_whole_rest
            bare_rest_trans [OF after_fraction_rest after_exponent_rest]]])
    then show ?thesis by (simp add: bare_rest_all)
  qed
qed


subsection \<open>What is written is one value\<close>

lemma value_char_plain:
  assumes "value_char c"
  shows "\<not> bare_stop c" "c \<noteq> CHR 0x0A" "c \<noteq> dquote" "c \<noteq> squote" "c \<noteq> CHR ''[''" "c \<noteq> CHR ''{''"
proof -
  have "\<forall>c \<in> set '',]}#[{''. \<not> value_char c" "\<forall>c \<in> set [CHR '' '', tab, creturn, CHR 0x0A, dquote, squote]. \<not> value_char c"
    by (simp_all add: value_char_def is_digit_def is_upper_def is_lower_def byte_def tab_def creturn_def dquote_def squote_def)
  with assms show "\<not> bare_stop c" "c \<noteq> CHR 0x0A" "c \<noteq> dquote" "c \<noteq> squote" "c \<noteq> CHR ''[''" "c \<noteq> CHR ''{''"
    by (auto simp: bare_stop_def blank_def)
qed

lemma bare_value_literal:
  assumes "valid_bare_value s" "s \<noteq> []"
  shows "value_literal s"
proof -
  obtain c t where s: "s = c # t" using assms(2) by (cases s) auto
  have chars: "\<forall>c \<in> set s. value_char c" using valid_bare_chars [OF assms(1)] by (simp add: list_all_iff)
  then have c: "value_char c" by (simp add: s)
  have run: "takeWhile (\<lambda>c. \<not> bare_stop c) t = t" using chars value_char_plain(1) by (simp add: takeWhile_eq_all_conv s)
  have "single_value \<lparr>ts_li = 0, ts_text = s, ts_rest = []\<rparr> = Inr \<lparr>ts_li = 0, ts_text = [], ts_rest = []\<rparr>"
    using value_char_plain [OF c] assms by (simp add: single_value_def ts_peek_def s ts_skip_def Let_def run)
  then have "scan_toml \<lparr>ts_li = 0, ts_text = s, ts_rest = []\<rparr> = Inr \<lparr>ts_li = 0, ts_text = [], ts_rest = []\<rparr>"
    using value_char_plain [OF c] by (simp add: scan_toml_def ts_end_def ts_peek_def has_prefix_def s)
  moreover have "CHR 0x0A \<notin> set s" using chars value_char_plain(2) by auto
  ultimately show ?thesis by (simp add: value_literal_def)
qed

lemma byte_char_of: "n < 256 \<Longrightarrow> byte (char_of n) = n"
  by (simp add: byte_def)

lemma encode_rune_low: "r < 0x80 \<Longrightarrow> encode_rune r = [char_of r]"
  by (simp add: encode_rune_def)

lemma encode_rune_high:
  assumes "0x80 \<le> r"
  shows "\<forall>c \<in> set (encode_rune r). 0x80 \<le> byte c" "encode_rune r \<noteq> []"
proof -
  define v where "v = (if 0x10FFFF < r \<or> (0xD800 \<le> r \<and> r \<le> 0xDFFF) then 0xFFFD else r)"
  have v: "0x80 \<le> v" "v \<le> 0x10FFFF" using assms by (auto simp: v_def)
  have "v div 0x40000 < 0x10" "v < 0x10000 \<Longrightarrow> v div 0x1000 < 0x10" "v < 0x800 \<Longrightarrow> v div 0x40 < 0x20"
    using v by (auto simp: div_less_iff_less_mult)
  then show "\<forall>c \<in> set (encode_rune r). 0x80 \<le> byte c" "encode_rune r \<noteq> []"
    using v by (auto simp: encode_rune_def v_def [symmetric] Let_def byte_char_of)
qed

text \<open>A quoted rune is read over, and begins with no quote.\<close>

lemma high_not_special: "0x80 \<le> byte c \<Longrightarrow> c \<noteq> bslash \<and> c \<noteq> dquote \<and> c \<noteq> CHR 0x0A"
  by (auto simp: bslash_def dquote_def byte_def)

lemma after_basic_plain: "\<forall>c \<in> set p. c \<noteq> bslash \<and> c \<noteq> dquote \<Longrightarrow> after_basic (p @ s) = after_basic s"
  by (induction p) auto

lemma special_bytes: "byte bslash = 0x5C" "byte dquote = 0x22" "byte CHR 0x0A = 0x0A"
  by (simp_all add: bslash_def dquote_def byte_def)

lemma char_of_special:
  fixes r :: nat
  assumes "r < 0x80"
  shows "char_of r = bslash \<longleftrightarrow> r = 0x5C" "char_of r = dquote \<longleftrightarrow> r = 0x22" "char_of r = CHR 0x0A \<longleftrightarrow> r = 0x0A"
proof -
  have "byte (char_of r) = r" using assms by (simp add: byte_char_of)
  then have "char_of r = c \<longleftrightarrow> r = byte c" for c using char_of_byte [of c] by metis
  then show "char_of r = bslash \<longleftrightarrow> r = 0x5C" "char_of r = dquote \<longleftrightarrow> r = 0x22" "char_of r = CHR 0x0A \<longleftrightarrow> r = 0x0A"
    by (simp_all only: special_bytes)
qed

lemma quote_rune_cases:
  obtains (escaped) d where "quote_rune r = [bslash, d]" "List.member [CHR ''t'', dquote, bslash] d" "r = 9 \<or> r = 0x22 \<or> r = 0x5C"
  | (control) "r < 0x20 \<or> r = 0x7F" "quote_rune r = [bslash, CHR ''u'', CHR ''0'', CHR ''0'', upper_hex (r div 16), upper_hex (r mod 16)]"
  | (plain) "r \<noteq> 0x5C" "r \<noteq> 0x22" "0x20 \<le> r" "r \<noteq> 0x7F" "quote_rune r = encode_rune r"
proof -
  have "char_of (0x5C :: nat) = bslash" "char_of (0x22 :: nat) = dquote" by (simp_all add: char_of_special)
  note special = this
  consider "r = 0x5C" | "r = 0x22" | "r = 9" | "r < 0x20 \<or> r = 0x7F" "r \<noteq> 9" "r \<noteq> 0x22" "r \<noteq> 0x5C"
    | "r \<noteq> 0x5C" "r \<noteq> 0x22" "0x20 \<le> r" "r \<noteq> 0x7F" by fastforce
  then show ?thesis
  proof cases
    case 1
    then show ?thesis by (intro escaped [of bslash]) (simp_all add: quote_rune_def encode_rune_low special)
  next
    case 2
    then show ?thesis by (intro escaped [of dquote]) (simp_all add: quote_rune_def encode_rune_low special)
  next
    case 3
    then show ?thesis by (intro escaped [of "CHR ''t''"]) (simp_all add: quote_rune_def)
  next
    case 4
    then show ?thesis by (intro control) (simp_all add: quote_rune_def)
  next
    case 5
    then show ?thesis by (intro plain) (simp_all add: quote_rune_def)
  qed
qed

lemma upper_hex_char: "n < 16 \<Longrightarrow> is_digit (upper_hex n) \<or> is_upper (upper_hex n)"
  by (auto simp: upper_hex_def is_digit_def is_upper_def byte_char_of)

lemma hex_not_special: "is_digit c \<or> is_upper c \<Longrightarrow> c \<noteq> bslash \<and> c \<noteq> dquote \<and> c \<noteq> CHR 0x0A"
  by (auto simp: is_digit_def is_upper_def byte_def bslash_def dquote_def)

lemma plain_rune_bytes: "0x20 \<le> r \<Longrightarrow> r \<noteq> 0x5C \<Longrightarrow> r \<noteq> 0x22 \<Longrightarrow> \<forall>c \<in> set (encode_rune r). c \<noteq> bslash \<and> c \<noteq> dquote \<and> c \<noteq> CHR 0x0A"
  using encode_rune_high(1) [of r] high_not_special char_of_special [of r] encode_rune_low [of r]
  by (cases "r < 0x80") auto

lemma quote_rune_read:
  "after_basic (quote_rune r @ s) = after_basic s \<and> quote_rune r \<noteq> [] \<and> hd (quote_rune r) \<noteq> dquote \<and>
    CHR 0x0A \<notin> set (quote_rune r)"
proof (cases r rule: quote_rune_cases)
  case (escaped d)
  then show ?thesis
    by (auto simp: bslash_def dquote_def)
next
  case control
  have "r div 16 < 16" "r mod 16 < 16" using control(1) by auto
  then have "\<forall>c \<in> set [upper_hex (r div 16), upper_hex (r mod 16)]. is_digit c \<or> is_upper c" using upper_hex_char by simp
  then have hex: "\<forall>c \<in> set [CHR ''0'', CHR ''0'', upper_hex (r div 16), upper_hex (r mod 16)]. c \<noteq> bslash \<and> c \<noteq> dquote \<and> c \<noteq> CHR 0x0A"
    using hex_not_special by (auto simp: bslash_def dquote_def)
  then have "after_basic ([CHR ''0'', CHR ''0'', upper_hex (r div 16), upper_hex (r mod 16)] @ s) = after_basic s"
    by (intro after_basic_plain) blast
  with hex show ?thesis
    unfolding control(2) by (auto simp: bslash_def dquote_def)
next
  case plain
  have bytes: "\<forall>c \<in> set (encode_rune r). c \<noteq> bslash \<and> c \<noteq> dquote \<and> c \<noteq> CHR 0x0A" by (rule plain_rune_bytes) (use plain in auto)
  moreover have "encode_rune r \<noteq> []" using encode_rune_high(2) [of r] encode_rune_low [of r] by (cases "r < 0x80") auto
  ultimately show ?thesis
    using plain(5) after_basic_plain [of "encode_rune r" s] hd_in_set [of "encode_rune r"] by auto
qed

lemma basic_string_literal: "value_literal (toml_basic_string s)"
proof -
  define body where "body = concat (map quote_rune (decode_runes s))"
  have "after_basic (concat (map quote_rune rs) @ [dquote]) = Inr [] \<and>
      (concat (map quote_rune rs) = [] \<or> hd (concat (map quote_rune rs)) \<noteq> dquote) \<and>
      CHR 0x0A \<notin> set (concat (map quote_rune rs))" for rs
  proof (induction rs)
    case (Cons r rs)
    then show ?case using quote_rune_read [of r] by (simp add: hd_append)
  qed (simp add: bslash_def dquote_def)
  then have body: "after_basic (body @ [dquote]) = Inr []" "body = [] \<or> hd body \<noteq> dquote" "CHR 0x0A \<notin> set body"
    by (simp_all add: body_def)
  have "\<not> has_prefix (dquote # body @ [dquote]) [dquote, dquote, dquote]"
    using body(2) by (cases body) (auto simp: has_prefix_def)
  moreover have "dquote \<noteq> squote" "dquote \<noteq> CHR ''[''" "dquote \<noteq> CHR ''{''" "dquote \<noteq> CHR 0x0A" by (simp_all add: dquote_def squote_def)
  ultimately show ?thesis using body(1,3)
    by (simp add: value_literal_def toml_basic_string_def body_def [symmetric] scan_toml_def ts_end_def ts_peek_def single_value_def)
       (simp add: has_prefix_def)
qed


subsection \<open>It reads back\<close>

lemma unquote_from_char:
  assumes "unquote_char (p @ x) = Some (out, length p)" "p \<noteq> []" "hd p \<noteq> dquote" "hd p \<noteq> CHR 0x0A"
  shows "unquote_from (p @ x) = map_option ((@) out) (unquote_from x)"
  using assms by (subst unquote_from.simps) simp

text \<open>A rune of the text, by its bytes.\<close>

lemma unquote_char_bytes:
  assumes "rune_width s \<noteq> 0" "hd s \<noteq> dquote" "hd s \<noteq> bslash"
  shows "unquote_char (take (rune_width s) s @ x) = Some (take (rune_width s) s, length (take (rune_width s) s))"
proof -
  define w where "w = rune_width s"
  obtain c t where s: "s = c # t" using assms(1) by (cases s) auto
  have w: "0 < w" "w \<le> length s" using assms(1) rune_width_le [of s] by (simp_all add: w_def)
  define p where "p = take w s"
  have p: "length p = w" "p = c # take (w - 1) t" using w by (simp_all add: p_def s take_Cons')
  show ?thesis
  proof (cases "byte c < 0x80")
    case True
    then have "w = 1" by (simp add: w_def s)
    then show ?thesis using True assms(2,3) by (simp add: unquote_char_def s w_def [symmetric])
  next
    case False
    have width: "rune_width (p @ x) = w"
      using rune_width_append [of p x] rune_width_take [OF assms(1) order_refl] assms(1) by (simp add: p_def w_def)
    have "rune_value (p @ x) w = rune_value s w"
    proof -
      have "(p @ x) ! i = s ! i" if "i < w" for i using that p(1) by (simp add: nth_append p_def)
      moreover have "w = 1 \<or> w = 2 \<or> w = 3 \<or> w = 4" using w(1) rune_width_le4 [of s] by (auto simp: w_def)
      ultimately show ?thesis by (auto simp: rune_value_def)
    qed
    with width encode_rune_value [OF assms(1)] have "encode_rune (rune_value (p @ x) (rune_width (p @ x))) = p"
      by (simp add: w_def p_def)
    moreover have "p @ x = c # take (w - 1) t @ x" using p(2) by simp
    ultimately have "unquote_char (p @ x) = Some (p, w)"
      using False assms(2) width w(1) by (simp add: unquote_char_def s Let_def)
    then show ?thesis using p(1) by (simp add: p_def w_def)
  qed
qed

lemma hex_digit_upper: "n < 16 \<Longrightarrow> hex_digit (upper_hex n) = Some n"
  by (auto simp: hex_digit_def upper_hex_def is_digit_def byte_char_of)

lemma unquote_control:
  assumes "r < 0x80"
  shows "unquote_char ([bslash, CHR ''u'', CHR ''0'', CHR ''0'', upper_hex (r div 16), upper_hex (r mod 16)] @ x) =
    Some ([char_of r], 6)"
proof -
  have "r div 16 < 16" "r mod 16 < 16" using assms by auto
  then have hex: "hex_digit (upper_hex (r div 16)) = Some (r div 16)" "hex_digit (upper_hex (r mod 16)) = Some (r mod 16)"
    by (simp_all add: hex_digit_upper)
  have zero: "hex_digit CHR ''0'' = Some 0" by (simp add: hex_digit_def is_digit_def byte_def)
  have "map_of simple_escapes CHR ''u'' = None" "bslash \<noteq> dquote" "\<not> 0x80 \<le> byte bslash"
    by (simp_all add: simple_escapes_def bslash_def dquote_def byte_def)
  moreover have "digits_of hex_digit 16 4 0 (CHR ''0'' # CHR ''0'' # upper_hex (r div 16) # upper_hex (r mod 16) # x) = Some r"
  proof -
    have "(4 :: nat) = Suc (Suc (Suc (Suc 0)))" by simp
    then show ?thesis by (simp only: digits_of.simps zero hex option.case) simp
  qed
  ultimately show ?thesis using assms
    by (simp add: unquote_char_def Let_def valid_rune_def encode_rune_low del: digits_of.simps)
qed

lemma unquote_simple: "map_of simple_escapes e = Some (byte c) \<Longrightarrow> unquote_char ([bslash, e] @ x) = Some ([c], 2)"
proof -
  have "bslash \<noteq> dquote" by (simp add: bslash_def dquote_def)
  then show "map_of simple_escapes e = Some (byte c) \<Longrightarrow> unquote_char ([bslash, e] @ x) = Some ([c], 2)"
    by (simp add: unquote_char_def special_bytes)
qed

lemma byte_tab: "byte tab = 9"
  by (simp add: tab_def byte_def)

lemma unquote_escaped:
  "c = dquote \<or> c = bslash \<Longrightarrow> unquote_char ([bslash, c] @ x) = Some ([c], 2)"
  "unquote_char ([bslash, CHR ''t''] @ x) = Some ([tab], 2)"
proof -
  have "map_of simple_escapes dquote = Some (byte dquote)" "map_of simple_escapes bslash = Some (byte bslash)"
    unfolding special_bytes by (simp_all add: simple_escapes_def bslash_def dquote_def)
  then show "c = dquote \<or> c = bslash \<Longrightarrow> unquote_char ([bslash, c] @ x) = Some ([c], 2)"
    using unquote_simple by blast
  have "map_of simple_escapes CHR ''t'' = Some (byte tab)"
    unfolding byte_tab by (simp add: simple_escapes_def bslash_def dquote_def)
  then show "unquote_char ([bslash, CHR ''t''] @ x) = Some ([tab], 2)" by (rule unquote_simple)
qed

lemma unquote_quoted_rune:
  assumes "rune_width s \<noteq> 0"
  shows "unquote_from (quote_rune (rune_value s (rune_width s)) @ x) =
    map_option ((@) (take (rune_width s) s)) (unquote_from x)"
proof -
  define w where "w = rune_width s"
  define r where "r = rune_value s w"
  obtain c t where s: "s = c # t" using assms by (cases s) auto
  have bytes: "encode_rune r = take w s" using encode_rune_value [OF assms] by (simp add: r_def w_def)
  have low: "take w s = [char_of r]" if "r < 0x80" using that bytes encode_rune_low by simp
  have bs: "bslash \<noteq> dquote" "bslash \<noteq> CHR 0x0A" by (simp_all add: bslash_def dquote_def)
  have "unquote_from (quote_rune r @ x) = map_option ((@) (take w s)) (unquote_from x)"
  proof (cases r rule: quote_rune_cases)
    case (escaped d)
    have "char_of (9 :: nat) = tab" using char_of_byte [of tab] by (simp only: byte_tab)
    then have "unquote_char (quote_rune r @ x) = Some ([char_of r], 2)"
      using escaped(3) unquote_escaped(1) [of "char_of r" x] unquote_escaped(2) [of x] char_of_special [of r]
      by (auto simp: quote_rune_def encode_rune_low)
    then show ?thesis using unquote_from_char [of "quote_rune r" x] escaped low bs by (auto simp: escaped(1))
  next
    case control
    then have "r < 0x80" by auto
    with unquote_control [OF this, of x] unquote_from_char [of "quote_rune r" x] low bs show ?thesis
      unfolding control(2) by simp
  next
    case plain
    have w: "0 < w" using assms by (simp add: w_def)
    then have "hd (take w s) = c" "take w s \<noteq> []" by (simp_all add: s take_Cons')
    moreover have "\<forall>c \<in> set (take w s). c \<noteq> bslash \<and> c \<noteq> dquote \<and> c \<noteq> CHR 0x0A"
      using plain_rune_bytes [of r] plain bytes by simp
    ultimately have c: "c \<noteq> bslash" "c \<noteq> dquote" "c \<noteq> CHR 0x0A" "take w s \<noteq> []" "hd (take w s) = c"
      using hd_in_set [of "take w s"] by auto
    have "unquote_char (take w s @ x) = Some (take w s, length (take w s))"
      unfolding w_def by (rule unquote_char_bytes) (use assms c in \<open>simp_all add: s\<close>)
    then show ?thesis using unquote_from_char [of "take w s" x] c plain(5) bytes by simp
  qed
  then show ?thesis by (simp add: r_def w_def)
qed

lemma unquote_from_quoted:
  "valid_utf8 s \<Longrightarrow> unquote_from (concat (map quote_rune (decode_runes s)) @ [dquote]) = Some s"
proof (induction s rule: valid_utf8.induct)
  case (1 s)
  show ?case
  proof (cases "s = []")
    case True
    then show ?thesis by (subst unquote_from.simps) (simp add: decode_runes.simps)
  next
    case False
    then have w: "rune_width s \<noteq> 0" "valid_utf8 (drop (rune_width s) s)"
      using "1.prems" by (subst (asm) valid_utf8.simps, simp split: if_splits)+
    from "1.IH" [OF False w] unquote_quoted_rune [OF w(1)] False w(1) show ?thesis
      by (subst decode_runes.simps) simp
  qed
qed

text \<open>The fast way of \<open>go_unquote\<close> gives what the slow one does.\<close>

lemma unquote_from_plain:
  "valid_utf8 s \<Longrightarrow> bslash \<notin> set s \<Longrightarrow> dquote \<notin> set s \<Longrightarrow> CHR 0x0A \<notin> set s \<Longrightarrow>
     unquote_from (s @ dquote # x) = (if x = [] then Some s else None)"
proof (induction s rule: valid_utf8.induct)
  case (1 s)
  show ?case
  proof (cases "s = []")
    case True
    then show ?thesis by (subst unquote_from.simps) simp
  next
    case False
    then have w: "rune_width s \<noteq> 0" "valid_utf8 (drop (rune_width s) s)"
      using "1.prems"(1) by (subst (asm) valid_utf8.simps, simp split: if_splits)+
    define p where "p = take (rune_width s) s"
    define q where "q = drop (rune_width s) s"
    have s: "s = p @ q" by (simp add: p_def q_def)
    have "hd s \<in> set s" using False by simp
    then have hd: "hd s \<noteq> dquote" "hd s \<noteq> bslash" "hd s \<noteq> CHR 0x0A" using "1.prems" by auto
    have p: "p \<noteq> []" "hd p = hd s" using False w(1) by (cases s; simp add: p_def take_Cons')+
    have "unquote_char (p @ q @ dquote # x) = Some (p, length p)"
      unfolding p_def by (rule unquote_char_bytes [OF w(1) hd(1,2)])
    from unquote_from_char [OF this p(1)] p(2) hd
    have "unquote_from (p @ q @ dquote # x) = map_option ((@) p) (unquote_from (q @ dquote # x))" by simp
    moreover have "unquote_from (q @ dquote # x) = (if x = [] then Some q else None)"
      unfolding q_def by (rule "1.IH" [OF False w]) (use "1.prems" in \<open>auto dest: in_set_dropD\<close>)
    ultimately show ?thesis by (simp add: s)
  qed
qed

lemma go_unquote_slow:
  assumes "index_of t [dquote] = Some e"
  shows "go_unquote (dquote # t) = unquote_from t"
proof -
  have e: "e < length t" "t ! e = dquote" "dquote \<notin> set (take e t)" using assms by (auto simp: index_of_single_iff)
  then have t: "t = take e t @ dquote # drop (e + 1) t" by (metis Suc_eq_plus1 id_take_nth_drop)
  show ?thesis
  proof (cases "bslash \<notin> set (take e t) \<and> CHR 0x0A \<notin> set (take e t) \<and> valid_utf8 (take e t)")
    case True
    then have "unquote_from (take e t @ dquote # drop (e + 1) t) = (if drop (e + 1) t = [] then Some (take e t) else None)"
      using e(3) by (intro unquote_from_plain) auto
    with True assms e(1) t show ?thesis by (auto simp: go_unquote_def Let_def)
  next
    case False
    with assms e(1) show ?thesis by (auto simp: go_unquote_def Let_def)
  qed
qed

lemma index_of_present: "c \<in> set s \<Longrightarrow> \<exists>e. index_of s [c] = Some e"
  by (induction s) (auto simp: has_prefix_def)

lemma toml_basic_string_back:
  assumes "valid_utf8 s"
  shows "toml_string (toml_basic_string s) = (s, True)"
proof -
  define body where "body = concat (map quote_rune (decode_runes s))"
  define lit where "lit = dquote # body @ [dquote]"
  have lit: "toml_basic_string s = lit" by (simp add: toml_basic_string_def body_def lit_def)
  have "body = [] \<or> hd body \<noteq> dquote"
  proof (cases "decode_runes s")
    case (Cons r rs)
    then show ?thesis using quote_rune_read [of r] by (simp add: body_def hd_append)
  qed (simp add: body_def)
  then have d3: "\<not> (6 \<le> length lit \<and> has_prefix lit [dquote, dquote, dquote])"
    by (cases body) (auto simp: lit_def has_prefix_def)
  have s3: "\<not> has_prefix lit [squote, squote, squote]" "hd lit \<noteq> squote"
    by (simp_all add: lit_def has_prefix_def dquote_def squote_def)
  obtain e where "index_of (body @ [dquote]) [dquote] = Some e" using index_of_present [of dquote] by fastforce
  from go_unquote_slow [OF this] unquote_from_quoted [OF assms] have "go_unquote lit = Some s"
    by (simp add: lit_def body_def)
  with d3 s3 show ?thesis unfolding lit by (auto simp: toml_string_def Let_def) (simp_all add: lit_def)
qed

end
