(* ===== verification/ShellWords.thy ===== *)
theory ShellWords
  imports Utf8
begin

text \<open>
  One word of a shell's command line, as \<^verbatim>\<open>application/shellword.go\<close> writes it and
  \<^verbatim>\<open>shellWords\<close> of \<^verbatim>\<open>application/rigproposals.go\<close> reads it back.
\<close>

subsection \<open>Writing\<close>

definition safe_rune :: "nat \<Rightarrow> bool" where
  "safe_rune r \<longleftrightarrow>
     97 \<le> r \<and> r \<le> 122 \<or> 65 \<le> r \<and> r \<le> 90 \<or> 48 \<le> r \<and> r \<le> 57 \<or> List.member (map byte ''-_./:=@,+%'') r"

definition shell_safe :: "string \<Rightarrow> bool" where
  "shell_safe s \<longleftrightarrow> s \<noteq> [] \<and> list_all safe_rune (decode_runes s)"

definition shell_quote :: "char \<Rightarrow> string" where
  "shell_quote c = (if c = CHR 0x27 then [CHR 0x27, CHR 0x5C, CHR 0x27, CHR 0x27] else [c])"

definition shell_quoted :: "string \<Rightarrow> string" where
  "shell_quoted s = [CHR 0x27] @ replace_all s [CHR 0x27] [CHR 0x27, CHR 0x5C, CHR 0x27, CHR 0x27] @ [CHR 0x27]"

definition shell_word :: "string \<Rightarrow> string" where
  "shell_word s =
     (if shell_safe s then s else [CHR 0x27] @ replace_all s [CHR 0x27] [CHR 0x27, CHR 0x5C, CHR 0x27, CHR 0x27] @ [CHR 0x27])"

subsection \<open>Reading\<close>

text \<open>The words of the runes left: the word begun, if one is, and the quote it is in, if it is in one.\<close>

definition in_double :: "nat \<Rightarrow> bool" where
  "in_double r \<longleftrightarrow> r = 0x22 \<or> r = 0x5C \<or> r = 0x24 \<or> r = 0x60"

fun words_from :: "nat list \<Rightarrow> string option \<Rightarrow> nat \<Rightarrow> string list option" where
  "words_from [] cur quote =
     (if quote \<noteq> 0 then None else Some (case cur of None \<Rightarrow> [] | Some w \<Rightarrow> [w]))"
| "words_from (r # rs) cur quote =
     (let w = (case cur of None \<Rightarrow> [] | Some w \<Rightarrow> w)
      in if quote = 0x27 then
           (if r = 0x27 then words_from rs cur 0 else words_from rs (Some (w @ encode_rune r)) quote)
         else if quote = 0x22 then
           (if r = 0x22 then words_from rs cur 0
            else if r = 0x5C then
              (case rs of
                 e # rs' \<Rightarrow> if in_double e then words_from rs' (Some (w @ encode_rune e)) quote
                           else words_from rs (Some (w @ encode_rune r)) quote
               | [] \<Rightarrow> words_from rs (Some (w @ encode_rune r)) quote)
            else words_from rs (Some (w @ encode_rune r)) quote)
         else if r = 0x27 \<or> r = 0x22 then words_from rs (Some w) r
         else if r = 0x5C then
           (case rs of [] \<Rightarrow> None | e # rs' \<Rightarrow> words_from rs' (Some (w @ encode_rune e)) 0)
         else if r = 0x20 \<or> r = 0x09 then
           (case cur of None \<Rightarrow> words_from rs None 0 | Some w \<Rightarrow> map_option ((#) w) (words_from rs None 0))
         else words_from rs (Some (w @ encode_rune r)) 0)"

definition shell_words :: "string \<Rightarrow> string list option" where
  "shell_words line = words_from (decode_runes line) None 0"


subsection \<open>Runes of texts put together\<close>

lemma decode_runes_append: "valid_utf8 s \<Longrightarrow> decode_runes (s @ t) = decode_runes s @ decode_runes t"
proof (induction s rule: valid_utf8.induct)
  case (1 s)
  show ?case
  proof (cases "s = []")
    case True
    then show ?thesis by (simp add: decode_runes.simps [of "[]"])
  next
    case False
    then have w: "rune_width s \<noteq> 0" "valid_utf8 (drop (rune_width s) s)"
      using "1.prems" by (subst (asm) valid_utf8.simps, simp split: if_splits)+
    have width: "rune_width (s @ t) = rune_width s" by (rule rune_width_append [OF w(1)])
    have le: "rune_width s \<le> length s" by (rule rune_width_le)
    have "rune_value (s @ t) (rune_width s) = rune_value s (rune_width s)"
    proof -
      have "(s @ t) ! i = s ! i" if "i < rune_width s" for i using that le by (simp add: nth_append)
      moreover have "rune_width s = 1 \<or> rune_width s = 2 \<or> rune_width s = 3 \<or> rune_width s = 4"
        using w(1) rune_width_le4 [of s] by auto
      ultimately show ?thesis by (auto simp: rune_value_def)
    qed
    then show ?thesis using False w "1.IH" [OF False w] width le
      by (subst (1 2) decode_runes.simps) simp
  qed
qed

lemma encode_decode: "valid_utf8 s \<Longrightarrow> encode_runes (decode_runes s) = s"
proof (induction s rule: valid_utf8.induct)
  case (1 s)
  show ?case
  proof (cases "s = []")
    case True
    then show ?thesis by (simp add: decode_runes.simps encode_runes_def)
  next
    case False
    then have w: "rune_width s \<noteq> 0" "valid_utf8 (drop (rune_width s) s)"
      using "1.prems" by (subst (asm) valid_utf8.simps, simp split: if_splits)+
    then show ?thesis using False "1.IH" [OF False w] encode_rune_value [OF w(1)]
      by (subst decode_runes.simps) (simp add: encode_runes_def)
  qed
qed

lemma valid_utf8_one: "byte c < 0x80 \<Longrightarrow> valid_utf8 (c # s) = valid_utf8 s"
  by (subst valid_utf8.simps) simp

lemma decode_one: "byte c < 0x80 \<Longrightarrow> decode_runes (c # s) = byte c # decode_runes s"
  by (subst decode_runes.simps) (simp add: rune_value_def)

lemma quote_bytes: "byte CHR 0x27 = 0x27" "byte CHR 0x5C = 0x5C" "byte CHR '' '' = 0x20"
  by (simp_all add: byte_def)

subsection \<open>The quoted word\<close>

lemma replace_quotes: "replace_all s [CHR 0x27] [CHR 0x27, CHR 0x5C, CHR 0x27, CHR 0x27] = concat (map shell_quote s)"
  by (induction s) (auto simp: has_prefix_def shell_quote_def)

definition rune_quote :: "nat \<Rightarrow> nat list" where
  "rune_quote r = (if r = 0x27 then [0x27, 0x5C, 0x27, 0x27] else [r])"

lemma high_bytes_no_quote:
  assumes "rune_width s \<noteq> 0" "hd s \<noteq> CHR 0x27"
  shows "concat (map shell_quote (take (rune_width s) s)) = take (rune_width s) s"
proof -
  have "\<forall>c \<in> set (take (rune_width s) s). c \<noteq> CHR 0x27"
  proof (cases "byte (hd s) < 0x80")
    case True
    then have "rune_width s = 1" using assms(1) by (cases s) auto
    with assms show ?thesis by (cases s) auto
  next
    case False
    obtain a t where s: "s = a # t" using assms(1) by (cases s) auto
    have "\<forall>c \<in> set (take (rune_width s) s). 0x80 \<le> byte c"
      using assms(1) False
      by (auto simp: s Let_def second_ok_def cont_byte_def split: if_splits list.splits)
    then show ?thesis using quote_bytes(1) by fastforce
  qed
  moreover have "\<forall>c \<in> set p. c \<noteq> CHR 0x27 \<Longrightarrow> concat (map shell_quote p) = p" for p
    by (induction p) (auto simp: shell_quote_def)
  ultimately show ?thesis by blast
qed

lemma quoted_runes:
  "valid_utf8 s \<Longrightarrow> valid_utf8 (concat (map shell_quote s)) \<and>
     decode_runes (concat (map shell_quote s)) = concat (map rune_quote (decode_runes s))"
proof (induction s rule: valid_utf8.induct)
  case (1 s)
  show ?case
  proof (cases "s = []")
    case True
    then show ?thesis by (simp add: decode_runes.simps)
  next
    case False
    define w where "w = rune_width s"
    have w: "rune_width s \<noteq> 0" "valid_utf8 (drop (rune_width s) s)"
      using "1.prems" False by (subst (asm) valid_utf8.simps, simp split: if_splits)+
    have ih: "valid_utf8 (concat (map shell_quote (drop w s)))"
      "decode_runes (concat (map shell_quote (drop w s))) = concat (map rune_quote (decode_runes (drop w s)))"
      using "1.IH" [OF False w] by (simp_all add: w_def)
    have dec: "decode_runes s = rune_value s w # decode_runes (drop w s)"
      using False w(1) by (subst decode_runes.simps) (simp add: w_def)
    show ?thesis
    proof (cases "hd s = CHR 0x27")
      case True
      then obtain t where s: "s = CHR 0x27 # t" using False by (cases s) auto
      have "w = 1" by (simp add: w_def s quote_bytes)
      moreover have "shell_quote CHR 0x27 = [CHR 0x27, CHR 0x5C, CHR 0x27, CHR 0x27]" "rune_quote 0x27 = [0x27, 0x5C, 0x27, 0x27]"
        by (simp_all add: shell_quote_def rune_quote_def)
      ultimately show ?thesis using ih dec
        by (simp add: s rune_value_def quote_bytes valid_utf8_one decode_one)
    next
      case no: False
      have "s = take w s @ drop w s" by simp
      then have "concat (map shell_quote s) = concat (map shell_quote (take w s)) @ concat (map shell_quote (drop w s))"
        by (metis concat_append map_append)
      then have q: "concat (map shell_quote s) = take w s @ concat (map shell_quote (drop w s))"
        using high_bytes_no_quote [OF w(1) no] by (simp add: w_def)
      have one: "valid_utf8 (take w s)"
        using rune_width_take [OF w(1) order_refl] w(1) by (subst valid_utf8.simps) (simp add: w_def)
      have r: "rune_value s w \<noteq> 0x27"
      proof
        assume "rune_value s w = 0x27"
        then have "take w s = [char_of (0x27 :: nat)]" using encode_rune_value [OF w(1)] by (simp add: w_def encode_rune_def)
        moreover have "char_of (0x27 :: nat) = CHR 0x27" using char_of_byte [of "CHR 0x27"] by (simp only: quote_bytes)
        ultimately show False using no False w(1) by (cases s) (auto simp: w_def take_Cons')
      qed
      have "decode_runes (take w s) = [rune_value s w]"
      proof -
        have len: "length (take w s) = w" using rune_width_le [of s] by (simp add: w_def)
        have "decode_runes (take w s @ drop w s) = decode_runes (take w s) @ decode_runes (drop w s)"
          by (rule decode_runes_append [OF one])
        with dec show ?thesis by simp
      qed
      moreover have "rune_quote (rune_value s w) = [rune_value s w]" using r by (simp add: rune_quote_def)
      ultimately show ?thesis
        using one ih by (simp add: q dec valid_utf8_append decode_runes_append)
    qed
  qed
qed

lemma words_quoted:
  "words_from (concat (map rune_quote rs) @ 0x27 # rest) (Some w) 0x27 = words_from rest (Some (w @ encode_runes rs)) 0"
proof (induction rs arbitrary: w)
  case (Cons r rs)
  have "encode_rune 0x27 = [CHR 0x27]" using char_of_byte [of "CHR 0x27"] unfolding quote_bytes by (simp add: encode_rune_def)
  with Cons.IH show ?case by (simp add: rune_quote_def encode_runes_def)
qed (simp add: encode_runes_def)

lemma safe_rune_plain: "safe_rune r \<Longrightarrow> r \<noteq> 0x27 \<and> r \<noteq> 0x22 \<and> r \<noteq> 0x5C \<and> r \<noteq> 0x20 \<and> r \<noteq> 0x09"
  by (auto simp: safe_rune_def byte_def)

lemma words_safe:
  "list_all safe_rune rs \<Longrightarrow> words_from (rs @ rest) (Some w) 0 = words_from rest (Some (w @ encode_runes rs)) 0"
proof (induction rs arbitrary: w)
  case (Cons r rs)
  with safe_rune_plain [of r] show ?case by (simp add: encode_runes_def)
qed (simp add: encode_runes_def)

lemma words_safe_start:
  assumes "list_all safe_rune rs" "rs \<noteq> []"
  shows "words_from (rs @ rest) None 0 = words_from rest (Some (encode_runes rs)) 0"
proof -
  obtain r rs' where rs: "rs = r # rs'" using assms(2) by (cases rs) auto
  then show ?thesis using assms(1) safe_rune_plain [of r] words_safe [of rs' rest "encode_rune r"]
    by (simp add: encode_runes_def)
qed

text \<open>A text whose runes are read as one word, alone or before a space.\<close>

definition one_word :: "string \<Rightarrow> string \<Rightarrow> bool" where
  "one_word t s \<longleftrightarrow> valid_utf8 t \<and> (\<forall>rest. words_from (decode_runes t @ rest) None 0 = words_from rest (Some s) 0)"

lemma shell_quoted_one:
  assumes "valid_utf8 s"
  shows "one_word (shell_quoted s) s"
proof -
  define q where "q = concat (map shell_quote s)"
  have quoted: "shell_quoted s = CHR 0x27 # q @ [CHR 0x27]" by (simp add: shell_quoted_def replace_quotes q_def)
  have q: "valid_utf8 q" "decode_runes q = concat (map rune_quote (decode_runes s))"
    using quoted_runes [OF assms] by (simp_all add: q_def)
  have "decode_runes (shell_quoted s) = 0x27 # concat (map rune_quote (decode_runes s)) @ [0x27]"
    by (simp add: quoted decode_one quote_bytes decode_runes_append q decode_runes.simps [of "[]"])
  moreover have "valid_utf8 (shell_quoted s)"
    by (simp add: quoted valid_utf8_one quote_bytes valid_utf8_append [OF q(1)])
  ultimately show ?thesis using words_quoted [of "decode_runes s" _ "[]"] assms by (simp add: one_word_def encode_decode)
qed

lemma safe_runes_valid: "list_all safe_rune (decode_runes s) \<Longrightarrow> valid_utf8 s"
proof (induction s rule: valid_utf8.induct)
  case (1 s)
  show ?case
  proof (cases "s = []")
    case False
    have "\<not> safe_rune 0xFFFD" by (simp add: safe_rune_def byte_def)
    then have "rune_width s \<noteq> 0" using False "1.prems" by (subst (asm) decode_runes.simps) (auto split: if_splits)
    with False "1.prems" "1.IH" show ?thesis
      by (subst valid_utf8.simps, subst (asm) (2) decode_runes.simps) simp
  qed simp
qed

lemma shell_safe_one:
  assumes "shell_safe s"
  shows "one_word s s"
proof -
  have "decode_runes s \<noteq> []" using assms by (auto simp: shell_safe_def decode_runes.simps [of s])
  then show ?thesis using assms words_safe_start [of "decode_runes s"]
    by (simp add: one_word_def shell_safe_def encode_decode safe_runes_valid)
qed

lemma shell_word_one: "valid_utf8 s \<Longrightarrow> one_word (shell_word s) s"
  using shell_safe_one [of s] shell_quoted_one [of s] by (simp add: shell_word_def shell_quoted_def)

lemma shell_words_join:
  assumes "list_all2 one_word ts ss"
  shows "shell_words (join '' '' ts) = Some ss"
proof -
  have "words_from (decode_runes (join '' '' ts)) None 0 = Some ss"
    using assms
  proof (induction ts ss rule: list_all2_induct)
    case (Cons t ts s ss)
    note t = Cons.hyps(1) [unfolded one_word_def]
    show ?case
    proof (cases ts)
      case Nil
      then have "ss = []" using Cons.hyps(2) by simp
      with Nil t show ?thesis using spec [OF conjunct2 [OF t], of "[]"] by simp
    next
      case (Cons t2 ts2)
      have "decode_runes (join '' '' (t # ts)) = decode_runes t @ 0x20 # decode_runes (join '' '' ts)"
        using t by (simp add: Cons decode_runes_append decode_one quote_bytes)
      then show ?thesis using t Cons.IH by simp
    qed
  qed (simp add: decode_runes.simps)
  then show ?thesis by (simp add: shell_words_def)
qed

text \<open>C14. Words written one by one for a shell, each quoted where it has to be, and put on a line with
  spaces between read back as those words, whatever characters they hold.\<close>

theorem shell_words_read_back:
  assumes "list_all valid_utf8 ws"
  shows "shell_words (join '' '' (map shell_word ws)) = Some ws"
  using assms shell_word_one by (intro shell_words_join) (simp add: list_all2_map1 list.rel_refl_strong list_all_iff)

theorem shell_words_read_back_witness:
  "shell_words (join '' '' (map shell_word [''cp'', ''a b'', [CHR 0x27, CHR 0xC3, CHR 0xA9]])) =
     Some [''cp'', ''a b'', [CHR 0x27, CHR 0xC3, CHR 0xA9]]"
  by (rule shell_words_read_back) code_simp

end
