(* ===== verification/ConfigSet.thy ===== *)
theory ConfigSet
  imports Complex_Main TomlLiteral ShellWords
begin

text \<open>
  \<^verbatim>\<open>application/configset.go\<close>: \<^verbatim>\<open>mw config set\<close> and \<^verbatim>\<open>mw config get\<close> over the config
  file, with the bounds on the investment share (\<^verbatim>\<open>domain/factoryshare.go\<close>) it checks.  The
  file's reading, backup and writing are answers of \<open>config_io\<close>; what the command asked of it
  is a list of acts.  \<^verbatim>\<open>strconv.ParseFloat\<close> is the parameter \<open>pf\<close>: \<open>None\<close> for a text it refuses.
\<close>

subsection \<open>The investment share\<close>

datatype float64 = NaN | Infinite bool | Finite rat

definition float_less :: "float64 \<Rightarrow> float64 \<Rightarrow> bool" where
  "float_less a b =
     (case (a, b) of
        (Finite x, Finite y) \<Rightarrow> x < y
      | (Infinite neg, Finite y) \<Rightarrow> neg
      | (Finite x, Infinite neg) \<Rightarrow> \<not> neg
      | (Infinite neg, Infinite neg') \<Rightarrow> neg \<and> \<not> neg'
      | _ \<Rightarrow> False)"

definition float_le :: "float64 \<Rightarrow> float64 \<Rightarrow> bool" where
  "float_le a b \<longleftrightarrow> float_less a b \<or> a = b \<and> a \<noteq> NaN"

text \<open>The doubles nearest 0.10 and 0.33.\<close>

definition default_share_min :: float64 where
  "default_share_min = Finite (3602879701896397 / 36028797018963968)"

definition default_share_max :: float64 where
  "default_share_max = Finite (5944751508129055 / 18014398509481984)"

datatype share_error =
    BadFraction string string
  | MinNotBelow float64 float64
  | NotFraction string
  | OutsideBounds float64

definition share_said :: "(string \<rightharpoonup> string) \<Rightarrow> string \<Rightarrow> string" where
  "share_said table key =
     trim_set (trim_space (case table key of None \<Rightarrow> [] | Some v \<Rightarrow> v)) [dquote, squote]"

definition share_bound ::
  "(string \<Rightarrow> float64 option) \<Rightarrow> (string \<rightharpoonup> string) \<Rightarrow> string \<Rightarrow> float64 \<Rightarrow> (share_error, float64) result"
where
  "share_bound pf table key unset =
     (let said = share_said table key
      in if said = [] then Inr unset
         else (case pf said of
                 None \<Rightarrow> Inl (BadFraction key said)
               | Some n \<Rightarrow>
                   if float_le n (Finite 0) \<or> float_less (Finite 1) n then Inl (BadFraction key said) else Inr n))"

text \<open>
  The two keys are ranged over as a Go map, in either order: \<open>min_first\<close> says which, and
  decides only which of two faults is named.
\<close>

definition invest_share_bounds ::
  "(string \<Rightarrow> float64 option) \<Rightarrow> bool \<Rightarrow> (string \<rightharpoonup> string) \<Rightarrow> (share_error, float64 \<times> float64) result"
where
  "invest_share_bounds pf min_first table =
     (let lo = share_bound pf table ''invest_share_min'' default_share_min;
          hi = share_bound pf table ''invest_share_max'' default_share_max
      in case (lo, hi) of
           (Inl e, Inl e') \<Rightarrow> Inl (if min_first then e else e')
         | (Inl e, Inr _) \<Rightarrow> Inl e
         | (Inr _, Inl e) \<Rightarrow> Inl e
         | (Inr a, Inr b) \<Rightarrow> if float_le b a then Inl (MinNotBelow a b) else Inr (a, b))"

definition check_factory_change ::
  "(string \<Rightarrow> float64 option) \<Rightarrow> bool \<Rightarrow> config_toml \<Rightarrow> string \<Rightarrow> string \<Rightarrow> share_error option"
where
  "check_factory_change pf min_first after table key =
     (if table \<noteq> ''factory'' then None
      else let vals = (case toml_table after table of None \<Rightarrow> Map.empty | Some m \<Rightarrow> m)
           in if key = ''invest_share_min'' \<or> key = ''invest_share_max''
              then (case invest_share_bounds pf min_first vals of Inl e \<Rightarrow> Some e | Inr _ \<Rightarrow> None)
              else if key = ''invest_share''
              then (case invest_share_bounds pf min_first vals of
                      Inl e \<Rightarrow> Some e
                    | Inr (lo, hi) \<Rightarrow>
                        (case pf (share_said vals key) of
                           None \<Rightarrow> Some (NotFraction (share_said vals key))
                         | Some share \<Rightarrow>
                             if float_less share lo \<or> float_less hi share then Some (OutsideBounds share) else None))
              else None)"

subsection \<open>Setting a key\<close>

datatype config_act = AskBackup string | AskWrite string

record config_io =
  cf_path :: string
  cf_read :: "(string, string \<times> bool) result"
  cf_backup :: "string \<Rightarrow> (string, string) result"
  cf_write :: "string \<Rightarrow> string option"

datatype set_error =
    SetKey key_error
  | SetLines string
  | SetRead string
  | SetParseBefore nat toml_error
  | SetUnchanged string string
  | SetParseAfter nat toml_error
  | SetNotBack string string
  | SetFactory share_error
  | SetBackup string
  | SetWrite string string

text \<open>The words said on success.\<close>

definition config_words :: "string \<Rightarrow> string option \<Rightarrow> string \<Rightarrow> string \<Rightarrow> string \<Rightarrow> string list" where
  "config_words path old lit backup way_back =
     [''config: '' @ path,
      (case old of None \<Rightarrow> ''old: unset'' | Some o' \<Rightarrow> ''old: '' @ o'),
      ''new: '' @ lit,
      (if backup = [] then ''backup: none (there was no config file)'' else ''backup: '' @ backup),
      ''way back: '' @ way_back]"

definition copy_back :: "string \<Rightarrow> string \<Rightarrow> string" where
  "copy_back backup path = ''cp '' @ shell_word backup @ '' '' @ shell_word path"

text \<open>The file backed up and written, once the change is known to be good.\<close>

definition write_config ::
  "config_io \<Rightarrow> string \<Rightarrow> bool \<Rightarrow> bool \<Rightarrow> string option \<Rightarrow> string \<Rightarrow> string \<Rightarrow>
    config_act list \<times> (set_error, string list) result"
where
  "write_config io stamp existing dry old lit changed =
     (let path = cf_path io; named = path @ ''.bak-'' @ stamp
      in if dry then
           ([], Inr (''dry run: nothing is written'' #
              (if existing then config_words path old lit named (copy_back named path)
               else config_words path old lit [] (''rm '' @ shell_word path))))
         else if existing then
           (case cf_backup io stamp of
              Inl e \<Rightarrow> ([AskBackup stamp], Inl (SetBackup e))
            | Inr backup \<Rightarrow>
                ([AskBackup stamp, AskWrite changed],
                 case cf_write io changed of
                   Some e \<Rightarrow> Inl (SetWrite e backup)
                 | None \<Rightarrow> Inr (config_words path old lit backup (copy_back backup path))))
         else
           ([AskWrite changed],
            case cf_write io changed of
              Some e \<Rightarrow> Inl (SetWrite e [])
            | None \<Rightarrow> Inr (config_words path old lit [] (''rm '' @ shell_word path))))"

definition config_set ::
  "config_io \<Rightarrow> (string \<Rightarrow> float64 option) \<Rightarrow> bool \<Rightarrow> string \<Rightarrow> string \<Rightarrow> string \<Rightarrow> bool \<Rightarrow>
    config_act list \<times> (set_error, string list) result"
where
  "config_set io pf min_first stamp dotted val dry =
     (case split_config_key dotted of
        Inl e \<Rightarrow> ([], Inl (SetKey e))
      | Inr (table, key) \<Rightarrow>
     (case toml_literal val of
        None \<Rightarrow> ([], Inl (SetLines dotted))
      | Some lit \<Rightarrow>
     (case cf_read io of
        Inl e \<Rightarrow> ([], Inl (SetRead e))
      | Inr (data, existing) \<Rightarrow>
     (case parse_config_toml data of
        Inl (n, e) \<Rightarrow> ([], Inl (SetParseBefore n e))
      | Inr before \<Rightarrow>
          let old = toml_lookup before table key
          in if (case old of None \<Rightarrow> False | Some o' \<Rightarrow> same_toml_value o' lit)
             then ([], Inl (SetUnchanged dotted (the old)))
             else let changed = toml_set before table key lit
                  in (case parse_config_toml changed of
                        Inl (n, e) \<Rightarrow> ([], Inl (SetParseAfter n e))
                      | Inr after \<Rightarrow>
                          if toml_lookup after table key \<noteq> Some lit then ([], Inl (SetNotBack dotted lit))
                          else (case check_factory_change pf min_first after table key of
                                  Some e \<Rightarrow> ([], Inl (SetFactory e))
                                | None \<Rightarrow> write_config io stamp existing dry old lit changed))))))"

subsection \<open>Reading a key\<close>

datatype get_error = GetKey key_error | GetRead string | GetParse nat toml_error | GetUnset string

definition config_get :: "config_io \<Rightarrow> string \<Rightarrow> (get_error, string) result" where
  "config_get io dotted =
     (case split_config_key dotted of
        Inl e \<Rightarrow> Inl (GetKey e)
      | Inr (table, key) \<Rightarrow>
     (case cf_read io of
        Inl e \<Rightarrow> Inl (GetRead e)
      | Inr (data, _) \<Rightarrow>
     (case parse_config_toml data of
        Inl (n, e) \<Rightarrow> Inl (GetParse n e)
      | Inr file \<Rightarrow>
     (case toml_lookup file table key of
        None \<Rightarrow> Inl (GetUnset dotted)
      | Some lit \<Rightarrow> Inr (fst (toml_string lit))))))"


subsection \<open>The file as a map\<close>

lemma map_of_replaced: "map_of (xs @ (k, v) # ys) = (map_of (xs @ ys))(k \<mapsto> v)" if "k \<notin> fst ` set xs"
  using that by (auto simp: map_add_def fun_eq_iff map_of_eq_None_iff split: option.splits)
     (metis domI dom_map_of_conv_image_fst option.distinct(1))+

lemma no_entry_before:
  "\<forall>x \<in> set xs. \<not> (is_entry table x \<and> st_key x = key) \<Longrightarrow> (table, key) \<notin> fst ` set (file_entries ls xs)"
  by (auto simp: file_entries_def is_entry_def)

lemma set_present_map:
  assumes parse: "parse_config_toml txt = Inr c" and lit: "value_literal lit" and there: "toml_lookup c table key \<noteq> None"
  shows "\<exists>c'. parse_config_toml (toml_set c table key lit) = Inr c' \<and>
    config_map c' = (config_map c)((table, key) \<mapsto> trim_space lit)"
proof -
  obtain st where found: "find (\<lambda>st. is_entry table st \<and> st_key st = key) (ct_stmts c) = Some st"
    using there by (auto simp: toml_lookup_def)
  obtain c' xs ys where set: "parse_config_toml (toml_set c table key lit) = Inr c'" "ct_stmts c = xs @ st # ys"
    "file_entries (ct_lines c') (ct_stmts c') =
      file_entries (ct_lines c) xs @ ((table, key), trim_space lit) # file_entries (ct_lines c) ys"
    "\<forall>x \<in> set xs. \<not> (is_entry table x \<and> st_key x = key)"
    using set_present [OF parse lit found] by blast
  have st: "is_entry table st" "st_key st = key" using found by (auto simp: find_Some_iff)
  have before: "(table, key) \<notin> fst ` set (file_entries (ct_lines c) xs)" by (rule no_entry_before [OF set(4)])
  have "config_map c = map_of (file_entries (ct_lines c) xs @ ((table, key), stmt_text (ct_lines c) st) # file_entries (ct_lines c) ys)"
    using st by (auto simp: config_map_entries set(2) is_entry_def)
  with set(1,3) before show ?thesis
    by (intro exI [of _ c']) (simp add: config_map_entries map_of_replaced del: map_of_append)
qed

lemma set_map:
  assumes parse: "parse_config_toml txt = Inr c" and lit: "value_literal lit" and key: "bare_key key" and table: "bare_table table"
    and after: "parse_config_toml (toml_set c table key lit) = Inr c'"
  shows "config_map c' = (config_map c)((table, key) \<mapsto> trim_space lit)"
proof (cases "toml_lookup c table key")
  case None
  then have missing: "find (\<lambda>st. is_entry table st \<and> st_key st = key) (ct_stmts c) = None"
    by (auto simp: toml_lookup_def)
  obtain es1 es2 where es: "file_entries (ct_lines c) (ct_stmts c) = es1 @ es2"
    "file_entries (ct_lines c') (ct_stmts c') = es1 @ ((table, key), trim_space lit) # es2"
    using set_missing [OF parse lit key table missing after] by (auto simp: key_added_def)
  have "map_of (es1 @ es2) (table, key) = None"
    using None unfolding toml_lookup_entries es(1) .
  then have "(table, key) \<notin> fst ` set es1" by (auto simp: map_of_eq_None_iff)
  then show ?thesis unfolding config_map_entries es by (rule map_of_replaced)
next
  case (Some old)
  then obtain c2 where "parse_config_toml (toml_set c table key lit) = Inr c2"
    "config_map c2 = (config_map c)((table, key) \<mapsto> trim_space lit)"
    using set_present_map [OF parse lit, of table key] by auto
  with after show ?thesis by simp
qed


text \<open>The literal of a value that begins with no bracket and no quote is one value.\<close>

lemma toml_literal_value:
  assumes "toml_literal s = Some lit" "\<not> (trim_space s \<noteq> [] \<and> List.member [dquote, squote, CHR ''['', CHR ''{''] (hd (trim_space s)))"
  shows "value_literal lit"
  using assms basic_string_literal bare_value_literal
  by (auto simp: toml_literal_def Let_def split: if_splits)


subsection \<open>What a setting does\<close>

text \<open>A setting that is not refused, as far as the file's text.\<close>

lemma config_set_ok:
  assumes "config_set io pf min_first stamp dotted val dry = (acts, Inr words)"
  obtains table key lit data existing before after where
    "split_config_key dotted = Inr (table, key)" "toml_literal val = Some lit" "cf_read io = Inr (data, existing)"
    "parse_config_toml data = Inr before" "parse_config_toml (toml_set before table key lit) = Inr after"
    "toml_lookup after table key = Some lit" "check_factory_change pf min_first after table key = None"
    "write_config io stamp existing dry (toml_lookup before table key) lit (toml_set before table key lit) = (acts, Inr words)"
  using assms unfolding config_set_def Let_def
  by (auto split: sum.splits prod.splits option.splits if_splits)

lemma write_config_acts:
  "write_config io stamp existing dry old lit changed = (acts, Inr words) \<Longrightarrow>
     acts = (if dry then [] else if existing then [AskBackup stamp, AskWrite changed] else [AskWrite changed])"
  by (auto simp: write_config_def Let_def split: if_splits sum.splits option.splits)

text \<open>C8. Setting a key the file has changes the bytes of that key's value and no other byte of the
  file: what stood before the value and what stood after it, comments and line ends included, is
  what stands there still.\<close>

theorem set_keeps_every_other_byte:
  assumes "parse_config_toml txt = Inr c" "toml_lookup c table key \<noteq> None"
  shows "\<exists>pre old post. txt = pre @ old @ post \<and> toml_set c table key lit = pre @ lit @ post \<and>
    toml_lookup c table key = Some (trim_space old)"
proof -
  obtain st where "find (\<lambda>st. is_entry table st \<and> st_key st = key) (ct_stmts c) = Some st"
    using assms(2) by (auto simp: toml_lookup_def)
  from set_present_bytes [OF assms(1) this] show ?thesis .
qed

definition sample_config :: string where
  "sample_config = ''cap = 3 # seats'' @ [CHR 0x0A] @ ''[factory]'' @ [CHR 0x0A] @ ''parts = [1,'' @ [CHR 0x0A] @ '' 2] # two'' @ [CHR 0x0A]"

theorem set_keeps_every_other_byte_witness:
  "\<exists>c. parse_config_toml sample_config = Inr c \<and>
     (\<exists>pre old post. sample_config = pre @ old @ post \<and> toml_set c ''factory'' ''parts'' ''7'' = pre @ ''7'' @ post \<and>
       toml_lookup c ''factory'' ''parts'' = Some (trim_space old))"
proof -
  have "case parse_config_toml sample_config of Inl e \<Rightarrow> False | Inr c \<Rightarrow> toml_lookup c ''factory'' ''parts'' \<noteq> None"
    by code_simp
  then obtain c where c: "parse_config_toml sample_config = Inr c" "toml_lookup c ''factory'' ''parts'' \<noteq> None"
    by (auto split: sum.splits)
  from set_keeps_every_other_byte [OF c, of "''7''"] c(1) show ?thesis by blast
qed


text \<open>C7. The config file refines the map from table and key to value text: whether the key is there,
  its table is there without it, or neither is, setting it gives a file that, when it parses,
  holds the map updated at that one key.\<close>

theorem set_refines_map_update:
  assumes "parse_config_toml txt = Inr c" "value_literal lit" "bare_key key" "bare_table table"
    and "parse_config_toml (toml_set c table key lit) = Inr c'"
  shows "config_map c' = (config_map c)((table, key) \<mapsto> trim_space lit)"
  by (rule set_map [OF assms])

theorem set_refines_map_update_witness:
  "\<exists>c c'. parse_config_toml sample_config = Inr c \<and> parse_config_toml (toml_set c ''boost'' ''seats'' ''4'') = Inr c' \<and>
     config_map c' = (config_map c)((''boost'', ''seats'') \<mapsto> trim_space ''4'')"
proof -
  have "case parse_config_toml sample_config of Inl e \<Rightarrow> False
    | Inr c \<Rightarrow> (case parse_config_toml (toml_set c ''boost'' ''seats'' ''4'') of Inl e \<Rightarrow> False | Inr c' \<Rightarrow> True)"
    by code_simp
  then obtain c c' where c: "parse_config_toml sample_config = Inr c" "parse_config_toml (toml_set c ''boost'' ''seats'' ''4'') = Inr c'"
    by (auto split: sum.splits)
  have "value_literal ''4''" "bare_key ''seats''" "bare_table ''boost''" by code_simp+
  from set_refines_map_update [OF c(1) this c(2)] c show ?thesis by blast
qed

text \<open>A value changed for another value on one line leaves a file that parses, with that key's
  value changed and every other key's as it was.\<close>

theorem changed_value_parses:
  assumes "parse_config_toml txt = Inr c" "value_literal lit" "toml_lookup c table key \<noteq> None"
  shows "\<exists>c'. parse_config_toml (toml_set c table key lit) = Inr c' \<and>
    config_map c' = (config_map c)((table, key) \<mapsto> trim_space lit)"
  by (rule set_present_map [OF assms])

theorem changed_value_parses_witness:
  "\<exists>c c'. parse_config_toml sample_config = Inr c \<and> parse_config_toml (toml_set c [] ''cap'' ''5'') = Inr c' \<and>
     config_map c' = (config_map c)(([], ''cap'') \<mapsto> trim_space ''5'')"
proof -
  have "case parse_config_toml sample_config of Inl e \<Rightarrow> False | Inr c \<Rightarrow> toml_lookup c [] ''cap'' \<noteq> None"
    by code_simp
  then obtain c where c: "parse_config_toml sample_config = Inr c" "toml_lookup c [] ''cap'' \<noteq> None"
    by (auto split: sum.splits)
  have "value_literal ''5''" by code_simp
  from changed_value_parses [OF c(1) this c(2)] c(1) show ?thesis by blast
qed


definition sample_io :: config_io where
  "sample_io = \<lparr>cf_path = ''c'', cf_read = Inr (sample_config, True), cf_backup = (\<lambda>s. Inr (''c.bak-'' @ s)), cf_write = (\<lambda>_. None)\<rparr>"






text \<open>A literal of plain characters is no string.\<close>

lemma toml_string_bare:
  assumes "valid_bare_value s" "s \<noteq> []"
  shows "toml_string s = (s, False)"
proof -
  obtain c t where s: "s = c # t" using assms(2) by (cases s) auto
  have "value_char c" using valid_bare_chars [OF assms(1)] by (simp add: s)
  note c = value_char_plain(3,4) [OF this]
  then show ?thesis by (simp add: toml_string_def s has_prefix_def Let_def)
qed

text \<open>C10. What was set is what is got: after a setting of a value that is on one line, well formed and
  begins with no quote and no bracket, reading the key from the text that was written gives the
  value back, letter for letter when it is kept as a string.\<close>

theorem get_gives_what_was_set:
  assumes set: "config_set io pf min_first stamp dotted val False = (acts, Inr words)" and written: "AskWrite new \<in> set acts"
    and val: "valid_utf8 val"
      "trim_space val \<noteq> [] \<Longrightarrow> \<not> List.member [dquote, squote, CHR ''['', CHR ''{''] (hd (trim_space val))"
  shows "config_get (io\<lparr>cf_read := Inr (new, True)\<rparr>) dotted =
    Inr (if trim_space val \<noteq> [] \<and> valid_bare_value (trim_space val) then trim_space val else val)"
proof -
  obtain table key lit data existing before after where ok: "split_config_key dotted = Inr (table, key)" "toml_literal val = Some lit"
    "parse_config_toml (toml_set before table key lit) = Inr after" "toml_lookup after table key = Some lit"
    "write_config io stamp existing False (toml_lookup before table key) lit (toml_set before table key lit) = (acts, Inr words)"
    using config_set_ok [OF set] by metis
  have "new = toml_set before table key lit"
    using write_config_acts [OF ok(5)] written by (auto split: if_splits)
  then have "config_get (io\<lparr>cf_read := Inr (new, True)\<rparr>) dotted = Inr (fst (toml_string lit))"
    using ok by (simp add: config_get_def)
  moreover have "fst (toml_string lit) = (if trim_space val \<noteq> [] \<and> valid_bare_value (trim_space val) then trim_space val else val)"
    using ok(2) val toml_string_bare toml_basic_string_back [OF val(1)]
    by (auto simp: toml_literal_def Let_def split: if_splits)
  ultimately show ?thesis by simp
qed

definition sample_named :: string where
  "sample_named = ''cap = 3 # seats'' @ [CHR 0x0A] @ ''[factory]'' @ [CHR 0x0A] @ ''parts = [1,'' @ [CHR 0x0A] @
     '' 2] # two'' @ [CHR 0x0A] @ ''name = '' @ [dquote] @ ''a '' @ [bslash, dquote, bslash] @ ''u0001'' @ [dquote, CHR 0x0A]"

lemma sample_literal: "toml_literal (''a '' @ [dquote, CHR 0x01]) = Some ([dquote] @ ''a '' @ [bslash, dquote, bslash] @ ''u0001'' @ [dquote])"
proof -
  have bytes: "byte CHR ''a'' = 97" "byte CHR '' '' = 32" "byte CHR ''0'' = 48" "byte CHR ''1'' = 49" by (simp_all add: byte_def)
  have chars: "char_of (97 :: nat) = CHR ''a''" "char_of (32 :: nat) = CHR '' ''" "char_of (48 :: nat) = CHR ''0''"
    "char_of (49 :: nat) = CHR ''1''" "char_of (34 :: nat) = dquote"
    by (metis bytes special_bytes char_of_byte)+
  have "trim_space (''a '' @ [dquote, CHR 0x01]) = ''a '' @ [dquote, CHR 0x01]" by code_simp
  moreover have "\<not> valid_bare_value (''a '' @ [dquote, CHR 0x01])" by code_simp
  moreover have "decode_runes (''a '' @ [dquote, CHR 0x01]) = [97, 32, 34, 1]" by code_simp
  moreover have "quote_rune 97 = ''a''" "quote_rune 32 = '' ''" "quote_rune 34 = [bslash, dquote]" "quote_rune 1 = bslash # ''u0001''"
    by (simp_all add: quote_rune_def encode_rune_low chars upper_hex_def)
  ultimately show ?thesis
    by (simp add: toml_literal_def contains_any_def toml_basic_string_def dquote_def squote_def creturn_def)
qed

lemma sample_set_words:
  "config_set sample_io (\<lambda>_. None) True ''t'' ''factory.name'' (''a '' @ [dquote, CHR 0x01]) False =
     ([AskBackup ''t'', AskWrite sample_named],
      Inr [''config: c'', ''old: unset'', ''new: '' @ [dquote] @ ''a '' @ [bslash, dquote, bslash] @ ''u0001'' @ [dquote],
        ''backup: c.bak-t'', ''way back: cp c.bak-t c''])"
  unfolding config_set_def sample_literal by code_simp

theorem get_gives_what_was_set_witness:
  "config_get (sample_io\<lparr>cf_read := Inr (sample_named, True)\<rparr>) ''factory.name'' =
     Inr (if trim_space (''a '' @ [dquote, CHR 0x01]) \<noteq> [] \<and> valid_bare_value (trim_space (''a '' @ [dquote, CHR 0x01]))
          then trim_space (''a '' @ [dquote, CHR 0x01]) else ''a '' @ [dquote, CHR 0x01])"
proof (rule get_gives_what_was_set [OF sample_set_words])
  show "valid_utf8 (''a '' @ [dquote, CHR 0x01])" by code_simp
  show "\<not> List.member [dquote, squote, CHR ''['', CHR ''{''] (hd (trim_space (''a '' @ [dquote, CHR 0x01])))" by code_simp
qed simp

subsection \<open>What the checks miss\<close>

text \<open>
  A bound that is no number passes the check that it is above 0 and at most 1, and then bounds
  nothing: \<^verbatim>\<open>strconv.ParseFloat\<close> reads \<open>nan\<close>, every comparison with it is false, and \<open>nan\<close> is
  a bare value \<^verbatim>\<open>mw config set\<close> takes.
\<close>

lemma nan_bound_passes:
  assumes "pf ''nan'' = Some NaN"
  shows "invest_share_bounds pf min_first [''invest_share_min'' \<mapsto> ''nan''] = Inr (NaN, default_share_max)"
    "valid_bare_value ''nan''"
proof -
  have "share_said [''invest_share_min'' \<mapsto> ''nan''] ''invest_share_min'' = ''nan''"
    "share_said [''invest_share_min'' \<mapsto> ''nan''] ''invest_share_max'' = []" by code_simp+
  then show "invest_share_bounds pf min_first [''invest_share_min'' \<mapsto> ''nan''] = Inr (NaN, default_share_max)"
    using assms by (simp add: invest_share_bounds_def share_bound_def float_le_def float_less_def Let_def default_share_max_def)
  show "valid_bare_value ''nan''" by code_simp
qed

text \<open>
  A key given as part of a dotted key and again in the table of its name is not seen to be given
  twice: \<open>a.b = 1\<close> above \<open>[a]\<close> and \<open>b = 2\<close> parses.
\<close>

lemma dotted_key_given_twice:
  "case parse_config_toml (''a.b = 1'' @ [CHR 0x0A] @ ''[a]'' @ [CHR 0x0A] @ ''b = 2'') of
     Inl e \<Rightarrow> False
   | Inr c \<Rightarrow> toml_lookup c [] ''a.b'' = Some ''1'' \<and> toml_lookup c ''a'' ''b'' = Some ''2''"
  by code_simp

end
