(* ===== verification/GraphSearch.thy ===== *)
theory GraphSearch
  imports GoPrelude
begin

text \<open>
  Walks in a graph given by its successor lists, and the contract of a breadth-first
  search over it.  Three parts of the program search a graph: the shortest run of an
  event machine, the stories a story waits on, and the loop of stories that wait on each
  other.  Their proofs share the notions of this theory.
\<close>

definition edge :: "('a \<Rightarrow> 'a list) \<Rightarrow> 'a \<Rightarrow> 'a \<Rightarrow> bool" where
  "edge succs x y \<longleftrightarrow> y \<in> set (succs x)"

inductive walk :: "('a \<Rightarrow> 'a list) \<Rightarrow> nat \<Rightarrow> 'a \<Rightarrow> 'a \<Rightarrow> bool" for succs where
  walk_nil: "walk succs 0 x x"
| walk_snoc: "walk succs n x y \<Longrightarrow> z \<in> set (succs y) \<Longrightarrow> walk succs (Suc n) x z"

inductive_cases walk_SucE: "walk succs (Suc n) x z"

lemma walk_imp_reach: "walk succs n x y \<Longrightarrow> (edge succs)\<^sup>*\<^sup>* x y"
  by (induction rule: walk.induct) (auto simp: edge_def intro: rtranclp.rtrancl_into_rtrancl)

lemma reach_imp_walk: "(edge succs)\<^sup>*\<^sup>* x y \<Longrightarrow> \<exists>n. walk succs n x y"
  by (induction rule: rtranclp.induct) (auto simp: edge_def intro: walk.intros)

lemma reach_iff_walk: "(edge succs)\<^sup>*\<^sup>* x y \<longleftrightarrow> (\<exists>n. walk succs n x y)"
  using walk_imp_reach reach_imp_walk by metis

text \<open>A run written out: the states it passes through, the first one left out.\<close>

fun is_run :: "('a \<Rightarrow> 'a list) \<Rightarrow> 'a \<Rightarrow> 'a list \<Rightarrow> bool" where
  "is_run succs x [] = True"
| "is_run succs x (y # ys) = (y \<in> set (succs x) \<and> is_run succs y ys)"

lemma is_run_append:
  "is_run succs x (ys @ zs) \<longleftrightarrow> is_run succs x ys \<and> is_run succs (last (x # ys)) zs"
  by (induction ys arbitrary: x) auto

lemma is_run_walk: "is_run succs x ys \<Longrightarrow> walk succs (length ys) x (last (x # ys))"
proof (induction ys rule: rev_induct)
  case Nil
  show ?case by (simp add: walk_nil)
next
  case (snoc y ys)
  then show ?case by (auto simp: is_run_append intro!: walk_snoc)
qed

text \<open>
  The state of a breadth-first search from \<open>src\<close>: the nodes seen \<open>V\<close>, how far each
  is \<open>d\<close>, and the queue \<open>Q\<close>.  Seen nodes that have left the queue have all their
  successors seen; the queue is in order of distance and never two levels deep.
\<close>

definition bfs_state ::
  "('a \<Rightarrow> 'a list) \<Rightarrow> 'a \<Rightarrow> 'a set \<Rightarrow> ('a \<Rightarrow> nat) \<Rightarrow> 'a list \<Rightarrow> bool" where
  "bfs_state succs src V d Q \<longleftrightarrow>
     src \<in> V \<and> d src = 0 \<and> set Q \<subseteq> V \<and> distinct Q \<and> sorted (map d Q) \<and>
     (\<forall>q \<in> set Q. d q \<le> Suc (d (hd Q))) \<and>
     (\<forall>v \<in> V - set Q. set (succs v) \<subseteq> V \<and> (\<forall>w \<in> set (succs v). d w \<le> Suc (d v)) \<and>
        (\<forall>q \<in> set Q. d v \<le> d q)) \<and>
     (\<forall>v \<in> V. walk succs (d v) src v)"

locale finite_graph =
  fixes succs :: "'a \<Rightarrow> 'a list"
    and nodes :: "'a set"
  assumes finite_nodes: "finite nodes"
    and succs_nodes: "set (succs x) \<subseteq> nodes"
begin

lemma unseen_decreases:
  assumes "w \<in> set (succs x)" "w \<notin> V"
  shows "card (nodes - V) = Suc (card (nodes - insert w V))"
proof -
  have "w \<in> nodes - V" using assms succs_nodes by auto
  moreover have "nodes - insert w V = (nodes - V) - {w}" by auto
  ultimately show ?thesis
    using finite_nodes by (metis card_Suc_Diff1 finite_Diff)
qed

lemma bfs_start: "bfs_state succs src {src} (\<lambda>_. 0) [src]"
  by (auto simp: bfs_state_def intro: walk_nil)

lemma bfs_push:
  assumes st: "bfs_state succs src V d (x # Q)" and w: "w \<in> set (succs x)" "w \<notin> V"
  shows "bfs_state succs src (insert w V) (d(w := Suc (d x))) (x # Q @ [w])"
proof -
  from st have xV: "x \<in> V" and srcV: "src \<in> V" and QV: "set Q \<subseteq> V"
    by (auto simp: bfs_state_def)
  from w(2) xV QV have ne: "x \<noteq> w" "w \<notin> set Q" by auto
  have m: "map (d(w := Suc (d x))) Q = map d Q" using ne by auto
  have "walk succs (Suc (d x)) src w"
    using st xV w(1) by (auto simp: bfs_state_def intro: walk_snoc)
  moreover have "d q \<le> Suc (d x)" if "q \<in> set Q" for q
    using st that by (auto simp: bfs_state_def)
  moreover have "d v \<le> d x" if "v \<in> V" "v \<notin> set (x # Q)" for v
    using st that by (auto simp: bfs_state_def)
  ultimately show ?thesis
    using st w(2) ne srcV unfolding bfs_state_def
    by (auto simp: m sorted_append intro: le_SucI)
qed

lemma bfs_pop:
  assumes st: "bfs_state succs src V d (x # Q)" and all: "set (succs x) \<subseteq> V"
  shows "bfs_state succs src V d Q"
proof -
  have near: "d w \<le> Suc (d x)" if "w \<in> V" for w
  proof (cases "w \<in> set (x # Q)")
    case True
    with st show ?thesis unfolding bfs_state_def by fastforce
  next
    case False
    with st that have "d w \<le> d x" by (auto simp: bfs_state_def)
    then show ?thesis by simp
  qed
  have head: "d x \<le> d q" if "q \<in> set Q" for q
    using st that by (auto simp: bfs_state_def)
  have hdQ: "Q \<noteq> [] \<Longrightarrow> d x \<le> d (hd Q)"
    using head by simp
  have "\<forall>q \<in> set Q. d q \<le> Suc (d (hd Q))"
    using near st hdQ by (fastforce simp: bfs_state_def)
  moreover have "set (succs v) \<subseteq> V \<and> (\<forall>w \<in> set (succs v). d w \<le> Suc (d v)) \<and>
      (\<forall>q \<in> set Q. d v \<le> d q)" if v: "v \<in> V - set Q" for v
  proof (cases "v = x")
    case True
    with all near head show ?thesis by auto
  next
    case False
    with v have "v \<in> V - set (x # Q)" by auto
    with st show ?thesis by (auto simp: bfs_state_def)
  qed
  ultimately show ?thesis
    using st unfolding bfs_state_def by auto
qed

text \<open>Whatever a walk reaches is seen, no further than the walk, or the queue is behind it.\<close>

lemma bfs_walk:
  assumes st: "bfs_state succs src V d Q" and w: "walk succs n src y"
  shows "(y \<in> V \<and> d y \<le> n) \<or> (\<exists>q \<in> set Q. d q < n)"
  using w st
proof (induction rule: walk.induct)
  case (walk_nil x)
  then show ?case by (simp add: bfs_state_def)
next
  case (walk_snoc n x y z)
  then consider (seen) "y \<in> V" "d y \<le> n" | (behind) q where "q \<in> set Q" "d q < n"
    by blast
  then show ?case
  proof cases
    case seen
    show ?thesis
    proof (cases "y \<in> set Q")
      case True
      with seen show ?thesis by force
    next
      case False
      with seen walk_snoc.prems walk_snoc.hyps show ?thesis
        unfolding bfs_state_def by force
    qed
  next
    case behind
    then show ?thesis by force
  qed
qed

lemma bfs_shortest:
  assumes "bfs_state succs src V d (x # Q)" "y \<notin> V" "walk succs n src y"
  shows "Suc (d x) \<le> n"
proof -
  from bfs_walk [OF assms(1,3)] assms(2) obtain q where q: "q \<in> set (x # Q)" "d q < n"
    by blast
  moreover have "d x \<le> d q" using q(1) assms(1) by (auto simp: bfs_state_def)
  ultimately show ?thesis by simp
qed

lemma bfs_done:
  assumes "bfs_state succs src V d []" "(edge succs)\<^sup>*\<^sup>* src y"
  shows "y \<in> V"
  using bfs_walk [OF assms(1)] reach_imp_walk [OF assms(2)] by fastforce

lemma bfs_seen_reach:
  assumes "bfs_state succs src V d Q" "y \<in> V"
  shows "(edge succs)\<^sup>*\<^sup>* src y"
  using assms by (auto simp: bfs_state_def intro: walk_imp_reach)

end

end
