(* ===== verification/EventMachine.thy ===== *)
theory EventMachine
  imports GoStrings GraphSearch
begin

text \<open>
  \<^verbatim>\<open>domain/events/machine.go\<close>: the factory's four state machines as tables, the check of one
  transition, and the shortest run between two states that a watcher records when it saw
  only the two ends.  A machine and a state are strings, as in the code: a name that is
  none of the four is a machine the tables do not have.  \<open>Start\<close>, the empty text, is the
  state before a machine's first and is not one of its states.
\<close>

type_synonym machine = string
type_synonym mstate = string

abbreviation MachineBead :: machine where "MachineBead \<equiv> ''bead''"
abbreviation MachineCard :: machine where "MachineCard \<equiv> ''card''"
abbreviation MachineTalk :: machine where "MachineTalk \<equiv> ''talk''"
abbreviation MachineJob :: machine where "MachineJob \<equiv> ''job''"

abbreviation BeadHeld :: mstate where "BeadHeld \<equiv> ''held''"
abbreviation BeadOpen :: mstate where "BeadOpen \<equiv> ''open''"
abbreviation BeadClaimed :: mstate where "BeadClaimed \<equiv> ''claimed''"
abbreviation BeadRunning :: mstate where "BeadRunning \<equiv> ''running''"
abbreviation BeadLanded :: mstate where "BeadLanded \<equiv> ''landed''"
abbreviation BeadRefused :: mstate where "BeadRefused \<equiv> ''refused''"
abbreviation BeadVerified :: mstate where "BeadVerified \<equiv> ''verified''"
abbreviation BeadClosed :: mstate where "BeadClosed \<equiv> ''closed''"

abbreviation CardAsked :: mstate where "CardAsked \<equiv> ''asked''"
abbreviation CardAnswered :: mstate where "CardAnswered \<equiv> ''answered''"
abbreviation CardApplied :: mstate where "CardApplied \<equiv> ''applied''"

abbreviation TalkOpen :: mstate where "TalkOpen \<equiv> ''open''"
abbreviation TalkTurn :: mstate where "TalkTurn \<equiv> ''turn''"
abbreviation TalkAnswer :: mstate where "TalkAnswer \<equiv> ''answer''"
abbreviation TalkEnded :: mstate where "TalkEnded \<equiv> ''ended''"

abbreviation JobScheduled :: mstate where "JobScheduled \<equiv> ''scheduled''"
abbreviation JobRunning :: mstate where "JobRunning \<equiv> ''running''"
abbreviation JobDone :: mstate where "JobDone \<equiv> ''done''"
abbreviation JobFailed :: mstate where "JobFailed \<equiv> ''failed''"

abbreviation (input) Start :: mstate where "Start \<equiv> []"

subsection \<open>The tables\<close>

record mtable =
  tstates :: "mstate list"
  tnext :: "(mstate \<times> mstate list) list"

definition bead_table :: mtable where
  "bead_table = \<lparr>
     tstates = [BeadHeld, BeadOpen, BeadClaimed, BeadRunning, BeadLanded, BeadRefused,
                BeadVerified, BeadClosed],
     tnext =
       [(Start, [BeadHeld, BeadOpen]),
        (BeadHeld, [BeadOpen, BeadClosed]),
        (BeadOpen, [BeadHeld, BeadClaimed, BeadClosed]),
        (BeadClaimed, [BeadRunning, BeadOpen, BeadHeld]),
        (BeadRunning, [BeadLanded, BeadRefused, BeadOpen, BeadHeld]),
        (BeadRefused, [BeadOpen, BeadHeld, BeadClosed]),
        (BeadLanded, [BeadVerified, BeadClosed, BeadOpen, BeadHeld]),
        (BeadVerified, [BeadClosed]),
        (BeadClosed, [BeadOpen, BeadVerified])]\<rparr>"

definition card_table :: mtable where
  "card_table = \<lparr>
     tstates = [CardAsked, CardAnswered, CardApplied],
     tnext =
       [(Start, [CardAsked]),
        (CardAsked, [CardAnswered]),
        (CardAnswered, [CardApplied])]\<rparr>"

definition talk_table :: mtable where
  "talk_table = \<lparr>
     tstates = [TalkOpen, TalkTurn, TalkAnswer, TalkEnded],
     tnext =
       [(Start, [TalkOpen]),
        (TalkOpen, [TalkTurn, TalkEnded]),
        (TalkTurn, [TalkTurn, TalkAnswer, TalkEnded]),
        (TalkAnswer, [TalkTurn, TalkEnded])]\<rparr>"

definition job_table :: mtable where
  "job_table = \<lparr>
     tstates = [JobScheduled, JobRunning, JobDone, JobFailed],
     tnext =
       [(Start, [JobScheduled]),
        (JobScheduled, [JobRunning]),
        (JobRunning, [JobDone, JobFailed]),
        (JobDone, [JobScheduled]),
        (JobFailed, [JobScheduled])]\<rparr>"

definition mtables :: "machine \<Rightarrow> mtable option" where
  "mtables = map_of
     [(MachineBead, bead_table), (MachineCard, card_table),
      (MachineTalk, talk_table), (MachineJob, job_table)]"

definition machines :: "machine list" where
  "machines = [MachineBead, MachineCard, MachineTalk, MachineJob]"

text \<open>A map read at a key it does not have gives the zero value: no states, no way on.\<close>

definition next_of :: "mtable \<Rightarrow> mstate \<Rightarrow> mstate list" where
  "next_of t s = (case map_of (tnext t) s of None \<Rightarrow> [] | Some ns \<Rightarrow> ns)"

definition states_of :: "machine \<Rightarrow> mstate list" where
  "states_of m = (case mtables m of None \<Rightarrow> [] | Some t \<Rightarrow> tstates t)"

definition has_state :: "machine \<Rightarrow> mstate \<Rightarrow> bool" where
  "has_state m s \<longleftrightarrow> List.member (states_of m) s"

subsection \<open>One transition\<close>

datatype transition_error =
    NoMachine machine
  | RefusedNoState machine mstate mstate mstate  \<comment> \<open>the state the machine does not have comes last\<close>
  | RefusedMove machine mstate mstate

fun missing_state :: "machine \<Rightarrow> mstate list \<Rightarrow> mstate option" where
  "missing_state m [] = None"
| "missing_state m (s # ss) =
     (if s \<noteq> Start \<and> \<not> has_state m s then Some s else missing_state m ss)"

definition transition :: "machine \<Rightarrow> mstate \<Rightarrow> mstate \<Rightarrow> transition_error option" where
  "transition m from to =
     (case mtables m of
        None \<Rightarrow> Some (NoMachine m)
      | Some t \<Rightarrow>
          (case missing_state m [from, to] of
             Some s \<Rightarrow> Some (RefusedNoState m from to s)
           | None \<Rightarrow>
               if List.member (next_of t from) to then None
               else Some (RefusedMove m from to)))"

subsection \<open>The shortest run\<close>

type_synonym came = "mstate \<Rightarrow> mstate option"

text \<open>
  The inner loop: the successors of the state just taken from the queue.  \<open>Inl\<close> is the
  target found, \<open>Inr\<close> the search going on with more seen and more queued.
\<close>

fun visit_nexts ::
  "mstate \<Rightarrow> mstate \<Rightarrow> mstate list \<Rightarrow> came \<Rightarrow> mstate list \<Rightarrow> came + (came \<times> mstate list)" where
  "visit_nexts at to [] came queue = Inr (came, queue)"
| "visit_nexts at to (n # ns) came queue =
     (if came n \<noteq> None then visit_nexts at to ns came queue
      else if n = to then Inl (came(n \<mapsto> at))
      else visit_nexts at to ns (came(n \<mapsto> at)) (queue @ [n]))"

text \<open>The way back: from the target along \<open>came\<close>, which a loop follows until it is at the
  start.  \<open>None\<close> is a loop that never gets there.\<close>

partial_function (option) walk_back ::
  "came \<Rightarrow> mstate \<Rightarrow> mstate \<Rightarrow> mstate list \<Rightarrow> mstate list option" where
  "walk_back came from s acc =
     (if s = from then Some acc
      else walk_back came from (case came s of None \<Rightarrow> [] | Some p \<Rightarrow> p) (s # acc))"

definition table_nodes :: "mtable \<Rightarrow> mstate set" where
  "table_nodes t = \<Union> (set (map (set \<circ> snd) (tnext t)))"

lemma finite_table_nodes [simp]: "finite (table_nodes t)"
  by (auto simp: table_nodes_def)

lemma next_of_nodes: "set (next_of t s) \<subseteq> table_nodes t"
proof (cases "map_of (tnext t) s")
  case (Some ns)
  then have "(s, ns) \<in> set (tnext t)" by (rule map_of_SomeD)
  with Some show ?thesis by (force simp: next_of_def table_nodes_def)
qed (simp add: next_of_def)

interpretation mt: finite_graph "next_of t" "table_nodes t" for t
  by unfold_locales (simp_all add: next_of_nodes)

lemma visit_nexts_measure:
  "visit_nexts at to ns came queue = Inr (came', queue') \<Longrightarrow> set ns \<subseteq> set (next_of t at) \<Longrightarrow>
   card (table_nodes t - dom came') + length queue' = card (table_nodes t - dom came) + length queue"
proof (induction ns arbitrary: came queue)
  case Nil
  then show ?case by simp
next
  case (Cons n ns)
  show ?case
  proof (cases "came n")
    case None
    then have "card (table_nodes t - dom came) = Suc (card (table_nodes t - insert n (dom came)))"
      using Cons.prems(2) by (intro mt.unseen_decreases) auto
    moreover have "n \<noteq> to" using None Cons.prems(1) by auto
    ultimately show ?thesis
      using None Cons.prems Cons.IH [of "came(n \<mapsto> at)" "queue @ [n]"]
      by (simp del: fun_upd_apply)
  next
    case (Some a)
    with Cons show ?thesis by auto
  qed
qed

function search_path ::
  "mtable \<Rightarrow> mstate \<Rightarrow> mstate \<Rightarrow> came \<Rightarrow> mstate list \<Rightarrow> mstate list option" where
  "search_path t from to came [] = Some []"
| "search_path t from to came (at # queue) =
     (case visit_nexts at to (next_of t at) came queue of
        Inl came' \<Rightarrow> walk_back came' from to []
      | Inr cq \<Rightarrow> search_path t from to (fst cq) (snd cq))"
  by pat_completeness auto
termination
  by (relation "measure (\<lambda>(t, from, to, came, queue). card (table_nodes t - dom came) + length queue)")
     (auto dest: visit_nexts_measure [OF _ subset_refl])

text \<open>\<open>Some []\<close> is the code's \<open>nil\<close>; \<open>None\<close> would be a search that never returns.\<close>

definition event_path :: "machine \<Rightarrow> mstate \<Rightarrow> mstate \<Rightarrow> mstate list option" where
  "event_path m from to =
     (case mtables m of
        None \<Rightarrow> Some []
      | Some t \<Rightarrow>
          if from = to \<or> \<not> has_state m to then Some []
          else search_path t from to [from \<mapsto> from] [from])"

subsection \<open>The search is a breadth-first search\<close>

definition came_ok :: "mtable \<Rightarrow> mstate \<Rightarrow> came \<Rightarrow> (mstate \<Rightarrow> nat) \<Rightarrow> bool" where
  "came_ok t from came d \<longleftrightarrow>
     came from = Some from \<and> d from = 0 \<and>
     (\<forall>s p. came s = Some p \<and> s \<noteq> from \<longrightarrow>
        p \<in> dom came \<and> s \<in> set (next_of t p) \<and> d s = Suc (d p))"

lemma came_ok_push:
  assumes "came_ok t from came d" "at \<in> dom came" "n \<in> set (next_of t at)" "came n = None"
  shows "came_ok t from (came(n \<mapsto> at)) (d(n := Suc (d at)))"
proof -
  from assms have "n \<noteq> from" "n \<noteq> at" by (auto simp: came_ok_def)
  with assms show ?thesis unfolding came_ok_def by (auto split: if_splits)
qed

lemma walk_back_run:
  assumes "came_ok t from came d" "s \<in> dom came"
  shows "\<exists>r. walk_back came from s acc = Some (r @ acc) \<and> is_run (next_of t) from r \<and>
             last (from # r) = s \<and> length r = d s"
  using assms(2)
proof (induction "d s" arbitrary: s acc rule: less_induct)
  case less
  show ?case
  proof (cases "s = from")
    case True
    with assms(1) have "d s = 0" by (simp add: came_ok_def)
    with True show ?thesis by (intro exI [of _ "[]"]) (simp add: walk_back.simps)
  next
    case False
    from less.prems obtain p where p: "came s = Some p" by auto
    with assms(1) False have pd: "p \<in> dom came" "s \<in> set (next_of t p)" "d s = Suc (d p)"
      by (auto simp: came_ok_def)
    with less.hyps [of p "s # acc"] obtain r where
      r: "walk_back came from p (s # acc) = Some (r @ s # acc)" "is_run (next_of t) from r"
         "last (from # r) = p" "length r = d p" by auto
    from r p False have "walk_back came from s acc = Some ((r @ [s]) @ acc)"
      by (simp add: walk_back.simps [of came "from" s])
    moreover have "is_run (next_of t) from (r @ [s])"
      using r pd by (simp add: is_run_append)
    ultimately show ?thesis using r pd by (intro exI [of _ "r @ [s]"]) simp
  qed
qed

lemma visit_nexts_bfs:
  assumes "bfs_state (next_of t) from (dom came) d (at # queue)" "came_ok t from came d"
    and "set ns \<subseteq> set (next_of t at)" "to \<notin> dom came"
  shows "case visit_nexts at to ns came queue of
      Inl c \<Rightarrow> \<exists>d'. came_ok t from c d' \<and> to \<in> dom c \<and>
        (\<forall>n. walk (next_of t) n from to \<longrightarrow> d' to \<le> n)
    | Inr (c, q) \<Rightarrow> \<exists>d'. bfs_state (next_of t) from (dom c) d' (at # q) \<and> came_ok t from c d' \<and>
        set ns \<subseteq> dom c \<and> dom came \<subseteq> dom c \<and> to \<notin> dom c"
  using assms
proof (induction ns arbitrary: came queue d)
  case Nil
  then show ?case by auto
next
  case (Cons n ns)
  have at: "at \<in> dom came" using Cons.prems(1) by (auto simp: bfs_state_def)
  have nsub: "n \<in> set (next_of t at)" and nssub: "set ns \<subseteq> set (next_of t at)"
    using Cons.prems(3) by auto
  show ?case
  proof (cases "came n")
    case (Some a)
    then have "n \<in> dom came" by auto
    with Some Cons.IH [OF Cons.prems(1,2) nssub Cons.prems(4)] show ?thesis
      by (fastforce split: sum.splits)
  next
    case None
    let ?c = "came(n \<mapsto> at)" and ?d = "d(n := Suc (d at))"
    have nV: "n \<notin> dom came" using None by auto
    have co: "came_ok t from ?c ?d"
      using came_ok_push [OF Cons.prems(2) at nsub None] .
    show ?thesis
    proof (cases "n = to")
      case True
      have "Suc (d at) \<le> k" if "walk (next_of t) k from to" for k
        using mt.bfs_shortest [OF Cons.prems(1) Cons.prems(4) that] .
      with co True None show ?thesis by (auto intro!: exI [of _ ?d])
    next
      case False
      have "bfs_state (next_of t) from (dom ?c) ?d (at # queue @ [n])"
        using mt.bfs_push [OF Cons.prems(1) nsub nV] by simp
      moreover have "to \<notin> dom ?c" using False Cons.prems(4) by auto
      ultimately have "case visit_nexts at to ns ?c (queue @ [n]) of
          Inl c \<Rightarrow> \<exists>d'. came_ok t from c d' \<and> to \<in> dom c \<and>
            (\<forall>n. walk (next_of t) n from to \<longrightarrow> d' to \<le> n)
        | Inr (c, q) \<Rightarrow> \<exists>d'. bfs_state (next_of t) from (dom c) d' (at # q) \<and> came_ok t from c d' \<and>
            set ns \<subseteq> dom c \<and> dom ?c \<subseteq> dom c \<and> to \<notin> dom c"
        using Cons.IH co nssub by blast
      with None False show ?thesis by (auto split: sum.splits)
    qed
  qed
qed

lemma search_path_spec:
  assumes "bfs_state (next_of t) from (dom came) d queue" "came_ok t from came d" "to \<notin> dom came"
  shows "\<exists>p. search_path t from to came queue = Some p \<and>
     (if (edge (next_of t))\<^sup>*\<^sup>* from to
      then p \<noteq> [] \<and> is_run (next_of t) from p \<and> last p = to \<and>
           (\<forall>n. walk (next_of t) n from to \<longrightarrow> length p \<le> n)
      else p = [])"
  using assms
proof (induction t "from" to came queue arbitrary: d rule: search_path.induct)
  case (1 t src to came)
  then have "\<not> (edge (next_of t))\<^sup>*\<^sup>* src to" using mt.bfs_done by blast
  then show ?case by simp
next
  case (2 t src to came at queue)
  note visit = visit_nexts_bfs [OF 2(2,3) subset_refl 2(4)]
  show ?case
  proof (cases "visit_nexts at to (next_of t at) came queue")
    case (Inl c)
    with visit obtain d' where d': "came_ok t src c d'" "to \<in> dom c"
        "\<And>n. walk (next_of t) n src to \<Longrightarrow> d' to \<le> n" by auto
    from walk_back_run [OF d'(1,2), of "[]"] obtain r where
      r: "walk_back c src to [] = Some r" "is_run (next_of t) src r"
         "last (src # r) = to" "length r = d' to" by auto
    have "src \<in> dom came" using 2(3) by (auto simp: came_ok_def)
    with 2(4) r(3) have ne: "r \<noteq> []" by (cases r) auto
    have "(edge (next_of t))\<^sup>*\<^sup>* src to"
      using is_run_walk [OF r(2)] r(3) walk_imp_reach by metis
    with Inl r ne d'(3) show ?thesis by (cases r) auto
  next
    case (Inr cq)
    obtain c q where cq: "cq = (c, q)" by (cases cq)
    with Inr visit obtain d' where d': "bfs_state (next_of t) src (dom c) d' (at # q)"
        "came_ok t src c d'" "set (next_of t at) \<subseteq> dom c" "to \<notin> dom c" by auto
    have "bfs_state (next_of t) src (dom c) d' q"
      using mt.bfs_pop [OF d'(1,3)] .
    with 2(1) [OF Inr] cq d' Inr show ?thesis by simp
  qed
qed

text \<open>A run the checks of the machine allow, step by step.\<close>

fun allowed_run :: "machine \<Rightarrow> mstate \<Rightarrow> mstate list \<Rightarrow> bool" where
  "allowed_run m s [] = True"
| "allowed_run m s (x # xs) = (transition m s x = None \<and> allowed_run m x xs)"

definition wf_table :: "mtable \<Rightarrow> bool" where
  "wf_table t \<longleftrightarrow>
     list_all (\<lambda>(s, ns). (s = Start \<or> List.member (tstates t) s) \<and>
                          list_all (\<lambda>n. n \<noteq> Start \<and> List.member (tstates t) n) ns) (tnext t)"

lemma wf_tables: "mtables m = Some t \<Longrightarrow> wf_table t"
  by (auto simp: mtables_def wf_table_def bead_table_def card_table_def talk_table_def job_table_def
      split: if_splits)

lemma next_of_wf:
  assumes "mtables m = Some t" "n \<in> set (next_of t s)"
  shows "(s = Start \<or> has_state m s) \<and> n \<noteq> Start \<and> has_state m n"
proof -
  from assms(2) obtain ns where "map_of (tnext t) s = Some ns" "n \<in> set ns"
    by (cases "map_of (tnext t) s") (auto simp: next_of_def)
  with wf_tables [OF assms(1)] assms(1) show ?thesis
    by (fastforce simp: wf_table_def list_all_iff has_state_def states_of_def dest!: map_of_SomeD)
qed

lemma transition_iff:
  assumes "mtables m = Some t"
  shows "transition m s n = None \<longleftrightarrow> n \<in> set (next_of t s)"
  using next_of_wf [OF assms, of n s]
  by (auto simp: transition_def assms split: option.splits if_splits)

lemma transition_known: "transition m s n = None \<Longrightarrow> \<exists>t. mtables m = Some t"
  by (auto simp: transition_def split: option.splits)

lemma allowed_run_iff:
  assumes "mtables m = Some t"
  shows "allowed_run m s xs \<longleftrightarrow> is_run (next_of t) s xs"
  by (induction xs arbitrary: s) (simp_all add: transition_iff [OF assms])

lemma event_path_spec:
  "\<exists>p. event_path m from to = Some p \<and>
     (if from \<noteq> to \<and> has_state m to \<and> (\<exists>xs. allowed_run m from xs \<and> last (from # xs) = to)
      then p \<noteq> [] \<and> allowed_run m from p \<and> last p = to \<and>
           (\<forall>xs. allowed_run m from xs \<and> last (from # xs) = to \<longrightarrow> length p \<le> length xs)
      else p = [])"
proof (cases "mtables m")
  case None
  then show ?thesis by (simp add: event_path_def has_state_def states_of_def)
next
  case (Some t)
  note run_iff = allowed_run_iff [OF Some]
  show ?thesis
  proof (cases "from = to \<or> \<not> has_state m to")
    case True
    with Some show ?thesis by (auto simp: event_path_def)
  next
    case False
    have b: "bfs_state (next_of t) from (dom [from \<mapsto> from]) (\<lambda>_. 0) [from]"
      using mt.bfs_start by simp
    have c: "came_ok t from [from \<mapsto> from] (\<lambda>_. 0)"
      by (auto simp: came_ok_def split: if_splits)
    from search_path_spec [OF b c, of to] False obtain p where
      p: "search_path t from to [from \<mapsto> from] [from] = Some p"
         "if (edge (next_of t))\<^sup>*\<^sup>* from to
          then p \<noteq> [] \<and> is_run (next_of t) from p \<and> last p = to \<and>
               (\<forall>n. walk (next_of t) n from to \<longrightarrow> length p \<le> n)
          else p = []" by auto
    have ep: "event_path m from to = Some p"
      using False Some p(1) by (simp add: event_path_def)
    show ?thesis
    proof (cases "(edge (next_of t))\<^sup>*\<^sup>* from to")
      case True
      with p(2) have pp: "p \<noteq> []" "is_run (next_of t) from p" "last p = to"
        "\<And>n. walk (next_of t) n from to \<Longrightarrow> length p \<le> n" by auto
      have "length p \<le> length xs" if "is_run (next_of t) from xs" "last (from # xs) = to" for xs
        using pp(4) is_run_walk [OF that(1)] that(2) by simp
      moreover have "\<exists>xs. is_run (next_of t) from xs \<and> last (from # xs) = to"
        using pp by (intro exI [of _ p]) simp
      ultimately show ?thesis using ep pp False by (simp add: run_iff)
    next
      case noreach: False
      have "\<not> (is_run (next_of t) from xs \<and> last (from # xs) = to)" for xs
        using is_run_walk noreach walk_imp_reach by metis
      with ep noreach p(2) show ?thesis by (simp add: run_iff)
    qed
  qed
qed

subsection \<open>Properties\<close>

text \<open>C19. The run a watcher records between two states it saw is found whenever the machine has
  one, every step of it is a transition the machine allows, it ends at the state it was
  asked for, and no allowed run between the two is shorter; the search always returns.  It
  returns none only for equal ends, a target the machine does not have, or ends no run
  joins.\<close>

theorem event_path_shortest_allowed_run:
  "\<exists>p. event_path m from to = Some p \<and>
     (p \<noteq> [] \<longleftrightarrow> from \<noteq> to \<and> has_state m to \<and>
        (\<exists>xs. allowed_run m from xs \<and> last (from # xs) = to)) \<and>
     (p \<noteq> [] \<longrightarrow> allowed_run m from p \<and> last p = to \<and>
        (\<forall>xs. allowed_run m from xs \<and> last (from # xs) = to \<longrightarrow> length p \<le> length xs))"
  using event_path_spec [of m "from" to] by (auto split: if_splits)

theorem event_path_shortest_allowed_run_witness:
  "\<exists>p. event_path MachineBead Start BeadLanded = Some p \<and> p \<noteq> [] \<and>
     (\<forall>xs. allowed_run MachineBead Start xs \<and> last (Start # xs) = BeadLanded \<longrightarrow> length p \<le> length xs)"
proof -
  have "event_path MachineBead Start BeadLanded =
      Some [BeadOpen, BeadClaimed, BeadRunning, BeadLanded]"
    by (simp add: event_path_def search_path.simps walk_back.simps next_of_def bead_table_def
        has_state_def states_of_def mtables_def)
  with event_path_shortest_allowed_run [of MachineBead Start BeadLanded] show ?thesis by auto
qed

end
