(* ===== verification/EventLog.thy ===== *)
theory EventLog
  imports EventMachine GoNumbers Utf8 "HOL-Library.Word"
begin

text \<open>
  \<^verbatim>\<open>domain/events/events.go\<close>, \<^verbatim>\<open>control.go\<close> and \<^verbatim>\<open>handover.go\<close>: an event of the factory's log,
  the batch of consecutive events one record carries, the words of a control event and
  the detail of a handover, and the checks that say why one of them is not one the
  factory writes.  Sequence numbers are 64-bit words, as \<open>uint64\<close> in the code, and the
  arithmetic of a batch is done on them.
\<close>

subsection \<open>Kinds and lanes\<close>

abbreviation KindBeadChanged :: string where "KindBeadChanged \<equiv> ''bead_changed''"
abbreviation KindCardAsked :: string where "KindCardAsked \<equiv> ''card_asked''"
abbreviation KindCardAnswered :: string where "KindCardAnswered \<equiv> ''card_answered''"
abbreviation KindCardApplied :: string where "KindCardApplied \<equiv> ''card_applied''"
abbreviation KindMessage :: string where "KindMessage \<equiv> ''message''"
abbreviation KindTalkTurn :: string where "KindTalkTurn \<equiv> ''talk_turn''"
abbreviation KindHandsRan :: string where "KindHandsRan \<equiv> ''hands_ran''"
abbreviation KindMail :: string where "KindMail \<equiv> ''mail''"
abbreviation KindJob :: string where "KindJob \<equiv> ''job''"
abbreviation KindHandover :: string where "KindHandover \<equiv> ''handover''"
abbreviation KindControl :: string where "KindControl \<equiv> ''control''"
abbreviation KindActionApplied :: string where "KindActionApplied \<equiv> ''action_applied''"
abbreviation KindCloud :: string where "KindCloud \<equiv> ''cloud''"
abbreviation KindVerifyFolded :: string where "KindVerifyFolded \<equiv> ''verify_folded''"
abbreviation KindSeatLimited :: string where "KindSeatLimited \<equiv> ''seat_limited''"
abbreviation KindSeatPastLine :: string where "KindSeatPastLine \<equiv> ''seat_past_line''"

definition kinds :: "string list" where
  "kinds = [KindBeadChanged, KindCardAsked, KindCardAnswered, KindCardApplied, KindMessage,
            KindTalkTurn, KindHandsRan, KindMail, KindJob, KindHandover, KindControl,
            KindActionApplied, KindCloud, KindVerifyFolded, KindSeatLimited, KindSeatPastLine]"

definition kind_machine_map :: "string \<Rightarrow> machine option" where
  "kind_machine_map = map_of
     [(KindBeadChanged, MachineBead), (KindCardAsked, MachineCard), (KindCardAnswered, MachineCard),
      (KindCardApplied, MachineCard), (KindTalkTurn, MachineTalk), (KindJob, MachineJob)]"

definition kind_to :: "string \<Rightarrow> mstate option" where
  "kind_to = map_of
     [(KindCardAsked, CardAsked), (KindCardAnswered, CardAnswered), (KindCardApplied, CardApplied)]"

definition kind_bead :: "string \<Rightarrow> bool" where
  "kind_bead k \<longleftrightarrow> List.member
     [KindBeadChanged, KindCardAsked, KindCardAnswered, KindCardApplied, KindHandsRan, KindMail,
      KindActionApplied, KindVerifyFolded] k"

text \<open>\<open>None\<close> for no kind at all; the empty machine for a kind that has none.\<close>

definition kind_machine :: "string \<Rightarrow> machine option" where
  "kind_machine k =
     (if List.member kinds k
      then Some (case kind_machine_map k of None \<Rightarrow> [] | Some m \<Rightarrow> m)
      else None)"

abbreviation LaneNormal :: string where "LaneNormal \<equiv> ''normal''"
abbreviation LaneEmergency :: string where "LaneEmergency \<equiv> ''emergency''"
abbreviation LaneFallback :: string where "LaneFallback \<equiv> ''fallback''"

definition MaxEmergencyDetail :: nat where "MaxEmergencyDetail = 2000"

text \<open>The ellipsis U+2026, three bytes.\<close>

definition ellipsis :: string where "ellipsis = [CHR 0xE2, CHR 0x80, CHR 0xA6]"

function cut_to_valid :: "string \<Rightarrow> string" where
  "cut_to_valid s = (if s \<noteq> [] \<and> \<not> valid_utf8 s then cut_to_valid (butlast s) else s)"
  by pat_completeness auto
termination by (relation "measure length") auto

declare cut_to_valid.simps [simp del]

definition cut_detail :: "string \<Rightarrow> string" where
  "cut_detail text =
     (if length text \<le> MaxEmergencyDetail then text
      else cut_to_valid (take (MaxEmergencyDetail - length ellipsis) text) @ ellipsis)"

subsection \<open>Control words\<close>

record control =
  ctl_word :: string
  ctl_host :: string
  ctl_n :: int

abbreviation ControlCancel :: string where "ControlCancel \<equiv> ''cancel''"
abbreviation ControlPauseHost :: string where "ControlPauseHost \<equiv> ''pause-host''"
abbreviation ControlResumeHost :: string where "ControlResumeHost \<equiv> ''resume-host''"
abbreviation ControlCap :: string where "ControlCap \<equiv> ''cap''"
abbreviation ControlPriority :: string where "ControlPriority \<equiv> ''priority''"

definition control_words :: "string list" where
  "control_words =
     [ControlCancel, ControlPauseHost, ControlResumeHost, ControlCap, ControlPriority]"

definition control_detail :: "control \<Rightarrow> string" where
  "control_detail c =
     (if ctl_word c = ControlPauseHost \<or> ctl_word c = ControlResumeHost
      then ctl_word c @ '' '' @ ctl_host c
      else if ctl_word c = ControlCap
      then ctl_word c @ '' '' @ ctl_host c @ '' '' @ itoa (ctl_n c)
      else if ctl_word c = ControlPriority
      then ctl_word c @ '' '' @ itoa (ctl_n c)
      else ctl_word c)"

datatype control_error =
    ControlSaysNothing
  | ControlNotOne string
  | BadCap string
  | BadPriority string
  | ControlNoBead string
  | ControlAboutHost string string

definition parse_control :: "string \<Rightarrow> (control_error, control) result" where
  "parse_control detail =
     (case str_fields detail of
        [] \<Rightarrow> Inl ControlSaysNothing
      | w # args \<Rightarrow>
          (let bad = Inl (ControlNotOne (join '' '' (w # args)))
           in if w = ControlCancel then
                (if args \<noteq> [] then bad else Inr \<lparr>ctl_word = w, ctl_host = [], ctl_n = 0\<rparr>)
              else if w = ControlPauseHost \<or> w = ControlResumeHost then
                (case args of
                   [h] \<Rightarrow> Inr \<lparr>ctl_word = w, ctl_host = h, ctl_n = 0\<rparr>
                 | _ \<Rightarrow> bad)
              else if w = ControlCap then
                (case args of
                   [h, n] \<Rightarrow>
                     (case num_ok (atoi n) of
                        Some v \<Rightarrow>
                          if v < 1 then Inl (BadCap n)
                          else Inr \<lparr>ctl_word = w, ctl_host = h, ctl_n = v\<rparr>
                      | None \<Rightarrow> Inl (BadCap n))
                 | _ \<Rightarrow> bad)
              else if w = ControlPriority then
                (case args of
                   [n] \<Rightarrow>
                     (case num_ok (atoi n) of
                        Some v \<Rightarrow>
                          if v < 0 \<or> 4 < v then Inl (BadPriority n)
                          else Inr \<lparr>ctl_word = w, ctl_host = [], ctl_n = v\<rparr>
                      | None \<Rightarrow> Inl (BadPriority n))
                 | _ \<Rightarrow> bad)
              else bad))"

definition control_needs_bead :: "string \<Rightarrow> bool" where
  "control_needs_bead w \<longleftrightarrow> w = ControlCancel \<or> w = ControlPriority"

subsection \<open>Events\<close>

type_synonym seqno = "64 word"

record event =
  ev_seq :: seqno
  ev_ts :: gotime
  ev_kind :: string
  ev_bead :: string
  ev_actor :: string
  ev_from :: mstate
  ev_to :: mstate
  ev_detail :: string
  ev_lane :: string
  ev_clears :: seqno

datatype event_error =
    NoSeq
  | NoTime seqno
  | NoLane string
  | DetailTooLong nat
  | NoKind string
  | NamesNoBead string
  | BadControl control_error
  | NoTransition string mstate mstate
  | WrongEnd string mstate mstate
  | BadTransition transition_error

definition control_of :: "event \<Rightarrow> control option" where
  "control_of ev =
     (if ev_kind ev \<noteq> KindControl then None
      else (case parse_control (ev_detail ev) of Inl _ \<Rightarrow> None | Inr c \<Rightarrow> Some c))"

definition check_control :: "event \<Rightarrow> control_error option" where
  "check_control ev =
     (case parse_control (ev_detail ev) of
        Inl e \<Rightarrow> Some e
      | Inr c \<Rightarrow>
          if control_needs_bead (ctl_word c) \<and> ev_bead ev = [] then Some (ControlNoBead (ctl_word c))
          else if \<not> control_needs_bead (ctl_word c) \<and> ev_bead ev \<noteq> []
          then Some (ControlAboutHost (ctl_word c) (ev_bead ev))
          else None)"

definition check_lane :: "string \<Rightarrow> event_error option" where
  "check_lane l = (if l = LaneNormal \<or> l = LaneEmergency \<or> l = LaneFallback then None else Some (NoLane l))"

definition validate_no_machine :: "event \<Rightarrow> event_error option" where
  "validate_no_machine e =
     (case (if ev_kind e = KindControl then check_control e else None) of
        Some c \<Rightarrow> Some (BadControl c)
      | None \<Rightarrow>
          if ev_from e \<noteq> [] \<or> ev_to e \<noteq> [] then Some (NoTransition (ev_kind e) (ev_from e) (ev_to e))
          else None)"

definition validate_move :: "machine \<Rightarrow> event \<Rightarrow> event_error option" where
  "validate_move m e =
     (case kind_to (ev_kind e) of
        Some to \<Rightarrow>
          if ev_to e \<noteq> to then Some (WrongEnd (ev_kind e) to (ev_to e))
          else map_option BadTransition (transition m (ev_from e) (ev_to e))
      | None \<Rightarrow>
          if ev_kind e = KindBeadChanged \<and> ev_from e = ev_to e \<and> has_state m (ev_to e) then None
          else map_option BadTransition (transition m (ev_from e) (ev_to e)))"

definition validate_event :: "event \<Rightarrow> event_error option" where
  "validate_event e =
     (if ev_seq e = 0 then Some NoSeq
      else if ev_ts e = 0 then Some (NoTime (ev_seq e))
      else (case check_lane (ev_lane e) of
        Some err \<Rightarrow> Some err
      | None \<Rightarrow>
          if ev_lane e = LaneEmergency \<and> MaxEmergencyDetail < length (ev_detail e)
          then Some (DetailTooLong (length (ev_detail e)))
          else (case kind_machine (ev_kind e) of
            None \<Rightarrow> Some (NoKind (ev_kind e))
          | Some m \<Rightarrow>
              if kind_bead (ev_kind e) \<and> ev_bead e = [] then Some (NamesNoBead (ev_kind e))
              else if m = [] then validate_no_machine e
              else validate_move m e)))"

subsection \<open>Batches\<close>

record batch =
  b_from :: seqno
  b_to :: seqno
  b_lane :: string
  b_events :: "event list"

datatype batch_error =
    BatchLane event_error
  | NoEvents
  | StartsAtZero
  | RunsBackwards seqno seqno
  | WrongCount nat seqno seqno
  | WrongSeq nat seqno seqno
  | OtherLane nat string string
  | BadEvent nat seqno event_error

fun check_events :: "batch \<Rightarrow> nat \<Rightarrow> event list \<Rightarrow> batch_error option" where
  "check_events b i [] = None"
| "check_events b i (e # es) =
     (let want = b_from b + word_of_nat i
      in if ev_seq e \<noteq> want then Some (WrongSeq (i + 1) (ev_seq e) want)
         else if ev_lane e \<noteq> b_lane b then Some (OtherLane (i + 1) (ev_lane e) (b_lane b))
         else (case validate_event e of
                 Some err \<Rightarrow> Some (BadEvent (i + 1) (ev_seq e) err)
               | None \<Rightarrow> check_events b (i + 1) es))"

definition validate_batch :: "batch \<Rightarrow> batch_error option" where
  "validate_batch b =
     (case check_lane (b_lane b) of
        Some err \<Rightarrow> Some (BatchLane err)
      | None \<Rightarrow>
          if b_events b = [] then Some NoEvents
          else if b_from b = 0 then Some StartsAtZero
          else if b_to b < b_from b then Some (RunsBackwards (b_from b) (b_to b))
          else if word_of_nat (length (b_events b)) \<noteq> b_to b - b_from b + 1
          then Some (WrongCount (length (b_events b)) (b_from b) (b_to b))
          else check_events b 0 (b_events b))"

subsection \<open>Handovers\<close>

record handover =
  ho_seat :: string
  ho_successor :: string
  ho_at :: seqno

definition handover_detail :: "handover \<Rightarrow> string" where
  "handover_detail h = ho_seat h @ '' to '' @ ho_successor h @ '' at '' @ nat_str (unat (ho_at h))"

definition parse_handover :: "string \<Rightarrow> handover option" where
  "parse_handover detail =
     (case str_fields detail of
        [seat, to, succ, at, n] \<Rightarrow>
          if to \<noteq> ''to'' \<or> at \<noteq> ''at'' then None
          else (case parse_uint64 n of
                  None \<Rightarrow> None
                | Some k \<Rightarrow> Some \<lparr>ho_seat = seat, ho_successor = succ, ho_at = word_of_nat k\<rparr>)
      | _ \<Rightarrow> None)"

definition handover_of :: "event \<Rightarrow> handover option" where
  "handover_of ev = (if ev_kind ev \<noteq> KindHandover then None else parse_handover (ev_detail ev))"

subsection \<open>The life of a bead\<close>









subsection \<open>Batches\<close>

lemma check_events_None_iff:
  "check_events b i es = None \<longleftrightarrow>
   (\<forall>j < length es. ev_seq (es ! j) = b_from b + word_of_nat (i + j) \<and>
      ev_lane (es ! j) = b_lane b \<and> validate_event (es ! j) = None)"
proof (induction es arbitrary: i)
  case Nil
  then show ?case by simp
next
  case (Cons e es)
  then show ?case
    by (auto simp: Let_def All_less_Suc2 split: option.splits)
qed

lemma batch_count:
  fixes f t :: seqno
  assumes "n < 2 ^ 64" "f \<noteq> 0" "f \<le> t"
  shows "word_of_nat n = t - f + 1 \<longleftrightarrow> n = unat t + 1 - unat f"
proof -
  have f: "0 < unat f" and ft: "unat f \<le> unat t"
    using assms(2,3) by (simp_all add: word_le_nat_alt unat_gt_0)
  have "unat (t - f) = unat t - unat f"
    using assms(3) by (simp add: unat_sub)
  moreover have "unat t < 2 ^ 64" using unsigned_less [of t] by simp
  ultimately have "unat (t - f + 1) = unat t + 1 - unat f"
    using f ft by (simp add: unat_word_ariths)
  moreover have "unat (word_of_nat n :: seqno) = n"
    using assms(1) by (simp add: unat_of_nat)
  ultimately show ?thesis by (metis unsigned_word_eqI)
qed

lemma seq_no_wrap:
  fixes f t :: seqno
  assumes "f \<le> t" "j < unat t + 1 - unat f"
  shows "unat (f + word_of_nat j) = unat f + j"
proof -
  have "unat t < 2 ^ 64" using unsigned_less [of t] by simp
  with assms have "unat f + j < 2 ^ 64"
    by (auto simp: word_le_nat_alt)
  then show ?thesis by (simp add: unat_word_ariths unat_of_nat)
qed

subsection \<open>Words and numbers in a detail\<close>

definition wf_control :: "control \<Rightarrow> bool" where
  "wf_control c \<longleftrightarrow>
     (ctl_word c = ControlCancel \<and> ctl_host c = [] \<and> ctl_n c = 0) \<or>
     (ctl_word c \<in> {ControlPauseHost, ControlResumeHost} \<and> word (ctl_host c) \<and> ctl_n c = 0) \<or>
     (ctl_word c = ControlCap \<and> word (ctl_host c) \<and> 1 \<le> ctl_n c \<and> ctl_n c \<le> int_max) \<or>
     (ctl_word c = ControlPriority \<and> ctl_host c = [] \<and> 0 \<le> ctl_n c \<and> ctl_n c \<le> 4)"

lemma ascii_space_sp [simp]: "ascii_space (CHR '' '')"
  by (simp add: ascii_space_def byte_def)

lemma plain_literal_words [simp]:
  "word ControlCancel" "word ControlPauseHost" "word ControlResumeHost" "word ControlCap"
  "word ControlPriority" "word ''to''" "word ''at''"
  by (simp_all add: plain_word plain_def byte_def ascii_space_def)

lemma str_fields_two: "word a \<Longrightarrow> word b \<Longrightarrow> str_fields (a @ CHR '' '' # b) = [a, b]"
  by (simp add: str_fields_word_space str_fields_word)

lemma str_fields_three:
  "word a \<Longrightarrow> word b \<Longrightarrow> word c \<Longrightarrow> str_fields (a @ CHR '' '' # b @ CHR '' '' # c) = [a, b, c]"
  by (simp add: str_fields_word_space str_fields_word)

lemma num_ok_SomeD: "num_ok r = Some v \<Longrightarrow> r = NumOk v"
  by (cases r) auto

lemma parse_control_words:
  "str_fields d = ControlCancel # args \<Longrightarrow>
   parse_control d = (if args \<noteq> [] then Inl (ControlNotOne (join '' '' (ControlCancel # args)))
                      else Inr \<lparr>ctl_word = ControlCancel, ctl_host = [], ctl_n = 0\<rparr>)"
  "str_fields d = [ControlPauseHost, h] \<Longrightarrow>
   parse_control d = Inr \<lparr>ctl_word = ControlPauseHost, ctl_host = h, ctl_n = 0\<rparr>"
  "str_fields d = [ControlResumeHost, h] \<Longrightarrow>
   parse_control d = Inr \<lparr>ctl_word = ControlResumeHost, ctl_host = h, ctl_n = 0\<rparr>"
  "str_fields d = [ControlCap, h, n] \<Longrightarrow>
   parse_control d = (case num_ok (atoi n) of
      Some v \<Rightarrow> if v < 1 then Inl (BadCap n) else Inr \<lparr>ctl_word = ControlCap, ctl_host = h, ctl_n = v\<rparr>
    | None \<Rightarrow> Inl (BadCap n))"
  "str_fields d = [ControlPriority, n] \<Longrightarrow>
   parse_control d = (case num_ok (atoi n) of
      Some v \<Rightarrow> if v < 0 \<or> 4 < v then Inl (BadPriority n)
                else Inr \<lparr>ctl_word = ControlPriority, ctl_host = [], ctl_n = v\<rparr>
    | None \<Rightarrow> Inl (BadPriority n))"
  by (simp_all add: parse_control_def)

lemma parse_control_arity:
  "str_fields d = ControlPauseHost # args \<Longrightarrow> parse_control d = Inr c \<Longrightarrow> \<exists>h. args = [h]"
  "str_fields d = ControlResumeHost # args \<Longrightarrow> parse_control d = Inr c \<Longrightarrow> \<exists>h. args = [h]"
  "str_fields d = ControlCap # args \<Longrightarrow> parse_control d = Inr c \<Longrightarrow> \<exists>h n. args = [h, n]"
  "str_fields d = ControlPriority # args \<Longrightarrow> parse_control d = Inr c \<Longrightarrow> \<exists>n. args = [n]"
  by (cases args; cases "tl args"; simp add: parse_control_def Let_def split: list.splits)+

lemma parse_control_word: "str_fields d = w # args \<Longrightarrow> parse_control d = Inr c \<Longrightarrow> w \<in> set control_words"
  by (rule ccontr) (simp add: parse_control_def Let_def control_words_def)

lemma parse_control_wf:
  assumes "parse_control d = Inr c"
  shows "wf_control c"
proof -
  obtain w args where f: "str_fields d = w # args"
    using assms by (cases "str_fields d") (auto simp: parse_control_def)
  then have words: "\<And>x. x \<in> set args \<Longrightarrow> word x"
    using str_fields_word_mem [of _ d] by simp
  have "w \<in> set control_words" using parse_control_word [OF f assms] .
  then consider "w = ControlCancel" | "w = ControlPauseHost" | "w = ControlResumeHost"
    | "w = ControlCap" | "w = ControlPriority"
    by (simp only: control_words_def list.set insert_iff empty_iff) blast
  then show ?thesis
  proof cases
    case 1
    then show ?thesis
      using assms f parse_control_words(1) [of d args] by (auto simp: wf_control_def split: if_splits)
  next
    case 2
    with f assms obtain h where "args = [h]" using parse_control_arity(1) by blast
    then show ?thesis
      using assms f words 2 parse_control_words(2) [of d h] by (auto simp: wf_control_def)
  next
    case 3
    with f assms obtain h where "args = [h]" using parse_control_arity(2) by blast
    then show ?thesis
      using assms f words 3 parse_control_words(3) [of d h] by (auto simp: wf_control_def)
  next
    case 4
    with f assms obtain h n where a: "args = [h, n]" using parse_control_arity(3) by blast
    then obtain v where "num_ok (atoi n) = Some v" "1 \<le> v"
        "c = \<lparr>ctl_word = ControlCap, ctl_host = h, ctl_n = v\<rparr>"
      using assms f 4 parse_control_words(4) [of d h n]
      by (simp add: not_less split: option.splits if_splits)
    with words a atoi_bounds [OF num_ok_SomeD] show ?thesis
      by (simp add: wf_control_def)
  next
    case 5
    with f assms obtain n where a: "args = [n]" using parse_control_arity(4) by blast
    then obtain v where "0 \<le> v" "v \<le> 4"
        "c = \<lparr>ctl_word = ControlPriority, ctl_host = [], ctl_n = v\<rparr>"
      using assms f 5 parse_control_words(5) [of d n]
      by (auto simp: not_less split: option.splits if_splits)
    then show ?thesis by (simp add: wf_control_def)
  qed
qed

lemma control_detail_words:
  "control_detail \<lparr>ctl_word = ControlCancel, ctl_host = h, ctl_n = n\<rparr> = ControlCancel"
  "control_detail \<lparr>ctl_word = ControlPauseHost, ctl_host = h, ctl_n = n\<rparr> = ControlPauseHost @ CHR '' '' # h"
  "control_detail \<lparr>ctl_word = ControlResumeHost, ctl_host = h, ctl_n = n\<rparr> = ControlResumeHost @ CHR '' '' # h"
  "control_detail \<lparr>ctl_word = ControlCap, ctl_host = h, ctl_n = n\<rparr> =
     ControlCap @ CHR '' '' # h @ CHR '' '' # itoa n"
  "control_detail \<lparr>ctl_word = ControlPriority, ctl_host = h, ctl_n = n\<rparr> =
     ControlPriority @ CHR '' '' # itoa n"
  by (simp_all add: control_detail_def)

lemma wf_controlE:
  assumes "wf_control c"
  obtains (cancel) "c = \<lparr>ctl_word = ControlCancel, ctl_host = [], ctl_n = 0\<rparr>"
  | (pause) h where "c = \<lparr>ctl_word = ControlPauseHost, ctl_host = h, ctl_n = 0\<rparr>" "word h"
  | (resume) h where "c = \<lparr>ctl_word = ControlResumeHost, ctl_host = h, ctl_n = 0\<rparr>" "word h"
  | (cap) h n where "c = \<lparr>ctl_word = ControlCap, ctl_host = h, ctl_n = n\<rparr>" "word h"
      "1 \<le> n" "n \<le> int_max"
  | (priority) n where "c = \<lparr>ctl_word = ControlPriority, ctl_host = [], ctl_n = n\<rparr>" "0 \<le> n" "n \<le> 4"
  using assms by (cases c) (simp add: wf_control_def, metis)

lemma parse_control_detail:
  assumes "wf_control c"
  shows "parse_control (control_detail c) = Inr c"
  using assms
proof (cases rule: wf_controlE)
  case cancel
  then show ?thesis
    using parse_control_words(1) [of ControlCancel "[]"] str_fields_word [OF plain_literal_words(1)]
    by (simp only: control_detail_words) simp
next
  case (pause h)
  then show ?thesis
    using parse_control_words(2) str_fields_two [OF plain_literal_words(2), of h]
    by (simp only: control_detail_words)
next
  case (resume h)
  then show ?thesis
    using parse_control_words(3) str_fields_two [OF plain_literal_words(3), of h]
    by (simp only: control_detail_words)
next
  case (cap h n)
  then have "atoi (itoa n) = NumOk n" by (simp add: atoi_itoa int_min_def)
  with cap parse_control_words(4) [OF str_fields_three [OF plain_literal_words(4), of h "itoa n"]]
  show ?thesis by (simp only: control_detail_words) simp
next
  case (priority n)
  then have "atoi (itoa n) = NumOk n" by (simp add: atoi_itoa int_min_def int_max_def)
  with priority parse_control_words(5) [OF str_fields_two [OF plain_literal_words(5), of "itoa n"]]
  show ?thesis by (simp only: control_detail_words) simp
qed
subsection \<open>Cutting a detail\<close>

lemma cut_to_valid_prefix: "\<exists>n. cut_to_valid s = take n s"
proof (induction s rule: cut_to_valid.induct)
  case (1 s)
  show ?case
  proof (cases "s \<noteq> [] \<and> \<not> valid_utf8 s")
    case True
    with 1 obtain n where "cut_to_valid (butlast s) = take n (butlast s)" by blast
    with True have "cut_to_valid s = take (min n (length s - 1)) s"
      by (subst cut_to_valid.simps) (simp add: butlast_conv_take)
    then show ?thesis by blast
  next
    case False
    then have "cut_to_valid s = s" by (auto simp: cut_to_valid.simps [of s])
    then show ?thesis by (intro exI [of _ "length s"]) simp
  qed
qed

lemma cut_to_valid_valid [simp]: "valid_utf8 (cut_to_valid s)"
proof (induction s rule: cut_to_valid.induct)
  case (1 s)
  then show ?case
    by (cases "s \<noteq> [] \<and> \<not> valid_utf8 s") (auto simp: cut_to_valid.simps [of s])
qed

lemma length_cut_to_valid: "length (cut_to_valid s) \<le> length s"
  using cut_to_valid_prefix [of s] by (metis length_take min.cobounded1)

text \<open>The cut stops at the longest valid prefix, so at or after any valid one.\<close>

lemma cut_to_valid_longest:
  "valid_utf8 (take n s) \<Longrightarrow> n \<le> length s \<Longrightarrow> n \<le> length (cut_to_valid s)"
proof (induction s rule: cut_to_valid.induct)
  case (1 s)
  show ?case
  proof (cases "s \<noteq> [] \<and> \<not> valid_utf8 s")
    case True
    then have "n \<noteq> length s" using 1(2) by auto
    with 1(3) have "n \<le> length (butlast s)" by simp
    moreover have "take n (butlast s) = take n s"
      using \<open>n \<noteq> length s\<close> 1(3) by (simp add: butlast_conv_take)
    ultimately have "n \<le> length (cut_to_valid (butlast s))" using 1(1) True 1(2) by simp
    with True show ?thesis by (subst cut_to_valid.simps) simp
  next
    case False
    then have "cut_to_valid s = s" by (auto simp: cut_to_valid.simps [of s])
    with 1(3) show ?thesis by simp
  qed
qed

lemma ellipsis_valid [simp]: "valid_utf8 ellipsis"
  by code_simp

subsection \<open>Properties\<close>


definition demo_event :: "nat \<Rightarrow> mstate \<Rightarrow> mstate \<Rightarrow> event" where
  "demo_event n s t = \<lparr>ev_seq = word_of_nat n, ev_ts = 1, ev_kind = KindBeadChanged, ev_bead = ''mw-1'',
     ev_actor = ''mw'', ev_from = s, ev_to = t, ev_detail = [], ev_lane = LaneNormal, ev_clears = 0\<rparr>"



text \<open>C21. A batch passes its check exactly when its lane is one, it holds at least one event, and
  its events are numbered from \<open>From\<close> to \<open>To\<close> with none left out and none twice, the
  64-bit arithmetic never wrapping, each in the batch's lane and each an event the factory
  writes.  (A Go slice is shorter than \<open>2 ^ 64\<close>.)\<close>

theorem batch_accepted_iff:
  assumes "length (b_events b) < 2 ^ 64"
  shows "validate_batch b = None \<longleftrightarrow>
    check_lane (b_lane b) = None \<and> b_events b \<noteq> [] \<and> b_from b \<noteq> 0 \<and>
    map (unat \<circ> ev_seq) (b_events b) = [unat (b_from b)..<Suc (unat (b_to b))] \<and>
    (\<forall>e \<in> set (b_events b). ev_lane e = b_lane b \<and> validate_event e = None)"
  (is "_ \<longleftrightarrow> ?spec")
proof -
  let ?f = "b_from b" and ?t = "b_to b" and ?es = "b_events b"
  have le: "?f \<le> ?t" if "map (unat \<circ> ev_seq) ?es = [unat ?f..<Suc (unat ?t)]" "?es \<noteq> []"
    using that by (cases "unat ?f < Suc (unat ?t)") (auto simp: word_le_nat_alt)
  have seqs: "(\<forall>j < length ?es. ev_seq (?es ! j) = ?f + word_of_nat j) \<longleftrightarrow>
      map (unat \<circ> ev_seq) ?es = [unat ?f..<Suc (unat ?t)]"
    if "?f \<le> ?t" "length ?es = unat ?t + 1 - unat ?f"
  proof -
    have "(ev_seq (?es ! j) = ?f + word_of_nat j) \<longleftrightarrow> unat (ev_seq (?es ! j)) = unat ?f + j"
      if j: "j < length ?es" for j
      using seq_no_wrap [of ?f ?t j] that \<open>?f \<le> ?t\<close> \<open>length ?es = _\<close>
      by (metis unsigned_word_eqI)
    with that show ?thesis by (auto simp: list_eq_iff_nth_eq nth_append simp del: upt_Suc)
  qed
  have len: "length ?es = unat ?t + 1 - unat ?f"
    if "map (unat \<circ> ev_seq) ?es = [unat ?f..<Suc (unat ?t)]"
    using arg_cong [OF that, of length] by (simp del: upt_Suc)
  show ?thesis
  proof (cases "check_lane (b_lane b) = None \<and> ?es \<noteq> [] \<and> ?f \<noteq> 0 \<and> ?f \<le> ?t \<and>
      length ?es = unat ?t + 1 - unat ?f")
    case True
    then have "word_of_nat (length ?es) = ?t - ?f + 1"
      using batch_count [OF assms] by simp
    with True have "validate_batch b = None \<longleftrightarrow> check_events b 0 ?es = None"
      by (simp add: validate_batch_def not_less [symmetric])
    also have "\<dots> \<longleftrightarrow> (\<forall>j < length ?es. ev_seq (?es ! j) = ?f + word_of_nat j) \<and>
        (\<forall>e \<in> set ?es. ev_lane e = b_lane b \<and> validate_event e = None)"
      by (auto simp: check_events_None_iff all_set_conv_all_nth)
    finally show ?thesis using True seqs by simp
  next
    case False
    then have "validate_batch b \<noteq> None"
      using batch_count [OF assms] by (auto simp: validate_batch_def not_less split: option.splits)
    moreover have "\<not> ?spec" using False le len by blast
    ultimately show ?thesis by blast
  qed
qed

definition demo_batch :: batch where
  "demo_batch = \<lparr>b_from = 7, b_to = 8, b_lane = LaneNormal,
     b_events = [demo_event 7 BeadOpen BeadClaimed, demo_event 8 BeadClaimed BeadRunning]\<rparr>"

theorem batch_accepted_iff_witness:
  "length (b_events demo_batch) < 2 ^ 64 \<and> validate_batch demo_batch = None \<and>
   map (unat \<circ> ev_seq) (b_events demo_batch) = [unat (b_from demo_batch)..<Suc (unat (b_to demo_batch))]"
proof -
  have l: "length (b_events demo_batch) < 2 ^ 64" by (simp add: demo_batch_def)
  have "validate_batch demo_batch = None" by code_simp
  with batch_accepted_iff [OF l] l show ?thesis by (simp del: upt_Suc)
qed

text \<open>C35. What a control event says round-trips through its detail: every control the parser
  reads is written back as a detail that reads as the same control, and a control of the
  five words with the arguments the words take is read back from its own detail.\<close>

theorem control_round_trip:
  "(parse_control (control_detail c) = Inr c \<longleftrightarrow> wf_control c) \<and>
   ((\<exists>d. parse_control d = Inr c) \<longleftrightarrow> wf_control c)"
  using parse_control_detail parse_control_wf by blast

text \<open>A handover event's detail is read back as the handover it was written from, for a
  seat and a successor that are single words, whatever the 64-bit seq.\<close>

theorem handover_round_trip:
  "word (ho_seat h) \<Longrightarrow> word (ho_successor h) \<Longrightarrow> parse_handover (handover_detail h) = Some h"
proof -
  assume w: "word (ho_seat h)" "word (ho_successor h)"
  have "str_fields (handover_detail h) =
      [ho_seat h, ''to'', ho_successor h, ''at'', nat_str (unat (ho_at h))]"
    using str_fields_word_space [OF w(1) ascii_space_sp]
      str_fields_word_space [OF plain_literal_words(6) ascii_space_sp]
      str_fields_word_space [OF w(2) ascii_space_sp]
      str_fields_word_space [OF plain_literal_words(7) ascii_space_sp]
      str_fields_word [OF word_nat_str]
    by (simp add: handover_detail_def)
  moreover have "unat (ho_at h) < 2 ^ 64" using unsigned_less [of "ho_at h"] by simp
  ultimately show ?thesis by (simp add: parse_handover_def parse_uint64_nat_str)
qed

theorem handover_round_trip_witness:
  "parse_handover (handover_detail
     \<lparr>ho_seat = ''mayor'', ho_successor = ''mayor-2026-10-01-160'', ho_at = 105\<rparr>) =
   Some \<lparr>ho_seat = ''mayor'', ho_successor = ''mayor-2026-10-01-160'', ho_at = 105\<rparr>"
  by (rule handover_round_trip) (simp_all add: plain_word plain_def byte_def ascii_space_def)

text \<open>C36. A detail cut for the emergency lane fits it (at most 2000 bytes), so it is never
  refused for its length; a text that fits is left as it is; and a well-formed text that
  does not fit loses at most the three bytes of a rune more than it must, stays well-formed
  UTF-8 and ends in the ellipsis.\<close>

theorem cut_detail_fits:
  "length (cut_detail text) \<le> MaxEmergencyDetail \<and>
   (length text \<le> MaxEmergencyDetail \<longrightarrow> cut_detail text = text) \<and>
   (MaxEmergencyDetail < length text \<and> valid_utf8 text \<longrightarrow>
      (\<exists>n \<ge> MaxEmergencyDetail - 6. cut_detail text = take n text @ ellipsis) \<and>
      valid_utf8 (cut_detail text))"
proof (cases "length text \<le> MaxEmergencyDetail")
  case True
  then show ?thesis by (simp add: cut_detail_def)
next
  case False
  let ?m = "MaxEmergencyDetail - length ellipsis" and ?t = "take (MaxEmergencyDetail - length ellipsis) text"
  have m: "?m = 1997" "length ?t = 1997"
    using False by (simp_all add: MaxEmergencyDetail_def ellipsis_def)
  have eq: "cut_detail text = cut_to_valid ?t @ ellipsis"
    using False by (simp add: cut_detail_def)
  have "length (cut_to_valid ?t) \<le> 1997" using length_cut_to_valid [of ?t] m by simp
  then have len: "length (cut_detail text) \<le> MaxEmergencyDetail"
    by (simp add: eq ellipsis_def MaxEmergencyDetail_def)
  have "\<exists>n \<ge> MaxEmergencyDetail - 6. cut_detail text = take n text @ ellipsis"
    if v: "valid_utf8 text"
  proof -
    have "?m \<le> length text" using False by simp
    then obtain k where k: "k \<le> 3" "k \<le> ?m" "valid_utf8 (take (?m - k) text)"
      using valid_utf8_take [OF v] by blast
    then have "?m - k \<le> length (cut_to_valid ?t)"
      using \<open>?m \<le> length text\<close> by (intro cut_to_valid_longest) (simp_all add: min_def)
    then have "1994 \<le> length (cut_to_valid ?t)" using k(1) m by simp
    moreover obtain n where "cut_to_valid ?t = take n ?t" using cut_to_valid_prefix by blast
    then have "cut_to_valid ?t = take (length (cut_to_valid ?t)) text"
      using m by (auto simp: min_def)
    ultimately show ?thesis
      using eq by (intro exI [of _ "length (cut_to_valid ?t)"]) (simp add: MaxEmergencyDetail_def)
  qed
  with len False show ?thesis by (simp add: eq valid_utf8_append)
qed

theorem cut_detail_fits_witness:
  "length (cut_detail (replicate 2001 (CHR ''a''))) \<le> MaxEmergencyDetail"
  using cut_detail_fits [of "replicate 2001 (CHR ''a'')"] by blast

end
