(* ===== verification/EventStore.thy ===== *)
theory EventStore
  imports EventLog "HOL-Library.List_Lexorder"
begin

text \<open>
  \<^verbatim>\<open>infrastructure/eventlog/eventlog.go\<close> and \<^verbatim>\<open>archive.go\<close>: the home's event log on disk, one
  JSON event a line, the sidecar that holds its head, and the dated files a trim moves old
  events to.  A file is its bytes, \<open>None\<close> one that is not there.  An operation that writes
  is the list of the writes it makes of the disk, in order, so that a crash is any part of
  that list with the next write torn; a rename is whole or not at all.  Each operation runs
  under the writers' lock, so two never interleave.  A system call that fails leaves the disk
  as a crash at that call would.  \<^verbatim>\<open>encoding/json\<close> is a parameter, the codec.
\<close>

subsection \<open>The disk\<close>

record store =
  log_file :: "string option"
  seq_file :: "string option"
  archive :: "(string \<times> string) list"

text \<open>
  What the code uses of \<^verbatim>\<open>encoding/json\<close>: an event written, \<open>None\<close> for one that cannot be,
  a line read as an event, and a line read for its seq alone.
\<close>

record codec =
  cod_enc :: "event \<Rightarrow> string option"
  cod_dec :: "string \<Rightarrow> event option"
  cod_seq :: "string \<Rightarrow> seqno option"

datatype store_error =
    LastLineBad string
  | HeadBad string
  | NotAnEvent event_error
  | NotEncoded event
  | LineTooLong nat
  | LineBad nat string
  | LineBadAt nat

datatype disk_op =
    Truncate nat
  | WriteAt nat string
  | WriteSeq string
  | AppendArchive string string
  | ReplaceLog string

abbreviation nl :: char where "nl \<equiv> CHR 0x0A"

definition text_of :: "string option \<Rightarrow> string" where
  "text_of f = (case f of None \<Rightarrow> [] | Some s \<Rightarrow> s)"

fun add_to_file :: "string \<Rightarrow> string \<Rightarrow> (string \<times> string) list \<Rightarrow> (string \<times> string) list" where
  "add_to_file day data [] = [(day, data)]"
| "add_to_file day data ((d, s) # files) =
     (if d = day then (d, s @ data) # files else (d, s) # add_to_file day data files)"

fun run_op :: "disk_op \<Rightarrow> store \<Rightarrow> store" where
  "run_op (Truncate n) st = st\<lparr>log_file := map_option (take n) (log_file st)\<rparr>"
| "run_op (WriteAt n data) st =
     st\<lparr>log_file := map_option (\<lambda>s. take n s @ data @ drop (n + length data) s) (log_file st)\<rparr>"
| "run_op (WriteSeq data) st = st\<lparr>seq_file := Some data\<rparr>"
| "run_op (AppendArchive day data) st = st\<lparr>archive := add_to_file day data (archive st)\<rparr>"
| "run_op (ReplaceLog data) st = st\<lparr>log_file := Some data\<rparr>"

definition run_ops :: "disk_op list \<Rightarrow> store \<Rightarrow> store" where
  "run_ops ops st = foldl (\<lambda>st op. run_op op st) st ops"

text \<open>A write cut off after its first \<open>k\<close> bytes; a truncation or a rename cut off is not made.\<close>

fun torn_op :: "nat \<Rightarrow> disk_op \<Rightarrow> store \<Rightarrow> store" where
  "torn_op k (WriteAt n data) st = run_op (WriteAt n (take k data)) st"
| "torn_op k (AppendArchive day data) st = run_op (AppendArchive day (take k data)) st"
| "torn_op k _ st = st"

fun crash :: "nat \<Rightarrow> nat \<Rightarrow> disk_op list \<Rightarrow> store \<Rightarrow> store" where
  "crash n k [] st = st"
| "crash 0 k (op # ops) st = torn_op k op st"
| "crash (Suc n) k (op # ops) st = crash n k ops (run_op op st)"

subsection \<open>The end of the log\<close>

definition tailChunk :: nat where "tailChunk = 65536"
definition MaxEventLine :: nat where "MaxEventLine = 1048576"

text \<open>
  The loop of \<open>lastWhole\<close>: where the next chunk ends, the offset past the newest newline once
  it is found, and the last line's bytes so far.
\<close>

function last_whole_loop :: "nat \<Rightarrow> string \<Rightarrow> nat \<Rightarrow> nat option \<Rightarrow> string \<Rightarrow> nat option \<times> string" where
  "last_whole_loop c s pos past line =
     (if pos = 0 \<or> c = 0 then (past, line)
      else let start = pos - c; chunk = take (pos - start) (drop start s);
               found = (case past of
                   Some p \<Rightarrow> Some (p, chunk)
                 | None \<Rightarrow> map_option (\<lambda>i. (start + i + 1, take i chunk)) (last_index_byte chunk nl))
           in case found of
                None \<Rightarrow> last_whole_loop c s start None line
              | Some (p, chunk) \<Rightarrow>
                  (case last_index_byte chunk nl of
                     Some i \<Rightarrow> (Some p, drop (i + 1) chunk @ line)
                   | None \<Rightarrow> last_whole_loop c s start (Some p) (chunk @ line)))"
  by pat_completeness auto
termination by (relation "measure (\<lambda>(c, s, pos, past, line). pos)") auto

declare last_whole_loop.simps [simp del]

definition last_whole :: "codec \<Rightarrow> string \<Rightarrow> (store_error, nat \<times> seqno) result" where
  "last_whole cd s =
     (case last_whole_loop tailChunk s (length s) None [] of
        (None, _) \<Rightarrow> Inr (0, 0)
      | (Some p, line) \<Rightarrow>
          (case cod_dec cd line of
             None \<Rightarrow> Inl (LastLineBad line)
           | Some e \<Rightarrow> Inr (p, ev_seq e)))"

definition sidecar :: "store \<Rightarrow> (store_error, seqno) result" where
  "sidecar st =
     (case seq_file st of
        None \<Rightarrow> Inr 0
      | Some data \<Rightarrow>
          (case parse_uint64 (trim_space data) of
             None \<Rightarrow> Inl (HeadBad data)
           | Some n \<Rightarrow> Inr (word_of_nat n)))"

definition head_of :: "codec \<Rightarrow> store \<Rightarrow> (store_error, seqno) result" where
  "head_of cd st =
     (case sidecar st of
        Inl e \<Rightarrow> Inl e
      | Inr h \<Rightarrow>
          (case log_file st of
             None \<Rightarrow> Inr h
           | Some s \<Rightarrow>
               (case last_whole cd s of
                  Inl e \<Rightarrow> Inl e
                | Inr (_, newest) \<Rightarrow> Inr (if h < newest then newest else h))))"

subsection \<open>Appending\<close>

fun number_lines :: "codec \<Rightarrow> seqno \<Rightarrow> event list \<Rightarrow> (store_error, string \<times> seqno) result" where
  "number_lines cd head [] = Inr ([], head)"
| "number_lines cd head (e # es) =
     (let head = head + 1; e = e\<lparr>ev_seq := head\<rparr>
      in case validate_event e of
           Some err \<Rightarrow> Inl (NotAnEvent err)
         | None \<Rightarrow>
             (case cod_enc cd e of
                None \<Rightarrow> Inl (NotEncoded e)
              | Some line \<Rightarrow>
                  if MaxEventLine < length line then Inl (LineTooLong (length line))
                  else (case number_lines cd head es of
                          Inl err \<Rightarrow> Inl err
                        | Inr (buf, newest) \<Rightarrow> Inr (line @ nl # buf, newest))))"

text \<open>The writes an append makes, and the head after it; none when it is refused.\<close>

definition append_ops :: "codec \<Rightarrow> store \<Rightarrow> event list \<Rightarrow> (store_error, disk_op list \<times> seqno) result" where
  "append_ops cd st evs =
     (case last_whole cd (text_of (log_file st)) of
        Inl e \<Rightarrow> Inl e
      | Inr (past, newest) \<Rightarrow>
          (case sidecar st of
             Inl e \<Rightarrow> Inl e
           | Inr h \<Rightarrow>
               (case number_lines cd (if h < newest then newest else h) evs of
                  Inl e \<Rightarrow> Inl e
                | Inr (buf, head) \<Rightarrow>
                    Inr ([Truncate past, WriteAt past buf, WriteSeq (nat_str (unat head) @ newline)], head))))"

text \<open>The log file is made when it is not there, whatever comes of the append.\<close>

definition open_log :: "store \<Rightarrow> store" where
  "open_log st = st\<lparr>log_file := Some (text_of (log_file st))\<rparr>"

definition append_log :: "codec \<Rightarrow> store \<Rightarrow> event list \<Rightarrow> store \<times> (store_error, seqno) result" where
  "append_log cd st evs =
     (if evs = [] then (st, head_of cd st)
      else (case append_ops cd st evs of
              Inl e \<Rightarrow> (open_log st, Inl e)
            | Inr (ops, head) \<Rightarrow> (run_ops ops (open_log st), Inr head)))"


subsection \<open>Reading\<close>

text \<open>The whole lines of a file, each with its line break; a torn last line is left out.\<close>

function whole_lines :: "string \<Rightarrow> string list" where
  "whole_lines s =
     (if nl \<in> set s then (takeWhile (\<lambda>c. c \<noteq> nl) s @ [nl]) # whole_lines (tl (dropWhile (\<lambda>c. c \<noteq> nl) s))
      else [])"
  by pat_completeness auto
termination
proof (relation "measure length")
  fix s :: string
  assume "nl \<in> set s"
  then have "dropWhile (\<lambda>c. c \<noteq> nl) s \<noteq> []" by auto
  moreover have "length (dropWhile (\<lambda>c. c \<noteq> nl) s) \<le> length s" by (rule length_dropWhile_le)
  ultimately show "(tl (dropWhile (\<lambda>c. c \<noteq> nl) s), s) \<in> measure length"
    by (cases "dropWhile (\<lambda>c. c \<noteq> nl) s") auto
qed simp

declare whole_lines.simps [simp del]

text \<open>The lines after \<open>seq\<close>, from a line counted \<open>n\<close> on.\<close>

fun read_since :: "codec \<Rightarrow> seqno \<Rightarrow> nat \<Rightarrow> string list \<Rightarrow> (store_error, event list) result" where
  "read_since cd seq n [] = Inr []"
| "read_since cd seq n (line # ls) =
     (case cod_dec cd line of
        None \<Rightarrow> Inl (LineBad n line)
      | Some e \<Rightarrow>
          (case read_since cd seq (n + 1) ls of
             Inl err \<Rightarrow> Inl err
           | Inr es \<Rightarrow> Inr (if seq < ev_seq e then e # es else es)))"

definition backChunk :: nat where "backChunk = 262144"

text \<open>
  The inner loop of \<open>startAfter\<close>: back over the whole lines of a chunk to the last with a
  seq at most \<open>seq\<close>; where it ends.
\<close>

function back_scan :: "codec \<Rightarrow> seqno \<Rightarrow> string \<Rightarrow> nat \<Rightarrow> (store_error, nat option) result" where
  "back_scan cd seq whole stop =
     (if stop = 0 then Inr None
      else let start = (case last_index_byte (take (stop - 1) whole) nl of None \<Rightarrow> 0 | Some i \<Rightarrow> i + 1)
           in (case cod_seq cd (take (stop - start) (drop start whole)) of
                 None \<Rightarrow> Inl (LineBadAt stop)
               | Some q \<Rightarrow> if q \<le> seq then Inr (Some stop) else back_scan cd seq whole start))"
  by pat_completeness auto
termination
  by (relation "measure (\<lambda>(cd, seq, whole, stop). stop)")
     (fastforce split: option.splits dest!: last_index_byte_bound)+

declare back_scan.simps [simp del]

text \<open>The outer loop: the offset up to which lines are still to be looked at, and the chunk's size.\<close>

function start_loop :: "codec \<Rightarrow> string \<Rightarrow> seqno \<Rightarrow> nat \<Rightarrow> nat \<Rightarrow> (store_error, nat) result" where
  "start_loop cd s seq past chunk =
     (if past = 0 \<or> chunk = 0 then Inr 0
      else let at = past - chunk; buf = take (past - at) (drop at s); gap = index_of buf [nl]
           in if 0 < at \<and> (gap = None \<or> gap = Some (length buf - 1)) then start_loop cd s seq past (2 * chunk)
              else let skip = (if 0 < at then the gap + 1 else 0)
                   in (case back_scan cd seq (drop skip buf) (length (drop skip buf)) of
                         Inl e \<Rightarrow> Inl e
                       | Inr (Some stop) \<Rightarrow> Inr (at + skip + stop)
                       | Inr None \<Rightarrow> start_loop cd s seq (at + skip) chunk))"
  by pat_completeness auto
termination
proof (relation "measures [\<lambda>(cd, s, seq, past, chunk). past, \<lambda>(cd, s, seq, past, chunk). past - chunk]",
    goal_cases)
  case (3 cd s seq past chunk at buf gap skip)
  show ?case
  proof (cases "0 < at")
    case True
    then obtain i where i: "gap = Some i" "i \<noteq> length buf - 1" using 3 by auto
    then have "i < length buf" using 3 index_of_within by metis
    with i have "i + 1 < length buf" by simp
    moreover have "length buf \<le> past - at" using 3 by simp
    moreover have "skip = i + 1" using i 3 True by simp
    ultimately have "at + skip < past" using True by linarith
    then show ?thesis by simp
  qed (use 3 in auto)
qed auto

declare start_loop.simps [simp del]

definition start_after :: "codec \<Rightarrow> string \<Rightarrow> seqno \<Rightarrow> (store_error, nat) result" where
  "start_after cd s seq =
     (case last_whole cd s of Inl e \<Rightarrow> Inl e | Inr (past, _) \<Rightarrow> start_loop cd s seq past backChunk)"

definition since :: "codec \<Rightarrow> store \<Rightarrow> seqno \<Rightarrow> (store_error, event list) result" where
  "since cd st seq =
     (case log_file st of
        None \<Rightarrow> Inr []
      | Some s \<Rightarrow>
          (case (if 0 < seq then start_after cd s seq else Inr 0) of
             Inl e \<Rightarrow> Inl e
           | Inr start \<Rightarrow> read_since cd seq 1 (whole_lines (drop start s))))"

subsection \<open>The archive\<close>

text \<open>How many lines, and bytes, have a seq up to \<open>up_to\<close>.\<close>

fun trim_scan :: "codec \<Rightarrow> seqno \<Rightarrow> nat \<Rightarrow> string list \<Rightarrow> (store_error, nat \<times> nat) result" where
  "trim_scan cd up_to past [] = Inr (past, 0)"
| "trim_scan cd up_to past (line # ls) =
     (case cod_dec cd line of
        None \<Rightarrow> Inl (LineBadAt past)
      | Some e \<Rightarrow>
          if up_to < ev_seq e then Inr (past, 0)
          else (case trim_scan cd up_to (past + length line) ls of
                  Inl err \<Rightarrow> Inl err
                | Inr (n, moved) \<Rightarrow> Inr (n, Suc moved)))"

definition trim_ops :: "codec \<Rightarrow> store \<Rightarrow> seqno \<Rightarrow> string \<Rightarrow> (store_error, disk_op list \<times> nat) result" where
  "trim_ops cd st up_to day =
     (case log_file st of
        None \<Rightarrow> Inr ([], 0)
      | Some s \<Rightarrow>
          let data = (case last_index_byte s nl of None \<Rightarrow> [] | Some i \<Rightarrow> take (i + 1) s)
          in (case trim_scan cd up_to 0 (whole_lines data) of
                Inl e \<Rightarrow> Inl e
              | Inr (n, moved) \<Rightarrow>
                  if moved = 0 then Inr ([], 0)
                  else Inr ([AppendArchive day (take n data), ReplaceLog (drop n data)], moved)))"

definition trim_log :: "codec \<Rightarrow> store \<Rightarrow> seqno \<Rightarrow> string \<Rightarrow> store \<times> (store_error, nat) result" where
  "trim_log cd st up_to day =
     (case trim_ops cd st up_to day of
        Inl e \<Rightarrow> (st, Inl e)
      | Inr (ops, moved) \<Rightarrow> (run_ops ops st, Inr moved))"

definition first_seq :: "codec \<Rightarrow> store \<Rightarrow> (store_error, seqno) result" where
  "first_seq cd st =
     (case whole_lines (text_of (log_file st)) of
        [] \<Rightarrow> Inr 0
      | line # _ \<Rightarrow>
          (case cod_dec cd line of None \<Rightarrow> Inl (LineBad 1 line) | Some e \<Rightarrow> Inr (ev_seq e)))"

text \<open>A file's events with a seq above that of the last one read, in order.\<close>

fun read_newer :: "codec \<Rightarrow> seqno \<Rightarrow> nat \<Rightarrow> string list \<Rightarrow> (store_error, event list \<times> seqno) result" where
  "read_newer cd newest n [] = Inr ([], newest)"
| "read_newer cd newest n (line # ls) =
     (case cod_dec cd line of
        None \<Rightarrow> Inl (LineBad n line)
      | Some e \<Rightarrow>
          (case read_newer cd (if newest < ev_seq e then ev_seq e else newest) (n + 1) ls of
             Inl err \<Rightarrow> Inl err
           | Inr (es, newest') \<Rightarrow> Inr (if newest < ev_seq e then e # es else es, newest')))"

fun read_archive :: "codec \<Rightarrow> seqno \<Rightarrow> string list \<Rightarrow> (store_error, event list) result" where
  "read_archive cd newest [] = Inr []"
| "read_archive cd newest (s # files) =
     (case read_newer cd newest 1 (whole_lines s) of
        Inl e \<Rightarrow> Inl e
      | Inr (es, newest') \<Rightarrow>
          (case read_archive cd newest' files of Inl e \<Rightarrow> Inl e | Inr fs \<Rightarrow> Inr (es @ fs)))"

definition archive_name :: "string \<Rightarrow> string" where
  "archive_name day = ''log-'' @ day @ ''.jsonl''"

definition archived :: "codec \<Rightarrow> store \<Rightarrow> seqno \<Rightarrow> (store_error, event list) result" where
  "archived cd st seq = read_archive cd seq (map snd (sort_key (\<lambda>f. archive_name (fst f)) (archive st)))"


subsection \<open>Lines\<close>

definition is_line :: "string \<Rightarrow> bool" where
  "is_line l \<longleftrightarrow> (\<exists>t. nl \<notin> set t \<and> l = t @ [nl])"

lemma is_line_nonempty: "is_line l \<Longrightarrow> l \<noteq> []"
  by (auto simp: is_line_def)

lemma whole_lines_torn [simp]: "nl \<notin> set t \<Longrightarrow> whole_lines t = []"
  by (simp add: whole_lines.simps)

lemma whole_lines_line: "nl \<notin> set t \<Longrightarrow> whole_lines (t @ nl # s) = (t @ [nl]) # whole_lines s"
proof -
  assume t: "nl \<notin> set t"
  then have "takeWhile (\<lambda>c. c \<noteq> nl) (t @ nl # s) = t" "dropWhile (\<lambda>c. c \<noteq> nl) (t @ nl # s) = nl # s"
    by (induction t) auto
  then show ?thesis by (subst whole_lines.simps) simp
qed

lemma whole_lines_concat:
  "list_all is_line ls \<Longrightarrow> nl \<notin> set t \<Longrightarrow> whole_lines (concat ls @ t) = ls"
proof (induction ls)
  case (Cons l ls)
  then obtain u where "nl \<notin> set u" "l = u @ [nl]" by (auto simp: is_line_def)
  with Cons show ?case by (simp add: whole_lines_line)
qed simp

lemma whole_lines_only [simp]: "list_all is_line ls \<Longrightarrow> whole_lines (concat ls) = ls"
  using whole_lines_concat [of ls "[]"] by simp

text \<open>A cut of a text of whole lines: some of the lines, and a torn one.\<close>

lemma take_lines:
  assumes "list_all is_line ls"
  obtains j t where "j \<le> length ls" "take k (concat ls) = concat (take j ls) @ t" "nl \<notin> set t"
proof -
  have "\<exists>j t. j \<le> length ls \<and> take k (concat ls) = concat (take j ls) @ t \<and> nl \<notin> set t"
    using assms
  proof (induction ls arbitrary: k)
    case (Cons l ls)
    show ?case
    proof (cases "k < length l")
      case True
      obtain u where "nl \<notin> set u" "l = u @ [nl]" using Cons.prems by (auto simp: is_line_def)
      with True have "take k (concat (l # ls)) = take k u" "nl \<notin> set (take k u)"
        by (auto dest: in_set_takeD)
      then show ?thesis by (intro exI [of _ 0] exI [of _ "take k u"]) simp
    next
      case False
      obtain j t where "j \<le> length ls" "take (k - length l) (concat ls) = concat (take j ls) @ t" "nl \<notin> set t"
        using Cons.IH [of "k - length l"] Cons.prems by auto
      with False show ?thesis by (intro exI [of _ "Suc j"] exI [of _ t]) simp
    qed
  qed simp
  then show ?thesis using that by blast
qed

text \<open>An offset just past a newline is between two lines.\<close>

lemma line_boundary:
  assumes "list_all is_line ls" "p \<le> length (concat ls)" "p = 0 \<or> concat ls ! (p - 1) = nl"
  obtains j where "j \<le> length ls" "p = length (concat (take j ls))"
proof -
  have "\<exists>j \<le> length ls. p = length (concat (take j ls))"
    using assms
  proof (induction ls arbitrary: p)
    case (Cons l ls)
    obtain u where u: "nl \<notin> set u" "l = u @ [nl]" using Cons.prems by (auto simp: is_line_def)
    show ?case
    proof (cases "p < length l")
      case True
      then have "p = 0 \<or> (p - 1 < length u \<and> concat (l # ls) ! (p - 1) = u ! (p - 1))"
        using u by (auto simp: nth_append)
      then have "p = 0" using Cons.prems(3) u(1) nth_mem by metis
      then show ?thesis by (intro exI [of _ 0]) simp
    next
      case False
      have "p - length l = 0 \<or> concat ls ! (p - length l - 1) = nl"
      proof (cases "p = length l")
        case False
        with \<open>\<not> p < length l\<close> have "\<not> p - 1 < length l" "p - 1 - length l = p - length l - 1" "p \<noteq> 0" by auto
        with Cons.prems(3) show ?thesis by (simp add: nth_append)
      qed simp
      then obtain j where "j \<le> length ls" "p - length l = length (concat (take j ls))"
        using Cons.IH [of "p - length l"] Cons.prems by force
      with False show ?thesis by (intro exI [of _ "Suc j"]) simp
    qed
  qed simp
  then show ?thesis using that by blast
qed

subsection \<open>The last line, whatever the chunks\<close>

definition after_last :: "string \<Rightarrow> string" where
  "after_last s = (case last_index_byte s nl of None \<Rightarrow> s | Some i \<Rightarrow> drop (i + 1) s)"

lemma after_last_append:
  "after_last (a @ b) = (case last_index_byte b nl of None \<Rightarrow> after_last a @ b | Some i \<Rightarrow> drop (i + 1) b)"
  by (auto simp: after_last_def last_index_byte_append last_index_byte_bound
      dest: last_index_byte_bound split: option.splits)

lemma chunk_split:
  "take (pos - c) s @ take (pos - (pos - c)) (drop (pos - c) s) = take pos (s :: string)"
  by (metis diff_le_self le_add_diff_inverse take_add)

lemma last_whole_loop_found:
  "0 < c \<Longrightarrow> last_whole_loop c s pos (Some p) line = (Some p, after_last (take pos s) @ line)"
proof (induction c s pos "Some p" line rule: last_whole_loop.induct)
  case (1 c s pos line)
  show ?case
  proof (cases "pos = 0")
    case True
    then show ?thesis by (simp add: last_whole_loop.simps after_last_def)
  next
    case False
    let ?chunk = "take (pos - (pos - c)) (drop (pos - c) s)"
    have "after_last (take pos s) = (case last_index_byte ?chunk nl of
        None \<Rightarrow> after_last (take (pos - c) s) @ ?chunk | Some i \<Rightarrow> drop (i + 1) ?chunk)"
      unfolding chunk_split [symmetric, of pos s c] by (rule after_last_append)
    with False 1 show ?thesis
      by (subst last_whole_loop.simps) (simp add: Let_def split: option.split)
  qed
qed

lemma last_whole_loop_spec:
  "0 < c \<Longrightarrow> pos \<le> length s \<Longrightarrow> last_whole_loop c s pos None line =
     (case last_index_byte (take pos s) nl of
        None \<Rightarrow> (None, line)
      | Some i \<Rightarrow> (Some (i + 1), after_last (take i s) @ line))"
proof (induction c s pos "None :: nat option" line rule: last_whole_loop.induct)
  case (1 c s pos line)
  show ?case
  proof (cases "pos = 0")
    case True
    then show ?thesis by (simp add: last_whole_loop.simps)
  next
    case False
    let ?start = "pos - c" and ?chunk = "take (pos - (pos - c)) (drop (pos - c) s)"
    have idx: "last_index_byte (take pos s) nl = (case last_index_byte ?chunk nl of
        Some i \<Rightarrow> Some (?start + i) | None \<Rightarrow> last_index_byte (take ?start s) nl)"
      using last_index_byte_append [of "take ?start s" ?chunk nl] 1(3)
      unfolding chunk_split by (simp split: option.splits)
    show ?thesis
    proof (cases "last_index_byte ?chunk nl")
      case None
      with False idx 1 show ?thesis
        by (subst last_whole_loop.simps) (simp add: Let_def)
    next
      case (Some i)
      have "take (?start + i) s = take ?start s @ take i ?chunk"
        using last_index_byte_bound [OF Some] by (simp add: take_add)
      then have "after_last (take (?start + i) s) = (case last_index_byte (take i ?chunk) nl of
          None \<Rightarrow> after_last (take ?start s) @ take i ?chunk | Some j \<Rightarrow> drop (j + 1) (take i ?chunk))"
        by (simp only: after_last_append)
      with False Some idx 1(2) show ?thesis
        by (subst last_whole_loop.simps)
           (simp add: Let_def last_whole_loop_found split: option.split)
    qed
  qed
qed


text \<open>
  What the log relies on of \<^verbatim>\<open>encoding/json\<close>: an event's JSON is one line, and read with or
  without its line break, whole or for its seq alone, it has the seq it was written with.
  (A text that is not UTF-8 is not read back as it was, so no more than the seq is promised.)
\<close>

definition line_of :: "codec \<Rightarrow> string \<Rightarrow> nat \<Rightarrow> bool" where
  "line_of cd l n \<longleftrightarrow> (\<exists>t e. l = t @ [nl] \<and> nl \<notin> set t \<and> cod_dec cd t = Some e \<and>
     cod_dec cd l = Some e \<and> cod_seq cd l = Some (ev_seq e) \<and> unat (ev_seq e) = n)"

definition codec_ok :: "codec \<Rightarrow> bool" where
  "codec_ok cd \<longleftrightarrow> (\<forall>e t. cod_enc cd e = Some t \<longrightarrow> line_of cd (t @ [nl]) (unat (ev_seq e)))"

text \<open>The event a line holds.\<close>

definition event_in :: "codec \<Rightarrow> string \<Rightarrow> event" where
  "event_in cd l = the (cod_dec cd l)"

lemma line_of_is_line: "line_of cd l n \<Longrightarrow> is_line l"
  by (auto simp: line_of_def is_line_def)

lemma line_of_dec: "line_of cd l n \<Longrightarrow> cod_dec cd l = Some (event_in cd l) \<and> unat (ev_seq (event_in cd l)) = n"
  by (auto simp: line_of_def event_in_def)

lemma line_of_seq: "line_of cd l n \<Longrightarrow> \<exists>q. cod_seq cd l = Some q \<and> unat q = n"
  by (auto simp: line_of_def)

text \<open>Consecutive lines from the one numbered \<open>a\<close>.\<close>

definition lines_from :: "codec \<Rightarrow> nat \<Rightarrow> string list \<Rightarrow> bool" where
  "lines_from cd a ls \<longleftrightarrow> (\<forall>i < length ls. line_of cd (ls ! i) (a + i))"

lemma lines_from_is_line: "lines_from cd a ls \<Longrightarrow> list_all is_line ls"
  by (auto simp: lines_from_def list_all_length line_of_is_line)

lemma lines_from_nil [simp]: "lines_from cd a []"
  by (simp add: lines_from_def)

lemma lines_from_Cons [simp]: "lines_from cd a (l # ls) \<longleftrightarrow> line_of cd l a \<and> lines_from cd (Suc a) ls"
  by (auto simp: lines_from_def nth_Cons split: nat.splits)

lemma lines_from_append: "lines_from cd a (ls @ ms) \<longleftrightarrow> lines_from cd a ls \<and> lines_from cd (a + length ls) ms"
  by (induction ls arbitrary: a) auto

lemma lines_from_take: "lines_from cd a ls \<Longrightarrow> lines_from cd a (take k ls)"
  by (metis append_take_drop_id lines_from_append)

lemma lines_from_drop: "lines_from cd a ls \<Longrightarrow> k \<le> length ls \<Longrightarrow> lines_from cd (a + k) (drop k ls)"
  by (metis append_take_drop_id length_take lines_from_append min.absorb2)

lemma last_whole_empty: "nl \<notin> set s \<Longrightarrow> last_whole cd s = Inr (0, 0)"
  by (simp add: last_whole_def last_whole_loop_spec tailChunk_def last_index_byte_absent)

lemma last_whole_lines:
  assumes "list_all is_line ls" "nl \<notin> set t" "line_of cd l n"
  shows "\<exists>q. last_whole cd (concat ls @ l @ t) = Inr (length (concat ls @ l), q) \<and> unat q = n"
proof -
  obtain u e where u: "l = u @ [nl]" "nl \<notin> set u" "cod_dec cd u = Some e" "unat (ev_seq e) = n"
    using assms(3) by (auto simp: line_of_def)
  have "last_index_byte (concat ls @ l @ t) nl = Some (length (concat ls @ u))"
    using u assms(2) by (simp add: last_index_byte_append last_index_byte_absent)
  moreover have "after_last (concat ls @ u) = u"
  proof (cases ls rule: rev_cases)
    case (snoc ks k)
    then obtain v where "k = v @ [nl]" using assms(1) by (auto simp: is_line_def)
    then show ?thesis using snoc u
      by (simp add: after_last_def last_index_byte_append last_index_byte_absent)
  qed (use u in \<open>simp add: after_last_def last_index_byte_absent\<close>)
  ultimately show ?thesis using u
    by (simp add: last_whole_def last_whole_loop_spec tailChunk_def)
qed


subsection \<open>Reading from the end\<close>

lemma back_scan_lines:
  assumes "lines_from cd a ms"
  shows "back_scan cd seq (concat ms @ rest) (length (concat ms)) =
    Inr (if ms = [] \<or> unat seq < a then None
         else Some (length (concat (take (unat seq + 1 - a) ms))))"
  using assms
proof (induction ms arbitrary: rest rule: rev_induct)
  case Nil
  then show ?case by (simp add: back_scan.simps)
next
  case (snoc m ms)
  then have m: "line_of cd m (a + length ms)" and ms: "lines_from cd a ms"
    by (simp_all add: lines_from_append)
  obtain u where u: "m = u @ [nl]" "nl \<notin> set u" using m by (auto simp: line_of_def)
  obtain q where q: "cod_seq cd m = Some q" "unat q = a + length ms" using line_of_seq [OF m] by blast
  have "last_index_byte (concat ms @ u) nl =
      (if ms = [] then None else Some (length (concat ms) - 1))"
  proof (cases ms rule: rev_cases)
    case (snoc ks k)
    have "is_line k" using lines_from_is_line [OF ms] snoc by simp
    then obtain v where "k = v @ [nl]" by (auto simp: is_line_def)
    then show ?thesis using snoc u by (simp add: last_index_byte_append last_index_byte_absent)
  qed (use u in \<open>simp add: last_index_byte_absent\<close>)
  then have last: "last_index_byte (concat ms @ u) nl = (if ms = [] then None else Some (length (concat ms) - 1))" .
  have ne: "0 < length (concat ms)" if "ms \<noteq> []"
    using lines_from_is_line [OF ms] is_line_nonempty that by (cases ms) auto
  have tk: "take (length (concat (ms @ [m])) - 1) (concat (ms @ [m]) @ rest) = concat ms @ u"
    using u by simp
  have start: "(case last_index_byte (take (length (concat (ms @ [m])) - 1) (concat (ms @ [m]) @ rest)) nl of
      None \<Rightarrow> 0 | Some i \<Rightarrow> i + 1) = length (concat ms)"
    unfolding tk last using ne by (cases "ms = []") (simp_all del: length_concat)
  have line: "take (length (concat (ms @ [m])) - length (concat ms)) (drop (length (concat ms)) (concat (ms @ [m]) @ rest)) = m"
    by simp
  have pos: "length (concat (ms @ [m])) \<noteq> 0" using u by simp
  have rec: "back_scan cd seq (concat (ms @ [m]) @ rest) (length (concat ms)) =
      Inr (if ms = [] \<or> unat seq < a then None
         else Some (length (concat (take (unat seq + 1 - a) ms))))"
    using snoc.IH [OF ms, of "m @ rest"] by simp
  show ?case
    unfolding back_scan.simps [of cd seq "concat (ms @ [m]) @ rest" "length (concat (ms @ [m]))"]
      Let_def start line q(1) rec
    using pos q(2) by (auto simp: word_le_nat_alt not_le)
qed


lemma concat_take_mono: "j \<le> k \<Longrightarrow> length (concat (take j ls)) \<le> length (concat (take k ls))"
  by (metis append_take_drop_id concat_append le_add1 length_append min.absorb1 take_take)

lemma concat_slice:
  "j \<le> k \<Longrightarrow> take (length (concat (take k ls)) - length (concat (take j ls))) (drop (length (concat (take j ls))) (concat ls @ t)) =
     concat (drop j (take k ls))"
proof -
  assume "j \<le> k"
  then have "take j (take k ls) = take j ls" by (simp add: min_def)
  then have k: "concat (take k ls) = concat (take j ls) @ concat (drop j (take k ls))"
    by (metis append_take_drop_id concat_append)
  have "concat ls @ t = concat (take k ls) @ concat (drop k ls) @ t"
    by (metis append.assoc append_take_drop_id concat_append)
  then show ?thesis using k by simp
qed

lemma start_loop_lines:
  assumes "nl \<notin> set t"
  shows "lines_from cd a ls \<Longrightarrow> 0 < chunk \<Longrightarrow> k \<le> length ls \<Longrightarrow> k = length ls \<or> unat seq < a + k \<Longrightarrow>
    start_loop cd (concat ls @ t) seq (length (concat (take k ls))) chunk =
      Inr (length (concat (take (unat seq + 1 - a) ls)))"
proof (induction cd "concat ls @ t" seq "length (concat (take k ls))" chunk arbitrary: k rule: start_loop.induct)
  case (1 cd seq chunk k)
  let ?s = "concat ls @ t" and ?past = "length (concat (take k ls))"
  define at where "at = ?past - chunk"
  define buf where "buf = take (?past - at) (drop at ?s)"
  have lines: "list_all is_line ls" using "1.prems"(1) by (rule lines_from_is_line)
  show ?case
  proof (cases "?past = 0")
    case True
    have "k = 0 \<or> ls = []"
      using True lines is_line_nonempty "1.prems"(3) by (cases ls; cases k) auto
    then have "concat (take (unat seq + 1 - a) ls) = []" using "1.prems"(4) by auto
    then show ?thesis unfolding True by (subst start_loop.simps) simp
  next
    case past: False
    show ?thesis
    proof (cases "0 < at \<and> (index_of buf [nl] = None \<or> index_of buf [nl] = Some (length buf - 1))")
      case True
      have "start_loop cd ?s seq ?past chunk = start_loop cd ?s seq ?past (2 * chunk)"
        using past "1.prems"(2) True
        by (subst start_loop.simps) (simp only: Let_def at_def [symmetric] buf_def [symmetric] if_True, simp)
      also have "\<dots> = Inr (length (concat (take (unat seq + 1 - a) ls)))"
        by (rule "1.hyps"(1) [OF _ at_def buf_def refl True]) (use past "1.prems" in auto)
      finally show ?thesis .
    next
      case False
      define skip where "skip = (if 0 < at then the (index_of buf [nl]) + 1 else 0)"
      have "?past \<le> length ?s"
        using concat_take_mono [of k "length ls" ls] "1.prems"(3) by simp
      then have buflen: "length buf = ?past - at" by (simp add: buf_def)
      have sk: "at + skip < ?past \<and> (at + skip = 0 \<or> ?s ! (at + skip - 1) = nl)"
      proof (cases "0 < at")
        case True
        then obtain i where i: "index_of buf [nl] = Some i" "i \<noteq> length buf - 1" using False by auto
        have il: "i < length buf" by (rule index_of_within [OF i(1)])
        have "buf = take i buf @ [nl] @ drop (i + 1) buf" using index_of_Some [OF i(1)] by simp
        then have "buf ! i = nl" using il by (metis length_take less_imp_le min.absorb2 nth_append_length append_Cons)
        moreover have "buf ! i = drop at ?s ! i"
          unfolding buf_def by (rule nth_take) (use il buflen in simp)
        moreover have "drop at ?s ! i = ?s ! (at + i)"
          by (rule nth_drop) (use \<open>?past \<le> length ?s\<close> in \<open>simp add: at_def\<close>)
        ultimately have "?s ! (at + i) = nl" by simp
        with i il buflen True show ?thesis by (simp add: skip_def)
      qed (use past in \<open>simp add: skip_def\<close>)
      have "at + skip \<le> length (concat ls)"
        using sk concat_take_mono [of k "length ls" ls] "1.prems"(3) by simp
      moreover have "at + skip = 0 \<or> concat ls ! (at + skip - 1) = nl"
        using sk calculation by (auto simp: nth_append split: if_splits)
      ultimately obtain j where j: "j \<le> length ls" "at + skip = length (concat (take j ls))"
        using line_boundary [OF lines] by metis
      have jk: "j < k" using sk j(2) concat_take_mono [of k j ls] by (metis leD not_le)
      have "drop skip buf = take (?past - (at + skip)) (drop (at + skip) ?s)"
        by (simp only: buf_def drop_take drop_drop diff_diff_left add.commute)
      then have ms: "drop skip buf = concat (drop j (take k ls))"
        unfolding j(2) using concat_slice [of j k ls t] jk by simp
      have "lines_from cd (a + j) (drop j (take k ls))"
        by (rule lines_from_drop) (use lines_from_take [OF "1.prems"(1)] jk "1.prems"(3) in auto)
      note scan = back_scan_lines [OF this, of seq "[]", simplified]
      have some: "drop j (take k ls) \<noteq> []" using jk "1.prems"(3) by simp
      have step: "start_loop cd ?s seq ?past chunk =
          (case back_scan cd seq (drop skip buf) (length (drop skip buf)) of
             Inl e \<Rightarrow> Inl e
           | Inr (Some stop) \<Rightarrow> Inr (at + skip + stop)
           | Inr None \<Rightarrow> start_loop cd ?s seq (at + skip) chunk)"
        using past "1.prems"(2) False
        by (subst start_loop.simps)
           (simp only: Let_def at_def [symmetric] buf_def [symmetric] skip_def [symmetric] if_False, simp)
      show ?thesis
      proof (cases "unat seq < a + j")
        case True
        have "start_loop cd ?s seq ?past chunk = start_loop cd ?s seq (length (concat (take j ls))) chunk"
          unfolding step ms using scan True by (simp add: j(2))
        also have "\<dots> = Inr (length (concat (take (unat seq + 1 - a) ls)))"
          by (rule "1.hyps"(2) [OF _ at_def buf_def refl False skip_def _ refl])
             (use past "1.prems" True j ms scan in auto)
        finally show ?thesis .
      next
        case False
        have "start_loop cd ?s seq ?past chunk =
            Inr (length (concat (take j ls)) + length (concat (take (unat seq + 1 - (a + j)) (drop j (take k ls)))))"
          unfolding step ms using scan some False by (simp add: j(2))
        also have "take (unat seq + 1 - (a + j)) (drop j (take k ls)) = drop j (take (min k (unat seq + 1 - a)) ls)"
          using False by (simp add: take_drop min.commute)
        also have "length (concat (take j ls)) + length (concat (drop j (take (min k (unat seq + 1 - a)) ls))) =
            length (concat (take (min k (unat seq + 1 - a)) ls))"
        proof -
          have "j \<le> min k (unat seq + 1 - a)" using jk False by simp
          then have "take j (take (min k (unat seq + 1 - a)) ls) = take j ls" by (simp only: take_take min.absorb1)
          then show ?thesis by (metis append_take_drop_id concat_append length_append)
        qed
        also have "take (min k (unat seq + 1 - a)) ls = take (unat seq + 1 - a) ls"
        proof (cases "k = length ls")
          case False
          then have "unat seq + 1 - a \<le> k" using "1.prems"(4) by auto
          then show ?thesis by (simp add: min_def)
        qed (simp add: min_def)
        finally show ?thesis .
      qed
    qed
  qed
qed


subsection \<open>What Since reads\<close>

lemma read_since_lines:
  "lines_from cd a ls \<Longrightarrow>
     read_since cd seq n ls = Inr (filter (\<lambda>e. seq < ev_seq e) (map (event_in cd) ls))"
  by (induction ls arbitrary: a n) (auto dest!: line_of_dec)

lemma last_whole_log:
  assumes "lines_from cd a ls" "nl \<notin> set t"
  shows "\<exists>q. last_whole cd (concat ls @ t) = Inr (length (concat ls), q) \<and>
    unat q = (if ls = [] then 0 else a + length ls - 1)"
proof (cases ls rule: rev_cases)
  case Nil
  then show ?thesis using last_whole_empty [OF assms(2), of cd] by simp
next
  case (snoc ks k)
  have "line_of cd k (a + length ks)" "list_all is_line ks"
    using assms(1) lines_from_is_line [OF assms(1)] snoc by (simp_all add: lines_from_append)
  from last_whole_lines [OF this(2) assms(2) this(1)] show ?thesis using snoc by simp
qed

lemma since_lines:
  assumes "lines_from cd a ls" "nl \<notin> set t" "log_file st = Some (concat ls @ t)"
  shows "since cd st seq = Inr (filter (\<lambda>e. seq < ev_seq e) (map (event_in cd) ls))"
proof -
  let ?m = "unat seq + 1 - a" and ?new = "\<lambda>e. seq < ev_seq e"
  have lines: "list_all is_line ls" using assms(1) by (rule lines_from_is_line)
  have all: "since cd st 0 = Inr (filter (\<lambda>e. 0 < ev_seq e) (map (event_in cd) ls))"
    using assms lines by (simp add: since_def whole_lines_concat read_since_lines)
  show ?thesis
  proof (cases "seq = 0")
    case False
    obtain q where "last_whole cd (concat ls @ t) = Inr (length (concat ls), q)"
      using last_whole_log [OF assms(1,2)] by blast
    then have "start_after cd (concat ls @ t) seq = Inr (length (concat (take ?m ls)))"
      using start_loop_lines [OF assms(2,1), of backChunk "length ls" seq]
      by (simp add: start_after_def backChunk_def)
    moreover have "drop (length (concat (take ?m ls))) (concat ls @ t) = concat (drop ?m ls) @ t"
      by (metis append.assoc append_eq_conv_conj append_take_drop_id concat_append)
    moreover have "list_all is_line (drop ?m ls)"
      using lines by (meson in_set_dropD list_all_iff)
    ultimately have "since cd st seq = read_since cd seq 1 (drop ?m ls)"
      using False assms(2,3) by (simp add: since_def whole_lines_concat word_gt_0)
    also have "\<dots> = Inr (filter ?new (map (event_in cd) (drop ?m ls)))"
    proof (cases "?m \<le> length ls")
      case True
      show ?thesis by (rule read_since_lines [OF lines_from_drop [OF assms(1) True]])
    qed simp
    also have "filter ?new (map (event_in cd) (drop ?m ls)) = filter ?new (map (event_in cd) ls)"
    proof -
      have "\<not> ?new (event_in cd l)" if l: "l \<in> set (take ?m ls)" for l
      proof -
        obtain i where "i < ?m" "i < length ls" "l = ls ! i" using l by (auto simp: in_set_conv_nth)
        then have "unat (ev_seq (event_in cd l)) = a + i" "a + i \<le> unat seq"
          using assms(1) line_of_dec by (auto simp: lines_from_def)
        then show ?thesis by (simp add: word_less_nat_alt)
      qed
      then have "filter ?new (map (event_in cd) (take ?m ls)) = []" by (auto simp: filter_empty_conv)
      then show ?thesis by (metis append_Nil append_take_drop_id filter_append map_append)
    qed
    finally show ?thesis .
  qed (use all in simp)
qed

subsection \<open>What the archive reads back\<close>

text \<open>Numbers in which none is more than one above those before it.\<close>

fun climbs :: "nat \<Rightarrow> nat list \<Rightarrow> bool" where
  "climbs m [] = True"
| "climbs m (n # ns) = (n \<le> Suc m \<and> climbs (max m n) ns)"

lemma climbs_append: "climbs m (ns @ ms) \<longleftrightarrow> climbs m ns \<and> climbs (foldl max m ns) ms"
  by (induction ns arbitrary: m) auto

lemma climbs_upt: "b \<le> m \<Longrightarrow> climbs m [Suc b..<Suc c] \<and> foldl max m [Suc b..<Suc c] = max m c"
proof (induction c)
  case (Suc c)
  then show ?case
    by (cases "b \<le> c") (auto simp: climbs_append upt_Suc_append max_def not_le)
qed simp


abbreviation numbered :: "string list \<Rightarrow> nat list \<Rightarrow> string list" where
  "numbered G ns \<equiv> map (\<lambda>n. G ! (n - 1)) ns"







subsection \<open>The writes of an append\<close>

lemma number_lines_lines:
  assumes "codec_ok cd"
  shows "number_lines cd h evs = Inr (buf, h') \<Longrightarrow> unat h + length evs < 2 ^ 64 \<Longrightarrow>
    \<exists>ls. buf = concat ls \<and> length ls = length evs \<and> lines_from cd (Suc (unat h)) ls \<and>
      unat h' = unat h + length evs"
proof (induction evs arbitrary: h buf)
  case (Cons e es)
  let ?e = "e\<lparr>ev_seq := h + 1\<rparr>"
  obtain line rest where line: "cod_enc cd ?e = Some line"
    and rest: "number_lines cd (h + 1) es = Inr (rest, h')" "buf = line @ nl # rest"
    using Cons.prems(1) by (auto simp: Let_def split: option.splits sum.splits prod.splits if_splits)
  have h1: "unat (h + 1) = Suc (unat h)"
    using Cons.prems(2) by (subst unat_add_lem [THEN iffD1]) simp_all
  obtain ls where ls: "rest = concat ls" "length ls = length es" "lines_from cd (Suc (unat (h + 1))) ls"
      "unat h' = unat (h + 1) + length es"
    using Cons.IH [OF rest(1)] Cons.prems(2) h1 by auto
  have "line_of cd (line @ [nl]) (Suc (unat h))"
    using assms line h1 unfolding codec_ok_def by force
  then show ?case
    using ls rest(2) h1 by (intro exI [of _ "(line @ [nl]) # ls"]) simp
qed simp

lemma append_ops_shape:
  assumes "append_ops cd st evs = Inr (ops, h)"
  obtains past q m buf where "last_whole cd (text_of (log_file st)) = Inr (past, q)" "sidecar st = Inr m"
    "number_lines cd (if m < q then q else m) evs = Inr (buf, h)"
    "ops = [Truncate past, WriteAt past buf, WriteSeq (nat_str (unat h) @ newline)]"
  using assms that by (auto simp: append_ops_def split: sum.splits prod.splits)

subsection \<open>What the store keeps\<close>

text \<open>
  \<open>G\<close> is every line ever written whole, in order: the log holds those after the first
  \<open>b\<close>, the archive, by the numbers \<open>nss\<close> of its files, those up to at least \<open>b\<close>.
\<close>

definition archive_names :: "store \<Rightarrow> string list" where
  "archive_names st = map (\<lambda>f. archive_name (fst f)) (archive st)"

definition archive_holds :: "string list \<Rightarrow> nat list list \<Rightarrow> store \<Rightarrow> bool" where
  "archive_holds G nss st \<longleftrightarrow> map snd (archive st) = map (\<lambda>ns. concat (numbered G ns)) nss \<and>
     sorted_wrt (<) (archive_names st) \<and> set (concat nss) \<subseteq> {1..length G} \<and> climbs 0 (concat nss)"

definition seq_file_ok :: "nat \<Rightarrow> store \<Rightarrow> bool" where
  "seq_file_ok n st \<longleftrightarrow> seq_file st = None \<or> (\<exists>m \<le> n. seq_file st = Some (nat_str m @ newline))"

definition log_holds :: "string list \<Rightarrow> nat \<Rightarrow> store \<Rightarrow> bool" where
  "log_holds G b st \<longleftrightarrow> (b < length G \<or> G = [] \<and> b = 0) \<and>
     (\<exists>t. text_of (log_file st) = concat (drop b G) @ t \<and> nl \<notin> set t)"

definition store_inv :: "codec \<Rightarrow> string list \<Rightarrow> nat \<Rightarrow> nat list list \<Rightarrow> store \<Rightarrow> bool" where
  "store_inv cd G b nss st \<longleftrightarrow> lines_from cd 1 G \<and> length G < 2 ^ 64 \<and> log_holds G b st \<and>
     seq_file_ok (length G) st \<and> archive_holds G nss st \<and> b \<le> foldl max 0 (concat nss)"

lemma sidecar_ok:
  assumes "seq_file_ok n st" "n < 2 ^ 64"
  obtains m where "sidecar st = Inr m" "unat m \<le> n"
proof (cases "seq_file st")
  case None
  then show ?thesis using that [of 0] by (simp add: sidecar_def)
next
  case (Some data)
  then obtain m where m: "m \<le> n" "data = nat_str m @ newline" using assms(1) by (auto simp: seq_file_ok_def)
  have "trim_space (nat_str m @ newline) = nat_str m"
    by (rule trim_space_word_newline) simp
  then have "sidecar st = Inr (word_of_nat m)"
    using Some m assms(2) by (simp add: sidecar_def parse_uint64_nat_str)
  moreover have "unat (word_of_nat m :: seqno) = m" using m assms(2) by (simp add: unat_of_nat)
  ultimately show ?thesis using that m(1) by simp
qed

lemma store_head:
  assumes "store_inv cd G b nss st"
  obtains past q m where "last_whole cd (text_of (log_file st)) = Inr (past, q)" "sidecar st = Inr m"
    "past = length (concat (drop b G))" "unat (if m < q then q else m) = length G"
proof -
  obtain t where t: "text_of (log_file st) = concat (drop b G) @ t" "nl \<notin> set t"
    and b: "b < length G \<or> G = [] \<and> b = 0"
    using assms by (auto simp: store_inv_def log_holds_def)
  have "lines_from cd (1 + b) (drop b G)"
    by (rule lines_from_drop) (use assms b in \<open>auto simp: store_inv_def\<close>)
  from last_whole_log [OF this t(2)] obtain q where
    q: "last_whole cd (text_of (log_file st)) = Inr (length (concat (drop b G)), q)" "unat q = length G"
    using b t(1) by auto
  obtain m where m: "sidecar st = Inr m" "unat m \<le> length G"
    using assms sidecar_ok [of "length G" st] by (auto simp: store_inv_def)
  have "unat (if m < q then q else m) = length G" using q(2) m(2) by (simp add: word_less_nat_alt)
  then show ?thesis using that q(1) m(1) by blast
qed

lemma head_of_inv:
  assumes "store_inv cd G b nss st"
  shows "\<exists>h. head_of cd st = Inr h \<and> unat h = length G"
proof -
  obtain past q m where h: "last_whole cd (text_of (log_file st)) = Inr (past, q)" "sidecar st = Inr m"
      "unat (if m < q then q else m) = length G" by (rule store_head [OF assms])
  show ?thesis
  proof (cases "log_file st")
    case None
    then have "q = 0" using h(1) last_whole_empty [of "[]" cd] by (simp add: text_of_def)
    with None h show ?thesis by (simp add: head_of_def)
  next
    case (Some s)
    with h show ?thesis by (simp add: head_of_def text_of_def)
  qed
qed


lemma open_log_inv: "store_inv cd G b nss st \<Longrightarrow> store_inv cd G b nss (open_log st)"
  by (simp add: store_inv_def log_holds_def seq_file_ok_def archive_holds_def archive_names_def
      open_log_def text_of_def)

lemma drop_append_le: "b \<le> length G \<Longrightarrow> drop b (G @ ls) = drop b G @ ls"
  by simp

text \<open>Lines added at the end of the log, and then anything with no line break.\<close>

lemma store_inv_grow:
  assumes "store_inv cd G b nss st" "lines_from cd (Suc (length G)) ls" "length G + length ls < 2 ^ 64"
    and "text_of f = concat (drop b G) @ concat ls @ t" "nl \<notin> set t"
  shows "store_inv cd (G @ ls) b nss (st\<lparr>log_file := f\<rparr>)"
proof -
  have b: "b \<le> length G" using assms(1) by (auto simp: store_inv_def log_holds_def)
  have same: "numbered (G @ ls) ns = numbered G ns" if "set ns \<subseteq> {1..length G}" for ns
    using that by (auto simp: nth_append subset_iff)
  have "map (\<lambda>ns. concat (numbered (G @ ls) ns)) nss = map (\<lambda>ns. concat (numbered G ns)) nss"
  proof (intro map_cong refl)
    fix ns assume "ns \<in> set nss"
    then have "set ns \<subseteq> {1..length G}" using assms(1) by (auto simp: store_inv_def archive_holds_def)
    then show "concat (numbered (G @ ls) ns) = concat (numbered G ns)" by (simp only: same)
  qed
  then show ?thesis
    using assms b
    by (auto simp: store_inv_def log_holds_def seq_file_ok_def archive_holds_def archive_names_def
        lines_from_append intro: le_trans)
qed

lemma store_inv_seq:
  "store_inv cd G b nss st \<Longrightarrow> n \<le> length G \<Longrightarrow>
     store_inv cd G b nss (st\<lparr>seq_file := Some (nat_str n @ newline)\<rparr>)"
  by (auto simp: store_inv_def log_holds_def seq_file_ok_def archive_holds_def archive_names_def)

lemma append_inv:
  assumes cd: "codec_ok cd" and inv: "store_inv cd G b nss st"
    and ops: "append_ops cd st evs = Inr (ops, h)"
    and room: "\<And>h0. head_of cd st = Inr h0 \<Longrightarrow> unat h0 + length evs < 2 ^ 64"
  obtains ls past buf where "ops = [Truncate past, WriteAt past buf, WriteSeq (nat_str (unat h) @ newline)]"
    "buf = concat ls" "list_all is_line ls" "length ls = length evs" "unat h = length (G @ ls)"
    "store_inv cd (G @ ls) b nss (run_ops ops (open_log st))"
    "\<forall>n k. \<exists>j \<le> length ls. store_inv cd (G @ take j ls) b nss (crash n k ops (open_log st))"
proof -
  obtain past q m where last: "last_whole cd (text_of (log_file st)) = Inr (past, q)" "sidecar st = Inr m"
      "past = length (concat (drop b G))" "unat (if m < q then q else m) = length G"
    by (rule store_head [OF inv])
  obtain buf where shape: "number_lines cd (if m < q then q else m) evs = Inr (buf, h)"
      "ops = [Truncate past, WriteAt past buf, WriteSeq (nat_str (unat h) @ newline)]"
    using append_ops_shape [OF ops] last by (metis Inr_inject Pair_inject)
  have fit: "length G + length evs < 2 ^ 64" using head_of_inv [OF inv] room by auto
  then obtain ls where ls: "buf = concat ls" "length ls = length evs" "lines_from cd (Suc (length G)) ls"
      "unat h = length G + length ls"
    using number_lines_lines [OF cd shape(1)] last(4) by auto
  obtain t where t: "text_of (log_file st) = concat (drop b G) @ t"
    using inv by (auto simp: store_inv_def log_holds_def)
  let ?st = "open_log st" and ?cutlog = "Some (concat (drop b G))"
  have lines: "list_all is_line ls" by (rule lines_from_is_line [OF ls(3)])
  have trunc: "run_op (Truncate past) ?st = ?st\<lparr>log_file := ?cutlog\<rparr>"
    using t last(3) by (simp add: open_log_def)
  have wrote: "run_op (WriteAt past d) (run_op (Truncate past) ?st) = ?st\<lparr>log_file := Some (concat (drop b G) @ d)\<rparr>" for d
    unfolding trunc using last(3) by simp
  have grow: "store_inv cd (G @ take j ls) b nss (?st\<lparr>log_file := Some (concat (drop b G) @ concat (take j ls) @ u)\<rparr>)"
    if "nl \<notin> set u" for j u
    by (rule store_inv_grow [OF open_log_inv [OF inv]])
       (use that ls fit in \<open>auto simp: text_of_def lines_from_take min_def\<close>)
  have full: "store_inv cd (G @ ls) b nss (run_op (WriteAt past buf) (run_op (Truncate past) ?st))"
    unfolding wrote using grow [of "[]" "length ls"] ls(1) by simp
  have done': "store_inv cd (G @ ls) b nss (run_ops ops ?st)"
    using store_inv_seq [OF full, of "unat h"] ls(4) unfolding shape(2) run_ops_def by simp
  have "\<exists>j \<le> length ls. store_inv cd (G @ take j ls) b nss (crash n k ops ?st)" for n k
  proof -
    consider "n = 0" | "n = 1" | "n = 2" | "3 \<le> n" by linarith
    then show ?thesis
    proof cases
      case 1
      then show ?thesis using open_log_inv [OF inv] shape(2) by (intro exI [of _ 0]) simp
    next
      case 2
      obtain j u where j: "j \<le> length ls" "take k buf = concat (take j ls) @ u" "nl \<notin> set u"
        using take_lines [OF lines, of k] ls(1) by metis
      have "crash n k ops ?st = ?st\<lparr>log_file := Some (concat (drop b G) @ take k buf)\<rparr>"
        using 2 shape(2) wrote [of "take k buf"] by simp
      then show ?thesis using grow [OF j(3), of j] j by auto
    next
      case 3
      then have "crash n k ops ?st = run_op (WriteAt past buf) (run_op (Truncate past) ?st)"
        using shape(2) by (simp add: numeral_2_eq_2)
      then show ?thesis using full by (intro exI [of _ "length ls"]) simp
    next
      case 4
      then obtain i where "n = Suc (Suc (Suc i))" by (cases n; cases "n - 1"; cases "n - 2") auto
      then have "crash n k ops ?st = run_ops ops ?st" using shape(2) by (simp add: run_ops_def)
      then show ?thesis using done' by (intro exI [of _ "length ls"]) simp
    qed
  qed
  then show ?thesis using that shape(2) ls(1,2,4) lines done' by simp
qed


subsection \<open>The writes of a trim\<close>

lemma archive_name_inj [simp]: "archive_name d = archive_name d' \<longleftrightarrow> d = d'"
  by (simp add: archive_name_def)

text \<open>A day not before any other is the last file's, or a new last one's.\<close>

lemma add_to_last_file:
  assumes "sorted_wrt (<) (map (\<lambda>f. archive_name (fst f)) fs)"
    and "\<And>f. f \<in> set fs \<Longrightarrow> archive_name (fst f) \<le> archive_name day"
  shows "(\<exists>gs s. fs = gs @ [(day, s)] \<and> add_to_file day d fs = gs @ [(day, s @ d)]) \<or>
    (add_to_file day d fs = fs @ [(day, d)] \<and> (\<forall>f \<in> set fs. archive_name (fst f) < archive_name day))"
  using assms
proof (induction fs)
  case (Cons f fs)
  obtain e s where f: "f = (e, s)" by (cases f)
  show ?case
  proof (cases "e = day")
    case True
    have "fs = []"
    proof (cases fs)
      case (Cons g gs)
      then have "archive_name day < archive_name (fst g)" "archive_name (fst g) \<le> archive_name day"
        using Cons.prems f True by auto
      then show ?thesis by simp
    qed
    then show ?thesis using f True by auto
  next
    case False
    have "archive_name e < archive_name day"
      using Cons.prems(2) [of f] f False by (simp add: less_le)
    moreover have "(\<exists>gs s. fs = gs @ [(day, s)] \<and> add_to_file day d fs = gs @ [(day, s @ d)]) \<or>
        (add_to_file day d fs = fs @ [(day, d)] \<and> (\<forall>f \<in> set fs. archive_name (fst f) < archive_name day))"
      using Cons by simp
    ultimately show ?thesis using f False by (auto simp: append_eq_Cons_conv)
  qed
qed simp

lemma archive_add:
  assumes "archive_holds G nss st" "\<And>f. f \<in> set (archive st) \<Longrightarrow> archive_name (fst f) \<le> archive_name day"
    and "set ns \<subseteq> {1..length G}" "climbs (foldl max 0 (concat nss)) ns"
  obtains nss' where "archive_holds G nss' (run_op (AppendArchive day (concat (numbered G ns))) st)"
    "concat nss' = concat nss @ ns"
proof -
  let ?d = "concat (numbered G ns)"
  have sorted: "sorted_wrt (<) (map (\<lambda>f. archive_name (fst f)) (archive st))"
    and files: "map snd (archive st) = map (\<lambda>ns. concat (numbered G ns)) nss"
    using assms(1) by (simp_all add: archive_holds_def archive_names_def)
  from add_to_last_file [OF sorted assms(2), of ?d]
  consider gs s where "archive st = gs @ [(day, s)]" "add_to_file day ?d (archive st) = gs @ [(day, s @ ?d)]"
    | "add_to_file day ?d (archive st) = archive st @ [(day, ?d)]"
      "\<forall>f \<in> set (archive st). archive_name (fst f) < archive_name day" by blast
  then show ?thesis
  proof cases
    case 1
    obtain ms m where nss: "nss = ms @ [m]"
      using files 1(1) by (cases nss rule: rev_cases) auto
    have "archive_holds G (ms @ [m @ ns]) (run_op (AppendArchive day ?d) st)"
      using assms sorted files 1 nss
      by (auto simp: archive_holds_def archive_names_def climbs_append)
    then show ?thesis using that nss by auto
  next
    case 2
    have "archive_holds G (nss @ [ns]) (run_op (AppendArchive day ?d) st)"
      using assms sorted files 2
      by (auto simp: archive_holds_def archive_names_def climbs_append sorted_wrt_append)
    then show ?thesis using that by auto
  qed
qed

lemma trim_scan_lines:
  "lines_from cd a ls \<Longrightarrow> trim_scan cd up_to past ls =
     Inr (past + length (concat (take (unat up_to + 1 - a) ls)), min (unat up_to + 1 - a) (length ls))"
proof (induction ls arbitrary: a past)
  case (Cons l ls)
  have l: "cod_dec cd l = Some (event_in cd l)" "unat (ev_seq (event_in cd l)) = a"
    using Cons.prems line_of_dec by auto
  show ?case
  proof (cases "up_to < ev_seq (event_in cd l)")
    case True
    then have "unat up_to + 1 - a = 0" using l(2) by (simp add: word_less_nat_alt)
    with True l show ?thesis by simp
  next
    case False
    then have "unat up_to + 1 - a = Suc (unat up_to + 1 - Suc a)" using l(2) by (simp add: word_less_nat_alt)
    moreover have "trim_scan cd up_to (past + length l) ls =
        Inr (past + length l + length (concat (take (unat up_to + 1 - Suc a) ls)), min (unat up_to + 1 - Suc a) (length ls))"
      by (rule Cons.IH) (use Cons.prems in simp)
    ultimately show ?thesis using False l(1) by simp
  qed
qed simp

lemma numbered_slice:
  assumes "b \<le> c" "c \<le> length G"
  shows "numbered G [Suc b..<Suc c] = take (c - b) (drop b G)"
  by (rule nth_equalityI) (use assms in \<open>auto simp: nth_append simp del: upt_Suc\<close>)

text \<open>
  A trim that keeps at least one event: it moves the lines up to \<open>up_to\<close>, and after a crash
  between its two writes the store is one that holds them twice.
\<close>

lemma trim_inv:
  assumes inv: "store_inv cd G b nss st" and ops: "trim_ops cd st up_to day = Inr (ops, moved)"
    and keeps: "\<And>h. head_of cd st = Inr h \<Longrightarrow> up_to < h"
    and days: "\<And>f. f \<in> set (archive st) \<Longrightarrow> archive_name (fst f) \<le> archive_name day"
  obtains b' nss' where "store_inv cd G b' nss' (run_ops ops st)" "b' = max b (unat up_to) \<or> b' = b"
    "\<And>n. \<exists>b' nss'. store_inv cd G b' nss' (crash n 0 ops st)"
proof (cases "moved = 0")
  case True
  then have "ops = []" using ops by (auto simp: trim_ops_def Let_def split: option.splits sum.splits if_splits)
  then show ?thesis using that [of b nss] inv by (auto simp: run_ops_def)
next
  case False
  then obtain s where s: "log_file st = Some s"
    using ops by (auto simp: trim_ops_def split: option.splits)
  obtain t where t: "s = concat (drop b G) @ t" "nl \<notin> set t"
    using inv s by (auto simp: store_inv_def log_holds_def text_of_def)
  have b: "b < length G \<or> G = [] \<and> b = 0" using inv by (simp add: store_inv_def log_holds_def)
  let ?ls = "drop b G" and ?m = "unat up_to - b"
  have from': "lines_from cd (Suc b) ?ls"
    using lines_from_drop [of cd 1 G b] inv b by (auto simp: store_inv_def)
  note lines = lines_from_is_line [OF from']
  have "(case last_index_byte s nl of None \<Rightarrow> [] | Some i \<Rightarrow> take (i + 1) s) = concat ?ls"
  proof (cases ?ls rule: rev_cases)
    case Nil
    then show ?thesis using t by (simp add: last_index_byte_absent)
  next
    case (snoc ks k)
    then obtain u where u: "k = u @ [nl]" using lines by (auto simp: is_line_def)
    then show ?thesis unfolding t(1) snoc using t(2)
      by (simp add: last_index_byte_append last_index_byte_absent)
  qed
  note data = this
  have up: "unat up_to < length G"
    using keeps head_of_inv [OF inv] by (auto simp: word_less_nat_alt)
  have ops': "ops = [AppendArchive day (concat (take ?m ?ls)), ReplaceLog (concat (drop ?m ?ls))]"
    and moved: "moved = min ?m (length ?ls)"
  proof -
    have split: "concat ?ls = concat (take ?m ?ls) @ concat (drop ?m ?ls)"
      by (metis append_take_drop_id concat_append)
    have "trim_scan cd up_to 0 (whole_lines (concat ?ls)) = Inr (length (concat (take ?m ?ls)), min ?m (length ?ls))"
      using trim_scan_lines [OF from', of up_to 0] by (simp only: whole_lines_only [OF lines]) simp
    moreover have "take (length (concat (take ?m ?ls))) (concat ?ls) = concat (take ?m ?ls)"
      "drop (length (concat (take ?m ?ls))) (concat ?ls) = concat (drop ?m ?ls)"
      by (subst split, simp)+
    ultimately have "trim_ops cd st up_to day = (if min ?m (length ?ls) = 0 then Inr ([], 0)
        else Inr ([AppendArchive day (concat (take ?m ?ls)), ReplaceLog (concat (drop ?m ?ls))], min ?m (length ?ls)))"
      by (simp only: trim_ops_def s option.case Let_def data sum.case prod.case)
    then show "ops = [AppendArchive day (concat (take ?m ?ls)), ReplaceLog (concat (drop ?m ?ls))]"
      "moved = min ?m (length ?ls)"
      using ops False by (auto split: if_splits)
  qed
  have bu: "b < unat up_to" using False moved by simp
  have slice: "take ?m ?ls = numbered G [Suc b..<Suc (unat up_to)]"
    by (rule numbered_slice [symmetric]) (use bu up in auto)
  have arch: "archive_holds G nss st" and top: "b \<le> foldl max 0 (concat nss)"
    using inv by (simp_all add: store_inv_def)
  have climb: "climbs (foldl max 0 (concat nss)) [Suc b..<Suc (unat up_to)]"
    using climbs_upt [OF top] by simp
  have range: "set [Suc b..<Suc (unat up_to)] \<subseteq> {1..length G}" using up by auto
  obtain nss' where new: "archive_holds G nss' (run_op (AppendArchive day (concat (take ?m ?ls))) st)"
      "concat nss' = concat nss @ [Suc b..<Suc (unat up_to)]"
    using archive_add [OF arch days range climb] slice by metis
  have top': "foldl max 0 (concat nss') = max (foldl max 0 (concat nss)) (unat up_to)"
    unfolding new(2) foldl_append using climbs_upt [OF top] by simp
  let ?st1 = "run_op (AppendArchive day (concat (take ?m ?ls))) st"
  have one: "store_inv cd G b nss' ?st1"
    using inv new(1) top top' by (auto simp: store_inv_def log_holds_def seq_file_ok_def)
  have two: "store_inv cd G (unat up_to) nss' (run_op (ReplaceLog (concat (drop ?m ?ls))) ?st1)"
    using one up bu top' by (auto simp: store_inv_def log_holds_def seq_file_ok_def archive_holds_def
        archive_names_def text_of_def intro: exI [of _ "[]"])
  obtain nss0 where zero: "archive_holds G nss0 (run_op (AppendArchive day []) st)" "concat nss0 = concat nss"
    using archive_add [OF arch days, of "[]"] by auto
  then have zero': "store_inv cd G b nss0 (run_op (AppendArchive day []) st)"
    using inv by (auto simp: store_inv_def log_holds_def seq_file_ok_def)
  have "\<exists>b' nss'. store_inv cd G b' nss' (crash n 0 ops st)" for n
  proof -
    consider "n = 0" | "n = 1" | i where "n = Suc (Suc i)" by (metis One_nat_def not0_implies_Suc)
    then show ?thesis
      using zero' one two unfolding ops' by cases auto
  qed
  moreover have "run_ops ops st = run_op (ReplaceLog (concat (drop ?m ?ls))) ?st1"
    unfolding ops' run_ops_def by simp
  ultimately show ?thesis using that two bu by (metis max.absorb2 less_imp_le)
qed


subsection \<open>A store through appends, trims and crashes\<close>

text \<open>The lines a list of writes adds to the log.\<close>

fun written :: "disk_op list \<Rightarrow> string list" where
  "written [] = []"
| "written (WriteAt n data # ops) = whole_lines data @ written ops"
| "written (_ # ops) = written ops"

text \<open>
  The stores the home can come to, with the lines of every append that returned.  A crash
  stops an append at any byte of any of its writes.  The trim's caller keeps at least the
  newest event (\<open>EventTrim\<close>), the days of the trims never go back, and the trim's crash
  is between its writes, the one its comment speaks of.  The log never numbers \<open>2 ^ 64\<close> events.
\<close>

inductive store_run :: "codec \<Rightarrow> store \<Rightarrow> string list \<Rightarrow> bool" for cd where
  fresh: "store_run cd \<lparr>log_file = None, seq_file = None, archive = []\<rparr> []"
| appended: "store_run cd st acked \<Longrightarrow> append_ops cd st evs = Inr (ops, h) \<Longrightarrow>
     (\<And>h0. head_of cd st = Inr h0 \<Longrightarrow> unat h0 + length evs < 2 ^ 64) \<Longrightarrow>
     store_run cd (run_ops ops (open_log st)) (acked @ written ops)"
| append_crashed: "store_run cd st acked \<Longrightarrow> append_ops cd st evs = Inr (ops, h) \<Longrightarrow>
     (\<And>h0. head_of cd st = Inr h0 \<Longrightarrow> unat h0 + length evs < 2 ^ 64) \<Longrightarrow>
     store_run cd (crash n k ops (open_log st)) acked"
| append_refused: "store_run cd st acked \<Longrightarrow> store_run cd (open_log st) acked"
| trimmed: "store_run cd st acked \<Longrightarrow> trim_ops cd st up_to day = Inr (ops, moved) \<Longrightarrow>
     (\<And>h. head_of cd st = Inr h \<Longrightarrow> up_to < h) \<Longrightarrow>
     (\<And>f. f \<in> set (archive st) \<Longrightarrow> archive_name (fst f) \<le> archive_name day) \<Longrightarrow>
     store_run cd (run_ops ops st) acked"
| trim_crashed: "store_run cd st acked \<Longrightarrow> trim_ops cd st up_to day = Inr (ops, moved) \<Longrightarrow>
     (\<And>h. head_of cd st = Inr h \<Longrightarrow> up_to < h) \<Longrightarrow>
     (\<And>f. f \<in> set (archive st) \<Longrightarrow> archive_name (fst f) \<le> archive_name day) \<Longrightarrow>
     store_run cd (crash n 0 ops st) acked"

lemma fresh_inv: "store_inv cd [] 0 [] \<lparr>log_file = None, seq_file = None, archive = []\<rparr>"
  by (simp add: store_inv_def log_holds_def seq_file_ok_def archive_holds_def archive_names_def text_of_def)

lemma store_run_inv:
  assumes "codec_ok cd"
  shows "store_run cd st acked \<Longrightarrow> \<exists>G b nss. store_inv cd G b nss st \<and> set acked \<subseteq> set G"
proof (induction rule: store_run.induct)
  case fresh
  then show ?case using fresh_inv by fastforce
next
  case (appended st acked evs ops h)
  then obtain G b nss where inv: "store_inv cd G b nss st" "set acked \<subseteq> set G" by blast
  obtain ls past buf where "ops = [Truncate past, WriteAt past buf, WriteSeq (nat_str (unat h) @ newline)]"
      "buf = concat ls" "list_all is_line ls" "store_inv cd (G @ ls) b nss (run_ops ops (open_log st))"
    by (rule append_inv [OF assms inv(1) appended.hyps(2,3)]) blast
  moreover from this have "written ops = ls" by simp
  ultimately show ?case using inv(2) by (intro exI [of _ "G @ ls"] exI [of _ b] exI [of _ nss]) auto
next
  case (append_crashed st acked evs ops h n k)
  then obtain G b nss where inv: "store_inv cd G b nss st" "set acked \<subseteq> set G" by blast
  obtain ls where "\<forall>n k. \<exists>j \<le> length ls. store_inv cd (G @ take j ls) b nss (crash n k ops (open_log st))"
    by (rule append_inv [OF assms inv(1) append_crashed.hyps(2,3)]) blast
  then show ?case using inv(2) by fastforce
next
  case (append_refused st acked)
  then show ?case using open_log_inv by blast
next
  case (trimmed st acked up_to day ops moved)
  then obtain G b nss where inv: "store_inv cd G b nss st" "set acked \<subseteq> set G" by blast
  show ?case by (rule trim_inv [OF inv(1) trimmed.hyps(2,3,4)]) (use inv(2) in blast)+
next
  case (trim_crashed st acked up_to day ops moved n)
  then obtain G b nss where inv: "store_inv cd G b nss st" "set acked \<subseteq> set G" by blast
  show ?case by (rule trim_inv [OF inv(1) trim_crashed.hyps(2,3,4)]) (use inv(2) in blast)+
qed

lemma since_inv:
  assumes "store_inv cd G b nss st"
  shows "since cd st seq = Inr (filter (\<lambda>e. seq < ev_seq e) (map (event_in cd) (drop b G)))"
proof -
  obtain t where t: "text_of (log_file st) = concat (drop b G) @ t" "nl \<notin> set t"
    and b: "b < length G \<or> G = [] \<and> b = 0"
    using assms by (auto simp: store_inv_def log_holds_def)
  have lines: "lines_from cd (1 + b) (drop b G)"
    by (rule lines_from_drop) (use assms b in \<open>auto simp: store_inv_def\<close>)
  show ?thesis
  proof (cases "log_file st")
    case None
    have "drop b G = []"
      using t(1) None lines_from_is_line [OF lines] is_line_nonempty
      by (cases "drop b G") (auto simp: text_of_def)
    then show ?thesis using None by (simp add: since_def)
  next
    case (Some s)
    then show ?thesis using since_lines [OF lines t(2)] t(1) by (simp add: text_of_def)
  qed
qed





text \<open>C2. Reading the log back from its end, in chunks of any alignment, for where the events
  after a seq begin gives exactly the events of the whole log that are after it.\<close>

theorem since_reads_the_rest:
  assumes "codec_ok cd" and "store_run cd st acked"
  shows "\<exists>all. since cd st 0 = Inr all \<and>
    (\<forall>seq. since cd st seq = Inr (filter (\<lambda>e. seq < ev_seq e) all))"
proof -
  obtain G b nss where inv: "store_inv cd G b nss st"
    using store_run_inv [OF assms] by blast
  have le: "seq < q \<Longrightarrow> 0 < q" for seq q :: seqno by (simp add: word_less_nat_alt)
  have "filter (\<lambda>e. seq < ev_seq e) (filter (\<lambda>e. 0 < ev_seq e) es) = filter (\<lambda>e. seq < ev_seq e) es"
    for seq and es :: "event list"
    unfolding filter_filter by (rule filter_cong [OF refl]) (use le in blast)
  then show ?thesis by (simp add: since_inv [OF inv])
qed


subsection \<open>A log with one event\<close>

text \<open>A codec that keeps an event's seq alone.\<close>

definition seq_codec :: codec where
  "seq_codec =
     (let read = (\<lambda>l. map_option word_of_nat (parse_uint64 (trim_space l)));
          blank = \<lparr>ev_seq = 0, ev_ts = 1, ev_kind = KindMessage, ev_bead = [], ev_actor = [],
                   ev_from = [], ev_to = [], ev_detail = [], ev_lane = LaneNormal, ev_clears = 0\<rparr>
      in \<lparr>cod_enc = \<lambda>e. Some (nat_str (unat (ev_seq e))),
          cod_dec = \<lambda>l. map_option (\<lambda>q. blank\<lparr>ev_seq := q\<rparr>) (read l),
          cod_seq = read\<rparr>)"

lemma seq_codec_ok: "codec_ok seq_codec"
proof -
  have "line_of seq_codec (nat_str (unat q) @ [nl]) (unat q)" for q :: seqno
  proof -
    have w: "word (nat_str (unat q))" by simp
    have "trim_space (nat_str (unat q) @ [nl]) = nat_str (unat q)"
      using trim_space_word_newline [OF w] by (simp add: newline_def)
    moreover have "trim_space (nat_str (unat q)) = nat_str (unat q)"
      using w by (simp add: word_def no_space_trim)
    moreover have "parse_uint64 (nat_str (unat q)) = Some (unat q)"
      by (rule parse_uint64_nat_str) (use unsigned_less [of q] in simp)
    moreover have "nl \<notin> set (nat_str (unat q))" by (rule nat_str_absent) (simp add: is_digit_def byte_def)
    ultimately show ?thesis by (simp add: line_of_def seq_codec_def Let_def)
  qed
  then show ?thesis by (simp add: codec_ok_def seq_codec_def Let_def)
qed

definition one_message :: event where
  "one_message = \<lparr>ev_seq = 0, ev_ts = 1, ev_kind = KindMessage, ev_bead = [], ev_actor = [],
     ev_from = [], ev_to = [], ev_detail = [], ev_lane = LaneNormal, ev_clears = 0\<rparr>"

lemma one_message_ops:
  "append_ops seq_codec \<lparr>log_file = None, seq_file = None, archive = []\<rparr> [one_message] =
     Inr ([Truncate 0, WriteAt 0 (nat_str 1 @ [nl]), WriteSeq (nat_str 1 @ newline)], 1)"
proof -
  have "validate_event (one_message\<lparr>ev_seq := 1\<rparr>) = None"
    by (simp add: one_message_def validate_event_def check_lane_def kind_machine_def kinds_def
        kind_machine_map_def kind_bead_def validate_no_machine_def List.member_iff)
  moreover have "length (nat_str 1) = 1" by (simp add: nat_str.simps)
  ultimately show ?thesis
    by (simp add: append_ops_def text_of_def last_whole_empty sidecar_def seq_codec_def Let_def MaxEventLine_def)
qed

lemma one_message_run:
  "store_run seq_codec (run_ops [Truncate 0, WriteAt 0 (nat_str 1 @ [nl]), WriteSeq (nat_str 1 @ newline)]
     (open_log \<lparr>log_file = None, seq_file = None, archive = []\<rparr>)) [nat_str 1 @ [nl]]"
proof -
  have "is_line (nat_str 1 @ [nl])"
    using nat_str_absent [of nl 1] by (simp add: is_line_def is_digit_def byte_def)
  then have "whole_lines (nat_str 1 @ [nl]) = [nat_str 1 @ [nl]]"
    using whole_lines_only [of "[nat_str 1 @ [nl]]"] by simp
  then have w: "written [Truncate 0, WriteAt 0 (nat_str 1 @ [nl]), WriteSeq (nat_str 1 @ newline)] = [nat_str 1 @ [nl]]"
    by simp
  have "unat h0 + length [one_message] < 2 ^ 64"
    if "head_of seq_codec \<lparr>log_file = None, seq_file = None, archive = []\<rparr> = Inr h0" for h0
    using that by (simp add: head_of_def sidecar_def)
  from store_run.appended [OF store_run.fresh one_message_ops this]
  show ?thesis unfolding w by simp
qed


lemma since_reads_the_rest_witness:
  "\<exists>es. since seq_codec (run_ops [Truncate 0, WriteAt 0 (nat_str 1 @ [nl]), WriteSeq (nat_str 1 @ newline)]
     (open_log \<lparr>log_file = None, seq_file = None, archive = []\<rparr>)) 1 = Inr es"
  using since_reads_the_rest [OF seq_codec_ok one_message_run] by blast

text \<open>
  A crash while the archive file is written leaves a torn line in it, which the next trim
  joins its first line to: nothing cuts it, as an append cuts the log's, and the archive can
  then not be read at all.
\<close>

lemma torn_archive_unreadable:
  assumes "nl \<notin> set u" "nl \<notin> set v" "cod_dec cd (u @ v @ [nl]) = None"
  shows "archived cd (run_op (AppendArchive day (v @ nl # rest))
      (torn_op (length u) (AppendArchive day (u @ w)) \<lparr>log_file = f, seq_file = g, archive = []\<rparr>)) seq =
    Inl (LineBad 1 (u @ v @ [nl]))"
proof -
  have "whole_lines (u @ v @ nl # rest) = (u @ v @ [nl]) # whole_lines rest"
    using whole_lines_line [of "u @ v" rest] assms(1,2) by simp
  then show ?thesis using assms(3) by (simp add: archived_def)
qed

end
