(* ===== verification/EventShip.thy ===== *)
theory EventShip
  imports EventStore
begin

text \<open>
  \<^verbatim>\<open>application/eventship.go\<close>: the shipper, which sends the home's events to the Governor, each
  pass on chain and direct, keeps what the chain did not take for later passes, and sends an
  emergency alone.  A pass is a function of the shipper, of the world and of the time; the
  world holds the event log, the answers the chain, the backend, the cipher, the disk and the
  clock give to the calls made of them, in the order they are made, and what has been put on
  chain and delivered.  A process that dies in a pass is one whose calls fail from there on and
  that is started anew.  What is only said on \<open>Err\<close> is not modelled.
  \<^verbatim>\<open>infrastructure/eventlog/ship.go\<close>: the files of the state and of the ranges retired, each
  replaced whole.
\<close>

subsection \<open>State\<close>

record ship_range =
  r_from :: seqno
  r_to :: seqno

text \<open>A day is the number of the UTC day; \<open>None\<close> is the empty text of a state never kept.\<close>

record ship_state =
  sh_shipped :: seqno
  sh_pending :: "ship_range list"
  sh_joinable :: bool
  sh_day :: "int option"
  sh_chain :: int
  sh_alarmed :: bool
  sh_urgent :: "seqno list"
  sh_emergency :: int
  sh_retired :: int

definition zero_state :: ship_state where
  "zero_state = \<lparr>sh_shipped = 0, sh_pending = [], sh_joinable = False, sh_day = None, sh_chain = 0,
     sh_alarmed = False, sh_urgent = [], sh_emergency = 0, sh_retired = 0\<rparr>"

record ship_config =
  sc_chain :: bool
  sc_daily_cap :: int
  sc_emergency_cap :: int
  sc_host :: string
  sc_codec :: codec

text \<open>The shipper in memory: its state once it is loaded, and whether a retry's sends are unsaved.\<close>

record shipper =
  sp_state :: "ship_state option"
  sp_unsaved :: bool
  sp_last_sent :: gotime

record ship_world =
  sw_log :: "event list"
  sw_kept :: "ship_state option"
  sw_on_chain :: "batch list"
  sw_direct :: "batch list"
  sw_retired :: "(int \<times> ship_range list) list"
  sw_read_ok :: "bool list"
  sw_seal_ok :: "bool list"
  sw_chain_ok :: "bool list"
  sw_direct_ok :: "bool list"
  sw_keep_ok :: "bool list"
  sw_clock :: "gotime list"

datatype ship_error =
    LoadFailed
  | ReadFailed
  | SealFailed
  | NotDelivered seqno seqno
  | SaveFailed

definition ShipWindow :: duration where "ShipWindow = 2 * second"
definition ShipMaxEvents :: nat where "ShipMaxEvents = 50"
definition shipMaxPlain :: nat where "shipMaxPlain = 7200"
definition ShipRetryBudget :: duration where "ShipRetryBudget = 15 * second"

subsection \<open>Calls\<close>

text \<open>The next answer to a kind of call; a call past the answers given fails.\<close>

fun next_answer :: "bool list \<Rightarrow> bool \<times> bool list" where
  "next_answer [] = (False, [])"
| "next_answer (a # as) = (a, as)"

definition read_log :: "ship_world \<Rightarrow> bool \<times> ship_world" where
  "read_log w = (let (a, as) = next_answer (sw_read_ok w) in (a, w\<lparr>sw_read_ok := as\<rparr>))"

definition clock :: "ship_world \<Rightarrow> gotime \<times> ship_world" where
  "clock w = (case sw_clock w of [] \<Rightarrow> (0, w) | t # ts \<Rightarrow> (t, w\<lparr>sw_clock := ts\<rparr>))"

definition put_on_chain :: "batch \<Rightarrow> ship_world \<Rightarrow> bool \<times> ship_world" where
  "put_on_chain b w =
     (let (a, as) = next_answer (sw_chain_ok w)
      in (a, w\<lparr>sw_chain_ok := as, sw_on_chain := sw_on_chain w @ (if a then [b] else [])\<rparr>))"

definition deliver :: "batch \<Rightarrow> ship_world \<Rightarrow> bool \<times> ship_world" where
  "deliver b w =
     (let (a, as) = next_answer (sw_direct_ok w)
      in (a, w\<lparr>sw_direct_ok := as, sw_direct := sw_direct w @ (if a then [b] else [])\<rparr>))"

definition save_state :: "ship_state \<Rightarrow> shipper \<Rightarrow> ship_world \<Rightarrow> ship_error option \<times> shipper \<times> ship_world" where
  "save_state st sp w =
     (let (a, as) = next_answer (sw_keep_ok w); sp = sp\<lparr>sp_state := Some st\<rparr>
      in if a then (None, sp\<lparr>sp_unsaved := False\<rparr>, w\<lparr>sw_keep_ok := as, sw_kept := Some st\<rparr>)
         else (Some SaveFailed, sp, w\<lparr>sw_keep_ok := as\<rparr>))"

text \<open>A record of some events: their lane is the record's, and it must be a batch to send.\<close>

definition seal :: "event list \<Rightarrow> string \<Rightarrow> ship_world \<Rightarrow> batch option \<times> ship_world" where
  "seal evs lane w =
     (let b = \<lparr>b_from = ev_seq (hd evs), b_to = ev_seq (last evs), b_lane = lane,
               b_events = map (\<lambda>e. e\<lparr>ev_lane := lane\<rparr>) evs\<rparr>
      in case validate_batch b of
           Some _ \<Rightarrow> (None, w)
         | None \<Rightarrow>
             (let (a, as) = next_answer (sw_seal_ok w)
              in (if a then Some b else None, w\<lparr>sw_seal_ok := as\<rparr>)))"

definition log_since :: "ship_world \<Rightarrow> seqno \<Rightarrow> event list" where
  "log_since w seq = filter (\<lambda>e. seq < ev_seq e) (sw_log w)"

subsection \<open>Small steps of the state\<close>

text \<open>The UTC day of a time.\<close>

definition utc_day :: "gotime \<Rightarrow> int" where
  "utc_day now = now div (86400 * second)"

definition roll_day :: "ship_state \<Rightarrow> gotime \<Rightarrow> ship_state" where
  "roll_day st now =
     (let day = utc_day now
      in if sh_day st \<noteq> Some day
         then st\<lparr>sh_day := Some day, sh_chain := 0, sh_alarmed := False, sh_emergency := 0\<rparr>
         else st)"

text \<open>The loop of \<open>stepOver\<close>, over the emergencies sent alone.\<close>

function step_past :: "seqno \<Rightarrow> seqno list \<Rightarrow> seqno \<times> seqno list" where
  "step_past shipped urgent =
     (if List.member urgent (shipped + 1) then step_past (shipped + 1) (remove1 (shipped + 1) urgent)
      else (shipped, urgent))"
  by pat_completeness auto
termination
  by (relation "measure (\<lambda>(shipped, urgent). length urgent)")
     (auto simp: length_remove1 dest: length_pos_if_in_set)

declare step_past.simps [simp del]

definition step_over :: "ship_state \<Rightarrow> ship_state" where
  "step_over st =
     (let (shipped, urgent) = step_past (sh_shipped st) (sh_urgent st)
      in st\<lparr>sh_shipped := shipped, sh_urgent := filter (\<lambda>n. \<not> n \<le> shipped) urgent\<rparr>)"

text \<open>The events a batch may hold, past those sent and up to the next emergency sent alone.\<close>

definition unsent_batch :: "ship_state \<Rightarrow> event list \<Rightarrow> ship_state \<times> event list" where
  "unsent_batch st unsent =
     (let st = step_over st
      in (st, takeWhile (\<lambda>e. \<not> List.member (sh_urgent st) (ev_seq e))
                (dropWhile (\<lambda>e. ev_seq e \<le> sh_shipped st) unsent)))"

definition keep_for_chain :: "ship_state \<Rightarrow> ship_range \<Rightarrow> ship_state" where
  "keep_for_chain st r =
     (if sh_joinable st \<and> sh_pending st \<noteq> [] \<and> r_to (last (sh_pending st)) + 1 = r_from r
      then st\<lparr>sh_pending := butlast (sh_pending st) @ [(last (sh_pending st))\<lparr>r_to := r_to r\<rparr>]\<rparr>
      else st\<lparr>sh_pending := sh_pending st @ [r], sh_joinable := True\<rparr>)"

text \<open>The loop of \<open>cutBatch\<close>: the encoded size so far, and whether an event is before this one.\<close>

fun cut_plain :: "codec \<Rightarrow> nat \<Rightarrow> bool \<Rightarrow> event list \<Rightarrow> event list" where
  "cut_plain cd bytes before [] = []"
| "cut_plain cd bytes before (e # es) =
     (case cod_enc cd e of
        None \<Rightarrow> e # cut_plain cd bytes True es
      | Some line \<Rightarrow>
          let bytes = bytes + length line + 1
          in if shipMaxPlain < bytes \<and> before then [] else e # cut_plain cd bytes True es)"

definition cut_batch :: "codec \<Rightarrow> event list \<Rightarrow> event list" where
  "cut_batch cd evs = cut_plain cd 0 False (take ShipMaxEvents evs)"

definition batch_due :: "shipper \<Rightarrow> nat \<Rightarrow> gotime \<Rightarrow> bool" where
  "batch_due sp n now \<longleftrightarrow>
     ShipMaxEvents \<le> n \<or> sp_last_sent sp = 0 \<or> ShipWindow \<le> time_sub now (sp_last_sent sp)"

text \<open>The events of a pending range, every one, or none when the log no longer holds them.\<close>

definition events_in :: "ship_world \<Rightarrow> ship_range \<Rightarrow> event list option \<times> ship_world" where
  "events_in w r =
     (let (ok, w) = read_log w; all = log_since w (r_from r - 1); n = unat (r_to r - r_from r + 1)
      in (if \<not> ok \<or> n = 0 \<or> length all < n \<or> ev_seq (hd all) \<noteq> r_from r \<or> ev_seq (all ! (n - 1)) \<noteq> r_to r
          then None else Some (take n all), w))"


subsection \<open>A pass\<close>

text \<open>A batch is put on chain when it may be.\<close>

definition try_chain :: "bool \<Rightarrow> batch \<Rightarrow> ship_world \<Rightarrow> bool \<times> ship_world" where
  "try_chain may b w = (if may then put_on_chain b w else (False, w))"

text \<open>An emergency sent alone is counted, at the front or among the urgent.\<close>

definition mark_emergency :: "event \<Rightarrow> ship_state \<Rightarrow> ship_state" where
  "mark_emergency e st =
     (let st = st\<lparr>sh_emergency := sh_emergency st + 1\<rparr>
      in if ev_seq e = sh_shipped st + 1 then step_over (st\<lparr>sh_shipped := ev_seq e\<rparr>)
         else st\<lparr>sh_urgent := sh_urgent st @ [ev_seq e]\<rparr>)"

text \<open>
  \<open>sendEmergencies\<close>, one event and then each: whether the chain failed one, why the pass ends
  if it does, and the state, the shipper and the world after it.
\<close>

definition send_emergency ::
  "ship_config \<Rightarrow> event \<Rightarrow> bool \<Rightarrow> ship_state \<Rightarrow> shipper \<Rightarrow> ship_world \<Rightarrow>
     bool \<times> ship_error option \<times> ship_state \<times> shipper \<times> ship_world"
where
  "send_emergency cfg e down st sp w =
     (case seal [e] LaneEmergency w of
        (None, w) \<Rightarrow> (down, Some SealFailed, st, sp, w)
      | (Some b, w) \<Rightarrow>
          let over = sc_emergency_cap cfg \<le> sh_emergency st;
              tries = sc_chain cfg \<and> \<not> down \<and> \<not> over;
              (on_chain, w) = try_chain tries b w;
              down = (down \<or> (tries \<and> \<not> on_chain));
              (direct, w) = deliver b w
          in if \<not> direct \<and> \<not> on_chain
             then (let (_, sp, w) = save_state st sp w
                   in (down, Some (NotDelivered (ev_seq e) (ev_seq e)), st, sp, w))
             else let st = mark_emergency e st;
                      st = (if \<not> on_chain \<and> sc_chain cfg \<and> \<not> over
                            then st\<lparr>sh_pending := sh_pending st @ [\<lparr>r_from = ev_seq e, r_to = ev_seq e\<rparr>],
                                    sh_joinable := False\<rparr>
                            else st);
                      (err, sp, w) = save_state st sp w
                  in (down, err, st, sp, w))"

fun send_emergencies ::
  "ship_config \<Rightarrow> event list \<Rightarrow> bool \<Rightarrow> ship_state \<Rightarrow> shipper \<Rightarrow> ship_world \<Rightarrow>
     bool \<times> ship_error option \<times> ship_state \<times> shipper \<times> ship_world"
where
  "send_emergencies cfg [] down st sp w = (down, None, st, sp, w)"
| "send_emergencies cfg (e # es) down st sp w =
     (if ev_lane e \<noteq> LaneEmergency \<or> List.member (sh_urgent st) (ev_seq e)
      then send_emergencies cfg es down st sp w
      else (case send_emergency cfg e down st sp w of
              (down, Some err, st, sp, w) \<Rightarrow> (down, Some err, st, sp, w)
            | (down, None, st, sp, w) \<Rightarrow> send_emergencies cfg es down st sp w))"

text \<open>
  One round of \<open>retryPending\<close> on the first pending range, \<open>evs\<close> what is left of it or none
  when it is still to be read: what is left of it after the round, or why the rounds end.
\<close>

definition retry_one ::
  "ship_config \<Rightarrow> event list \<Rightarrow> ship_state \<Rightarrow> shipper \<Rightarrow> ship_world \<Rightarrow>
     (bool + event list) \<times> ship_state \<times> shipper \<times> ship_world"
where
  "retry_one cfg evs st sp w =
     (let r = hd (sh_pending st); (got, w) = (if evs = [] then events_in w r else (Some evs, w))
      in (case got of
            None \<Rightarrow> (Inl False, st, sp, w)
          | Some evs \<Rightarrow>
              let rec = cut_batch (sc_codec cfg) evs; (_, w) = clock w
              in (case seal rec LaneNormal w of
                    (None, w) \<Rightarrow> (Inl False, st, sp, w)
                  | (Some b, w) \<Rightarrow>
                      (case put_on_chain b w of
                         (False, w) \<Rightarrow> (Inl True, st, sp, w)
                       | (True, w) \<Rightarrow>
                           let newest = ev_seq (last rec);
                               st = st\<lparr>sh_pending := (if newest < r_to r then [r\<lparr>r_from := newest + 1\<rparr>] else [])
                                        @ tl (sh_pending st)\<rparr>
                           in (Inr (drop (length rec) evs), st\<lparr>sh_chain := sh_chain st + 1\<rparr>,
                               sp\<lparr>sp_unsaved := True\<rparr>, w)))))"

lemma retry_one_counts:
  "retry_one cfg evs st sp w = (Inr evs', st', sp', w') \<Longrightarrow> sh_chain st' = sh_chain st + 1"
  by (auto simp: retry_one_def Let_def split: prod.splits option.splits bool.splits if_splits)

text \<open>
  \<open>retryPending\<close>: whether this is not the pass's first round, and since when it has been at
  it.  Every round that goes on has put a record on chain, so the day's cap bounds the rounds.
\<close>

function retry_pending ::
  "ship_config \<Rightarrow> gotime \<Rightarrow> bool \<Rightarrow> event list \<Rightarrow> ship_state \<Rightarrow> shipper \<Rightarrow> ship_world \<Rightarrow>
     bool \<times> ship_state \<times> shipper \<times> ship_world"
where
  "retry_pending cfg began tried evs st sp w =
     (if \<not> sc_chain cfg \<or> sh_pending st = [] \<or> sc_daily_cap cfg \<le> sh_chain st then (False, st, sp, w)
      else let (t, w) = (if tried then clock w else (began, w))
           in if tried \<and> ShipRetryBudget \<le> time_sub t began then (True, st, sp, w)
              else (case retry_one cfg evs st sp w of
                      (Inl down, st, sp, w) \<Rightarrow> (down, st, sp, w)
                    | (Inr evs, st, sp, w) \<Rightarrow> retry_pending cfg began True evs st sp w))"
  by pat_completeness auto
termination
  by (relation "measure (\<lambda>(cfg, began, tried, evs, st, sp, w). nat (sc_daily_cap cfg - sh_chain st))")
     (auto dest!: sym [THEN retry_one_counts])

declare retry_pending.simps [simp del]

text \<open>The event that says the day's cap is reached, appended once a day if the log takes it.\<close>

definition alarm_event :: "ship_config \<Rightarrow> gotime \<Rightarrow> event" where
  "alarm_event cfg now =
     \<lparr>ev_seq = 0, ev_ts = now, ev_kind = KindJob, ev_bead = [], ev_actor = ''events-follow@'' @ sc_host cfg,
      ev_from = JobRunning, ev_to = JobFailed,
      ev_detail = ''chain daily cap of '' @ itoa (sc_daily_cap cfg) @
        '' records reached: batches go direct as fallback and are re-sent on chain later'',
      ev_lane = LaneNormal, ev_clears = 0\<rparr>"

definition head_seq :: "ship_world \<Rightarrow> seqno" where
  "head_seq w = (if sw_log w = [] then 0 else ev_seq (last (sw_log w)))"

definition raise_alarm :: "ship_config \<Rightarrow> ship_state \<Rightarrow> gotime \<Rightarrow> ship_world \<Rightarrow> ship_state \<times> ship_world" where
  "raise_alarm cfg st now w =
     (let (ok, w) = read_log w; ev = (alarm_event cfg now)\<lparr>ev_seq := head_seq w + 1\<rparr>
      in (st\<lparr>sh_alarmed := True\<rparr>,
          if ok \<and> validate_event ev = None then w\<lparr>sw_log := sw_log w @ [ev]\<rparr> else w))"

text \<open>The state once a batch has gone.\<close>

definition after_batch :: "ship_config \<Rightarrow> bool \<Rightarrow> ship_range \<Rightarrow> ship_state \<Rightarrow> ship_state" where
  "after_batch cfg on_chain r st =
     (let st = step_over (st\<lparr>sh_shipped := r_to r\<rparr>)
      in if \<not> on_chain \<and> sc_chain cfg then keep_for_chain st r else st)"

text \<open>
  The batch of a pass, once the emergencies and the pending batches are seen to: first on chain,
  whether it got there or \<open>None\<close> when it is no batch to send; then direct, and what follows.
\<close>

definition chain_batch :: "event list \<Rightarrow> bool \<Rightarrow> ship_world \<Rightarrow> bool option \<times> ship_world" where
  "chain_batch evs may w =
     (if \<not> may then (Some False, w)
      else (case seal evs LaneNormal w of
              (None, w) \<Rightarrow> (None, w)
            | (Some b, w) \<Rightarrow> (let (on_chain, w) = put_on_chain b w in (Some on_chain, w))))"

definition direct_batch ::
  "ship_config \<Rightarrow> event list \<Rightarrow> bool \<Rightarrow> bool \<Rightarrow> gotime \<Rightarrow> ship_state \<Rightarrow> shipper \<Rightarrow> ship_world \<Rightarrow>
     ship_error option \<times> ship_state \<times> shipper \<times> ship_world"
where
  "direct_batch cfg evs over on_chain now st sp w =
     (let r = \<lparr>r_from = ev_seq (hd evs), r_to = ev_seq (last evs)\<rparr>
      in case seal evs (if on_chain then LaneNormal else LaneFallback) w of
           (None, w) \<Rightarrow> (Some SealFailed, st, sp, w)
         | (Some b, w) \<Rightarrow>
             let (direct, w) = deliver b w
             in if \<not> direct \<and> \<not> on_chain
                then (let (_, sp, w) = save_state st sp w
                      in (Some (NotDelivered (r_from r) (r_to r)), st, sp, w))
                else let st = after_batch cfg on_chain r st;
                         sp = sp\<lparr>sp_last_sent := now\<rparr>;
                         (st, w) = (if over \<and> \<not> sh_alarmed st then raise_alarm cfg st now w else (st, w));
                         (err, sp, w) = save_state st sp w
                     in (err, st, sp, w))"

definition send_batch ::
  "ship_config \<Rightarrow> event list \<Rightarrow> bool \<Rightarrow> gotime \<Rightarrow> ship_state \<Rightarrow> shipper \<Rightarrow> ship_world \<Rightarrow>
     ship_error option \<times> ship_state \<times> shipper \<times> ship_world"
where
  "send_batch cfg evs down now st sp w =
     (let over = sc_chain cfg \<and> \<not> down \<and> sc_daily_cap cfg \<le> sh_chain st
      in case chain_batch evs (sc_chain cfg \<and> \<not> down \<and> \<not> over) w of
           (None, w) \<Rightarrow> (Some SealFailed, st, sp, w)
         | (Some on_chain, w) \<Rightarrow>
             direct_batch cfg evs over on_chain now
               (if on_chain then st\<lparr>sh_chain := sh_chain st + 1\<rparr> else st) sp w)"

definition load_state :: "ship_world \<Rightarrow> ship_state" where
  "load_state w = (case sw_kept w of Some st \<Rightarrow> st | None \<Rightarrow> zero_state)"

text \<open>What a pass does once the emergencies are sent.\<close>

definition ship_rest ::
  "ship_config \<Rightarrow> event list \<Rightarrow> bool \<Rightarrow> gotime \<Rightarrow> ship_state \<Rightarrow> shipper \<Rightarrow> ship_world \<Rightarrow>
     ship_error option \<times> ship_state \<times> shipper \<times> ship_world"
where
  "ship_rest cfg unsent down now st sp w =
     (let (began, w) = (if down then (0, w) else clock w);
          (down, st, sp, w) = (if down then (True, st, sp, w) else retry_pending cfg began False [] st sp w);
          was = sh_shipped st;
          (st, evs) = unsent_batch st unsent;
          evs = cut_batch (sc_codec cfg) evs
      in if evs = [] \<or> \<not> batch_due sp (length evs) now
         then (if sh_shipped st \<noteq> was
               then (let (err, sp, w) = save_state st sp w in (err, st, sp, w))
               else (None, st, sp, w))
         else send_batch cfg evs down now st sp w)"

definition ship_loaded ::
  "ship_config \<Rightarrow> gotime \<Rightarrow> ship_state \<Rightarrow> shipper \<Rightarrow> ship_world \<Rightarrow>
     ship_error option \<times> ship_state \<times> shipper \<times> ship_world"
where
  "ship_loaded cfg now st sp w =
     (let st = roll_day st now; (ok, w) = read_log w
      in if \<not> ok then (Some ReadFailed, st, sp, w)
         else let behind = sh_shipped st < head_seq w;
                  (ok, w) = (if behind then read_log w else (True, w));
                  unsent = (if behind then log_since w (sh_shipped st) else [])
              in if \<not> ok then (Some ReadFailed, st, sp, w)
                 else (case send_emergencies cfg unsent False st sp w of
                         (down, Some err, st, sp, w) \<Rightarrow> (Some err, st, sp, w)
                       | (down, None, st, sp, w) \<Rightarrow> ship_rest cfg unsent down now st sp w))"

text \<open>The whole pass: the state is loaded once, and what a retry sent is saved at the end.\<close>

definition ship_pass :: "ship_config \<Rightarrow> gotime \<Rightarrow> shipper \<Rightarrow> ship_world \<Rightarrow> ship_error option \<times> shipper \<times> ship_world" where
  "ship_pass cfg now sp w =
     (let (ok, w) = (if sp_state sp = None then read_log w else (True, w))
      in if \<not> ok then (Some LoadFailed, sp, w)
         else let st = (case sp_state sp of Some st \<Rightarrow> st | None \<Rightarrow> load_state w)
              in (case ship_loaded cfg now st sp w of
                    (err, st, sp, w) \<Rightarrow>
                      let sp = sp\<lparr>sp_state := Some st\<rparr>
                      in if sp_unsaved sp
                         then (let (err', sp, w) = save_state st sp w
                               in (if err = None then err' else err, sp, w))
                         else (err, sp, w)))"


subsection \<open>Giving up the chain copy\<close>

datatype retire_error =
    RetireLoadFailed
  | ArchiveFailed
  | RetireSaveFailed

text \<open>The ranges a file holds, then those of \<open>rs\<close> it does not.\<close>

fun keep_new :: "ship_range list \<Rightarrow> ship_range list \<Rightarrow> ship_range list" where
  "keep_new held [] = held"
| "keep_new held (r # rs) = (if List.member held r then keep_new held rs else keep_new (held @ [r]) rs)"

fun keep_ranges :: "ship_range list \<Rightarrow> int \<Rightarrow> (int \<times> ship_range list) list \<Rightarrow> (int \<times> ship_range list) list" where
  "keep_ranges rs day [] = [(day, keep_new [] rs)]"
| "keep_ranges rs day ((d, held) # files) =
     (if d = day then (d, keep_new held rs) # files else (d, held) # keep_ranges rs day files)"

text \<open>\<open>EventShipRetire\<close>: how many ranges it moved; the archive is kept first, then the state.\<close>

definition retire :: "gotime \<Rightarrow> ship_world \<Rightarrow> retire_error option \<times> nat \<times> ship_world" where
  "retire now w =
     (let (ok, w) = read_log w; st = load_state w
      in if \<not> ok then (Some RetireLoadFailed, 0, w)
         else if sh_pending st = [] then (None, 0, w)
         else let (kept, as) = next_answer (sw_keep_ok w); w = w\<lparr>sw_keep_ok := as\<rparr>
              in if \<not> kept then (Some ArchiveFailed, 0, w)
                 else let w = w\<lparr>sw_retired := keep_ranges (sh_pending st) (utc_day now) (sw_retired w)\<rparr>;
                          moved = length (sh_pending st);
                          st = st\<lparr>sh_retired := sh_retired st + int moved, sh_pending := [],
                                   sh_joinable := False\<rparr>;
                          (saved, as) = next_answer (sw_keep_ok w); w = w\<lparr>sw_keep_ok := as\<rparr>
                      in if saved then (None, moved, w\<lparr>sw_kept := Some st\<rparr>)
                         else (Some RetireSaveFailed, moved, w))"

end
