(* ===== verification/EventTrim.thy ===== *)
theory EventTrim
  imports EventShip
begin

text \<open>
  \<^verbatim>\<open>application/eventtrim.go\<close>: how far the event log may be cut.  An event goes to the
  archive once every reader is past it: the seats' cursors, the shipper, and the pending
  batches, which are read again from the log; and the newest events always stay.
\<close>

definition DefaultEventKeep :: seqno where "DefaultEventKeep = 5000"

text \<open>The newest seq that may go; \<open>None\<close> when the log is too short to cut.\<close>

definition trim_up_to :: "seqno \<Rightarrow> seqno \<Rightarrow> seqno list \<Rightarrow> ship_state \<Rightarrow> seqno option" where
  "trim_up_to keep head cursors st =
     (let keep = (if keep = 0 then DefaultEventKeep else keep)
      in if head \<le> keep then None
         else let up_to = foldl min (head - keep) cursors;
                  up_to = min up_to (sh_shipped st)
              in Some (foldl (\<lambda>u r. if 0 < r_from r then min u (r_from r - 1) else u) up_to (sh_pending st)))"

definition event_trim :: "seqno \<Rightarrow> seqno list \<Rightarrow> ship_world \<Rightarrow> ship_world" where
  "event_trim keep cursors w =
     (case trim_up_to keep (head_seq w) cursors (load_state w) of
        None \<Rightarrow> w
      | Some up_to \<Rightarrow> w\<lparr>sw_log := dropWhile (\<lambda>e. ev_seq e \<le> up_to) (sw_log w)\<rparr>)"

lemma le_foldl_min: "(n::'a::linorder) \<le> foldl min u xs \<longleftrightarrow> n \<le> u \<and> (\<forall>x \<in> set xs. n \<le> x)"
  by (induction xs arbitrary: u) auto

text \<open>What a cut promises the readers.\<close>

lemma foldl_min_from:
  "u \<le> foldl (\<lambda>u r. if 0 < r_from r then min u (r_from r - 1) else u) v rs \<longleftrightarrow>
     u \<le> v \<and> (\<forall>r \<in> set rs. 0 < r_from r \<longrightarrow> u \<le> r_from r - 1)"
  by (induction rs arbitrary: v) auto

lemma trim_up_to_le:
  assumes "trim_up_to keep head cursors st = Some u"
  shows "u \<le> head - (if keep = 0 then DefaultEventKeep else keep)" and "u < head"
    and "\<forall>c \<in> set cursors. u \<le> c" and "u \<le> sh_shipped st"
    and "\<forall>r \<in> set (sh_pending st). 0 < r_from r \<longrightarrow> u \<le> r_from r - 1"
proof -
  let ?k = "if keep = 0 then DefaultEventKeep else keep"
  have k: "?k < head" using assms by (auto simp: trim_up_to_def Let_def not_le split: if_splits)
  have "u = foldl (\<lambda>u r. if 0 < r_from r then min u (r_from r - 1) else u)
      (min (foldl min (head - ?k) cursors) (sh_shipped st)) (sh_pending st)"
    using assms k by (simp add: trim_up_to_def Let_def not_le [symmetric] split: if_splits)
  then have "u \<le> foldl (\<lambda>u r. if 0 < r_from r then min u (r_from r - 1) else u)
      (min (foldl min (head - ?k) cursors) (sh_shipped st)) (sh_pending st)" by (rule eq_refl)
  then have all: "u \<le> head - ?k \<and> (\<forall>c \<in> set cursors. u \<le> c) \<and> u \<le> sh_shipped st \<and>
      (\<forall>r \<in> set (sh_pending st). 0 < r_from r \<longrightarrow> u \<le> r_from r - 1)"
    unfolding foldl_min_from by (simp add: le_foldl_min)
  then show "u \<le> head - ?k" "\<forall>c \<in> set cursors. u \<le> c" "u \<le> sh_shipped st"
    "\<forall>r \<in> set (sh_pending st). 0 < r_from r \<longrightarrow> u \<le> r_from r - 1" by blast+
  have "head - ?k < head"
  proof -
    have "0 < unat ?k" by (simp add: unat_gt_0 DefaultEventKeep_def)
    moreover have "unat ?k < unat head" using k by (simp add: word_less_nat_alt)
    moreover have "unat (head - ?k) = unat head - unat ?k" using k by (intro unat_sub) simp
    ultimately show ?thesis by (simp add: word_less_nat_alt)
  qed
  with all show "u < head" by (blast intro: le_less_trans)
qed

end
