(* ===== verification/ShipRun.thy ===== *)
theory ShipRun
  imports EventTrim
begin

text \<open>
  The shipper over its life: passes whose calls fail in any way, restarts, retires, trims of the
  log and events appended by others, in any order.  The invariant is that everything the state
  counts as sent has been sent, that what has not reached the chain is still pending or was
  given up, and that no trim takes an event the shipper still needs.
\<close>

subsection \<open>What is sent\<close>

text \<open>A batch carries an event, its lane the batch's.\<close>

definition carries_event :: "batch \<Rightarrow> event \<Rightarrow> bool" where
  "carries_event b e \<longleftrightarrow> e\<lparr>ev_lane := b_lane b\<rparr> \<in> set (b_events b)"

definition sent_in :: "batch list \<Rightarrow> event \<Rightarrow> bool" where
  "sent_in bs e \<longleftrightarrow> (\<exists>b \<in> set bs. carries_event b e)"

text \<open>The state counts a seq as sent; it may still go on chain; a trim may take it.\<close>

definition handed :: "ship_state \<Rightarrow> seqno \<Rightarrow> bool" where
  "handed st n \<longleftrightarrow> n \<le> sh_shipped st \<or> n \<in> set (sh_urgent st)"

definition in_ranges :: "ship_range list \<Rightarrow> seqno \<Rightarrow> bool" where
  "in_ranges rs n \<longleftrightarrow> (\<exists>r \<in> set rs. r_from r \<le> n \<and> n \<le> r_to r)"

definition free_upto :: "ship_state \<Rightarrow> seqno \<Rightarrow> bool" where
  "free_upto st n \<longleftrightarrow> n \<le> sh_shipped st \<and> (\<forall>r \<in> set (sh_pending st). n < r_from r)"

definition ranges_in :: "(int \<times> ship_range list) list \<Rightarrow> ship_range list" where
  "ranges_in files = concat (map snd files)"

definition retired_ranges :: "ship_world \<Rightarrow> ship_range list" where
  "retired_ranges w = ranges_in (sw_retired w)"

text \<open>The seqs an event log has given out, and a log in order.\<close>

definition in_order :: "event list \<Rightarrow> bool" where
  "in_order es \<longleftrightarrow> sorted_wrt (\<lambda>a b. ev_seq a < ev_seq b) es \<and> (\<forall>e \<in> set es. 0 < ev_seq e)"

text \<open>
  What holds of a state, in memory or kept, when \<open>ever\<close> are all the events the log ever held:
  the events it counts as sent are sent, those not on chain are pending or given up, it counts
  nothing the log has not given out, and no emergency is behind one sent before it.  Of the
  state in memory, a trim may take what the state kept lets it.
\<close>

definition state_ok :: "ship_config \<Rightarrow> event list \<Rightarrow> ship_world \<Rightarrow> ship_state \<Rightarrow> bool" where
  "state_ok cfg ever w st \<longleftrightarrow>
     (\<forall>e \<in> set ever. handed st (ev_seq e) \<longrightarrow> sent_in (sw_on_chain w @ sw_direct w) e) \<and>
     (sc_chain cfg \<longrightarrow>
        (\<forall>e \<in> set ever. handed st (ev_seq e) \<and> ev_lane e \<noteq> LaneEmergency \<longrightarrow>
           sent_in (sw_on_chain w) e \<or> in_ranges (sh_pending st) (ev_seq e) \<or>
           in_ranges (retired_ranges w) (ev_seq e))) \<and>
     (\<forall>n. 0 < n \<and> handed st n \<longrightarrow> (\<exists>e \<in> set ever. n \<le> ev_seq e)) \<and>
     0 \<notin> set (sh_urgent st) \<and>
     (\<forall>u \<in> set (sh_urgent st). \<forall>e \<in> set ever.
        ev_lane e = LaneEmergency \<and> ev_seq e < u \<longrightarrow> handed st (ev_seq e)) \<and>
     (\<forall>r \<in> set (sh_pending st). 0 < r_from r \<and> r_from r \<le> r_to r)"

definition ship_inv :: "ship_config \<Rightarrow> event list \<Rightarrow> seqno \<Rightarrow> ship_state \<Rightarrow> ship_world \<Rightarrow> bool" where
  "ship_inv cfg ever gone st w \<longleftrightarrow>
     in_order ever \<and> sw_log w = filter (\<lambda>e. gone < ev_seq e) ever \<and> (ever = [] \<or> gone < ev_seq (last ever)) \<and>
     state_ok cfg ever w st \<and> free_upto st gone \<and>
     state_ok cfg ever w (load_state w) \<and> free_upto (load_state w) gone \<and>
     (\<forall>n. free_upto (load_state w) n \<longrightarrow> free_upto st n)"

lemmas sent_defs = sent_in_def carries_event_def

lemma sent_in_append [simp]: "sent_in (xs @ ys) e \<longleftrightarrow> sent_in xs e \<or> sent_in ys e"
  by (auto simp: sent_in_def)

lemma sent_in_Nil [simp]: "\<not> sent_in [] e"
  by (simp add: sent_in_def)

lemma in_ranges_append [simp]: "in_ranges (xs @ ys) n \<longleftrightarrow> in_ranges xs n \<or> in_ranges ys n"
  by (auto simp: in_ranges_def)

lemma in_ranges_Nil [simp]: "\<not> in_ranges [] n"
  by (simp add: in_ranges_def)

lemma in_ranges_Cons: "in_ranges (r # rs) n \<longleftrightarrow> r_from r \<le> n \<and> n \<le> r_to r \<or> in_ranges rs n"
  by (auto simp: in_ranges_def)

subsection \<open>Lists in order\<close>

lemma in_order_append:
  "in_order (xs @ ys) \<longleftrightarrow> in_order xs \<and> in_order ys \<and> (\<forall>x \<in> set xs. \<forall>y \<in> set ys. ev_seq x < ev_seq y)"
  by (auto simp: in_order_def sorted_wrt_append)

lemma in_order_Cons:
  "in_order (x # xs) \<longleftrightarrow> 0 < ev_seq x \<and> in_order xs \<and> (\<forall>y \<in> set xs. ev_seq x < ev_seq y)"
  by (auto simp: in_order_def)

lemma in_order_filter: "in_order es \<Longrightarrow> in_order (filter P es)"
  by (auto simp: in_order_def sorted_wrt_filter)

text \<open>The head of what is left of a list in order, and the last of it, bound the rest.\<close>

lemma in_order_hd_le: "in_order es \<Longrightarrow> e \<in> set es \<Longrightarrow> ev_seq (hd es) \<le> ev_seq e"
  by (cases es) (auto simp: in_order_Cons)

lemma in_order_le_last: "in_order es \<Longrightarrow> e \<in> set es \<Longrightarrow> ev_seq e \<le> ev_seq (last es)"
proof (induction es)
  case (Cons x es)
  show ?case
  proof (cases "es = []")
    case False
    then have "ev_seq x \<le> ev_seq (last es)"
      using Cons.prems by (auto simp: in_order_Cons intro: order.strict_implies_order)
    with Cons False show ?thesis by (cases "e = x") (auto simp: in_order_Cons)
  qed (use Cons.prems in auto)
qed simp

lemma in_order_prefix_upto:
  assumes "in_order (xs @ ys)" "xs \<noteq> []" "e \<in> set (xs @ ys)" "ev_seq e \<le> ev_seq (last xs)"
  shows "e \<in> set xs"
proof (rule ccontr)
  assume "e \<notin> set xs"
  with assms have "ev_seq (last xs) < ev_seq e" by (auto simp: in_order_append)
  with assms(4) show False by simp
qed

lemma dropWhile_in_order:
  "in_order es \<Longrightarrow> dropWhile (\<lambda>e. ev_seq e \<le> n) es = filter (\<lambda>e. n < ev_seq e) es"
proof (induction es)
  case (Cons x es)
  then show ?case
    by (cases "ev_seq x \<le> n") (auto simp: in_order_Cons not_le intro!: filter_True [symmetric])
qed simp

subsection \<open>Small steps of the state\<close>

lemma word_le_succ:
  fixes n s :: seqno
  assumes "s + 1 \<noteq> 0"
  shows "n \<le> s + 1 \<longleftrightarrow> n \<le> s \<or> n = s + 1" and "s \<le> s + 1"
proof -
  have "unat (s + 1) = Suc (unat s)" using assms unatSuc [of s] by (simp add: add.commute)
  then show "n \<le> s + 1 \<longleftrightarrow> n \<le> s \<or> n = s + 1" "s \<le> s + 1"
    by (auto simp: word_le_nat_alt word_unat_eq_iff)
qed

lemma set_remove1_other: "x \<noteq> y \<Longrightarrow> x \<in> set (remove1 y xs) \<longleftrightarrow> x \<in> set xs"
  by (induction xs) auto

lemma step_past_spec:
  assumes "0 \<notin> set urgent" "step_past shipped urgent = (shipped', urgent')"
  shows "(\<forall>n. (n \<le> shipped' \<or> n \<in> set urgent') = (n \<le> shipped \<or> n \<in> set urgent)) \<and>
    shipped \<le> shipped' \<and> set urgent' \<subseteq> set urgent"
  using assms
proof (induction shipped urgent rule: step_past.induct)
  case (1 shipped urgent)
  show ?case
  proof (cases "List.member urgent (shipped + 1)")
    case True
    then have mem: "shipped + 1 \<in> set urgent" by simp
    with "1.prems" have nz: "shipped + 1 \<noteq> 0" by auto
    have rec: "step_past (shipped + 1) (remove1 (shipped + 1) urgent) = (shipped', urgent')"
      using "1.prems" True by (simp add: step_past.simps [of shipped urgent])
    have sub: "set (remove1 (shipped + 1) urgent) \<subseteq> set urgent" by (rule set_remove1_subset)
    then have "0 \<notin> set (remove1 (shipped + 1) urgent)" using "1.prems" by auto
    note ih = "1.IH" [OF True this rec]
    have "n \<in> set (remove1 (shipped + 1) urgent) \<or> n = shipped + 1 \<longleftrightarrow> n \<in> set urgent" for n
      using mem by (cases "n = shipped + 1") (auto simp: set_remove1_other)
    with ih sub word_le_succ [OF nz] show ?thesis by (meson order_trans subset_trans)
  next
    case False
    then show ?thesis using "1.prems" by (auto simp: step_past.simps [of shipped urgent])
  qed
qed

lemma step_over_spec:
  assumes "0 \<notin> set (sh_urgent st)"
  shows "handed (step_over st) n = handed st n" and "sh_shipped st \<le> sh_shipped (step_over st)"
    and "sh_pending (step_over st) = sh_pending st" and "0 \<notin> set (sh_urgent (step_over st))"
    and "set (sh_urgent (step_over st)) \<subseteq> set (sh_urgent st)"
proof -
  obtain s u where su: "step_past (sh_shipped st) (sh_urgent st) = (s, u)" by force
  note spec = step_past_spec [OF assms su]
  have st: "step_over st = st\<lparr>sh_shipped := s, sh_urgent := filter (\<lambda>n. \<not> n \<le> s) u\<rparr>"
    by (simp add: step_over_def su)
  show "handed (step_over st) n = handed st n"
    using spec by (auto simp: handed_def st)
  show "sh_shipped st \<le> sh_shipped (step_over st)" "sh_pending (step_over st) = sh_pending st"
    "0 \<notin> set (sh_urgent (step_over st))" "set (sh_urgent (step_over st)) \<subseteq> set (sh_urgent st)"
    using spec assms by (auto simp: st)
qed

lemma roll_day_keeps [simp]:
  "sh_shipped (roll_day st now) = sh_shipped st" "sh_pending (roll_day st now) = sh_pending st"
  "sh_urgent (roll_day st now) = sh_urgent st"
  by (simp_all add: roll_day_def Let_def)

text \<open>Keeping a range for the chain covers it and all that was pending, and begins nothing earlier.\<close>

lemma keep_for_chain_pending:
  "sh_pending (keep_for_chain st r) =
     (if sh_joinable st \<and> sh_pending st \<noteq> [] \<and> r_to (last (sh_pending st)) + 1 = r_from r
      then butlast (sh_pending st) @ [(last (sh_pending st))\<lparr>r_to := r_to r\<rparr>]
      else sh_pending st @ [r])"
  by (simp add: keep_for_chain_def)

lemma keep_for_chain_keeps [simp]:
  "sh_shipped (keep_for_chain st r) = sh_shipped st" "sh_urgent (keep_for_chain st r) = sh_urgent st"
  by (simp_all add: keep_for_chain_def)

lemma keep_for_chain_covers:
  assumes r: "0 < r_from r" "r_from r \<le> r_to r" and "in_ranges (sh_pending st @ [r]) n"
    "\<forall>q \<in> set (sh_pending st). r_from q \<le> r_to q"
  shows "in_ranges (sh_pending (keep_for_chain st r)) n"
proof (cases "sh_joinable st \<and> sh_pending st \<noteq> [] \<and> r_to (last (sh_pending st)) + 1 = r_from r")
  case True
  let ?l = "last (sh_pending st)"
  have p: "sh_pending st = butlast (sh_pending st) @ [?l]" using True by simp
  have "r_to ?l + 1 \<noteq> 0" using True r by auto
  note next_one = word_le_succ [OF this]
  have "r_to ?l + 1 \<le> r_to r" using True r by simp
  moreover have "r_from ?l \<le> r_to ?l" using assms(4) p last_in_set True by blast
  ultimately have "n \<le> r_to r" "r_from ?l \<le> n"
    if "r_from ?l \<le> n \<and> n \<le> r_to ?l \<or> r_from r \<le> n \<and> n \<le> r_to r"
    using that True next_one by (auto intro: order_trans)
  moreover have "in_ranges (butlast (sh_pending st)) n \<or>
      r_from ?l \<le> n \<and> n \<le> r_to ?l \<or> r_from r \<le> n \<and> n \<le> r_to r"
    using assms(3) by (subst (asm) p) (simp add: in_ranges_Cons del: append_butlast_last_id)
  ultimately show ?thesis using True by (auto simp: keep_for_chain_pending in_ranges_Cons)
qed (use assms(3) in \<open>auto simp: keep_for_chain_pending\<close>)


subsection \<open>Steps of the world\<close>

text \<open>More may be sent; the log, the state kept and what was given up stay.\<close>

definition grows :: "ship_world \<Rightarrow> ship_world \<Rightarrow> bool" where
  "grows w w' \<longleftrightarrow>
     sw_log w' = sw_log w \<and> sw_kept w' = sw_kept w \<and> sw_retired w' = sw_retired w \<and>
     (\<forall>e. sent_in (sw_on_chain w) e \<longrightarrow> sent_in (sw_on_chain w') e) \<and>
     (\<forall>e. sent_in (sw_direct w) e \<longrightarrow> sent_in (sw_direct w') e)"

lemma grows_refl [simp]: "grows w w"
  by (simp add: grows_def)

lemma grows_trans: "grows w v \<Longrightarrow> grows v u \<Longrightarrow> grows w u"
  by (simp add: grows_def)

lemma grows_reads:
  assumes "grows w w'"
  shows "load_state w' = load_state w" "retired_ranges w' = retired_ranges w" "head_seq w' = head_seq w"
    "sw_log w' = sw_log w"
  using assms by (simp_all add: grows_def load_state_def retired_ranges_def head_seq_def)

lemma read_log_grows: "read_log w = (a, w') \<Longrightarrow> grows w w'"
  by (auto simp: read_log_def grows_def split: prod.splits)

lemma clock_grows: "clock w = (t, w') \<Longrightarrow> grows w w'"
  by (auto simp: clock_def grows_def split: list.splits)

lemma put_on_chain_grows:
  "put_on_chain b w = (a, w') \<Longrightarrow> grows w w' \<and> (a \<longrightarrow> (\<forall>e. carries_event b e \<longrightarrow> sent_in (sw_on_chain w') e))"
  by (auto simp: put_on_chain_def grows_def sent_in_def split: prod.splits)

lemma deliver_grows:
  "deliver b w = (a, w') \<Longrightarrow> grows w w' \<and> (a \<longrightarrow> (\<forall>e. carries_event b e \<longrightarrow> sent_in (sw_direct w') e))"
  by (auto simp: deliver_def grows_def sent_in_def split: prod.splits)

lemma seal_grows:
  assumes "seal evs lane w = (b, w')"
  shows "grows w w'" and "b = Some s \<Longrightarrow> e \<in> set evs \<Longrightarrow> carries_event s e"
  using assms
  by (auto simp: seal_def grows_def carries_event_def Let_def split: option.splits prod.splits if_splits)

lemma state_ok_given:
  "state_ok cfg ever w st \<Longrightarrow> 0 < n \<Longrightarrow> handed st n \<Longrightarrow> \<exists>e \<in> set ever. n \<le> ev_seq e"
  by (simp add: state_ok_def)

lemma in_ranges_mono: "in_ranges rs n \<Longrightarrow> set rs \<subseteq> set rs' \<Longrightarrow> in_ranges rs' n"
  by (auto simp: in_ranges_def)

lemma state_ok_mono:
  assumes "state_ok cfg ever w st"
    and "\<And>e. sent_in (sw_on_chain w) e \<Longrightarrow> sent_in (sw_on_chain w') e"
    and "\<And>e. sent_in (sw_direct w) e \<Longrightarrow> sent_in (sw_direct w') e"
    and "set (retired_ranges w) \<subseteq> set (retired_ranges w')"
  shows "state_ok cfg ever w' st"
  using assms(1,2,3) in_ranges_mono [OF _ assms(4)] unfolding state_ok_def by auto

lemma state_ok_grows:
  assumes "state_ok cfg ever w st" "grows w w'"
  shows "state_ok cfg ever w' st"
  using assms(1) by (rule state_ok_mono) (use assms(2) in \<open>auto simp: grows_def retired_ranges_def\<close>)

lemma ship_inv_grows:
  assumes "ship_inv cfg ever gone st w" "grows w w'"
  shows "ship_inv cfg ever gone st w'"
  using assms state_ok_grows [of cfg ever w _ w']
  by (simp add: ship_inv_def grows_reads)

text \<open>A step of the state: what it now claims to be sent is, and nothing pending is forgotten.\<close>

lemma ship_inv_step:
  assumes inv: "ship_inv cfg ever gone st w"
    and handed: "\<And>e. e \<in> set ever \<Longrightarrow> handed st' (ev_seq e) \<Longrightarrow> \<not> handed st (ev_seq e) \<Longrightarrow>
      sent_in (sw_on_chain w @ sw_direct w) e \<and>
      (sc_chain cfg \<longrightarrow> ev_lane e \<noteq> LaneEmergency \<longrightarrow>
         sent_in (sw_on_chain w) e \<or> in_ranges (sh_pending st') (ev_seq e))"
    and pending: "\<And>e. e \<in> set ever \<Longrightarrow> in_ranges (sh_pending st) (ev_seq e) \<Longrightarrow>
      in_ranges (sh_pending st') (ev_seq e) \<or> sent_in (sw_on_chain w) e"
    and given: "\<And>n. 0 < n \<Longrightarrow> handed st' n \<Longrightarrow> handed st n \<or> (\<exists>e \<in> set ever. n \<le> ev_seq e)"
    and urgent: "0 \<notin> set (sh_urgent st')"
    and order: "\<And>u e. u \<in> set (sh_urgent st') \<Longrightarrow> u \<notin> set (sh_urgent st) \<Longrightarrow> e \<in> set ever \<Longrightarrow>
      ev_lane e = LaneEmergency \<Longrightarrow> ev_seq e < u \<Longrightarrow> handed st' (ev_seq e)"
    and still: "\<And>n. handed st n \<Longrightarrow> handed st' n"
    and ranges: "\<And>r. r \<in> set (sh_pending st') \<Longrightarrow> 0 < r_from r \<and> r_from r \<le> r_to r"
    and free: "\<And>n. free_upto st n \<Longrightarrow> free_upto st' n"
  shows "ship_inv cfg ever gone st' w"
proof -
  have okay: "state_ok cfg ever w st" using inv by (simp add: ship_inv_def)
  have "state_ok cfg ever w st'"
    unfolding state_ok_def
  proof (intro conjI impI ballI allI)
    fix e assume "e \<in> set ever" "handed st' (ev_seq e)"
    then show "sent_in (sw_on_chain w @ sw_direct w) e"
      using handed okay unfolding state_ok_def by blast
  next
    fix e assume "sc_chain cfg" "e \<in> set ever" "handed st' (ev_seq e) \<and> ev_lane e \<noteq> LaneEmergency"
    then show "sent_in (sw_on_chain w) e \<or> in_ranges (sh_pending st') (ev_seq e) \<or>
        in_ranges (retired_ranges w) (ev_seq e)"
      using handed [of e] pending [of e] okay unfolding state_ok_def by blast
  next
    fix n assume "0 < n \<and> handed st' n"
    then show "\<exists>e \<in> set ever. n \<le> ev_seq e" using given okay unfolding state_ok_def by blast
  next
    fix u e assume "u \<in> set (sh_urgent st')" "e \<in> set ever" "ev_lane e = LaneEmergency \<and> ev_seq e < u"
    then show "handed st' (ev_seq e)" using order still okay unfolding state_ok_def by blast
  qed (use urgent ranges in auto)
  with inv free show ?thesis by (simp add: ship_inv_def)
qed

text \<open>A step that claims nothing new and keeps the pending ranges.\<close>

lemma ship_inv_same:
  assumes "ship_inv cfg ever gone st w" "\<And>n. handed st' n = handed st n"
    "sh_pending st' = sh_pending st" "sh_shipped st \<le> sh_shipped st'"
    "set (sh_urgent st') \<subseteq> set (sh_urgent st)"
  shows "ship_inv cfg ever gone st' w"
  using assms(1)
  by (rule ship_inv_step)
     (use assms in \<open>auto simp: ship_inv_def state_ok_def free_upto_def intro: order_trans\<close>)

lemma ship_inv_urgent: "ship_inv cfg ever gone st w \<Longrightarrow> 0 \<notin> set (sh_urgent st)"
  by (simp add: ship_inv_def state_ok_def)

lemma ship_inv_step_over:
  assumes "ship_inv cfg ever gone st w"
  shows "ship_inv cfg ever gone (step_over st) w"
  using step_over_spec [OF ship_inv_urgent [OF assms]] by (intro ship_inv_same [OF assms]) auto

lemma ship_inv_roll_day:
  "ship_inv cfg ever gone st w \<Longrightarrow> ship_inv cfg ever gone (roll_day st now) w"
  by (rule ship_inv_same) (auto simp: handed_def dest: ship_inv_urgent)

lemma ship_inv_counts:
  assumes "ship_inv cfg ever gone st w" "sh_shipped st' = sh_shipped st"
    "sh_urgent st' = sh_urgent st" "sh_pending st' = sh_pending st"
  shows "ship_inv cfg ever gone st' w"
  using assms by (intro ship_inv_same [OF assms(1)]) (auto simp: handed_def dest: ship_inv_urgent)

lemma save_state_inv:
  assumes "ship_inv cfg ever gone st w" "save_state st sp w = (err, sp', w')"
  shows "ship_inv cfg ever gone st w'"
proof -
  have "ship_inv cfg ever gone st (w\<lparr>sw_keep_ok := a\<rparr>)"
    and "ship_inv cfg ever gone st (w\<lparr>sw_keep_ok := a, sw_kept := Some st\<rparr>)" for a
    using assms(1) by (auto simp: ship_inv_def state_ok_def load_state_def retired_ranges_def)
  with assms(2) show ?thesis
    by (auto simp: save_state_def Let_def split: prod.splits if_splits)
qed

lemma save_state_log: "save_state st sp w = (err, sp', w') \<Longrightarrow> sw_log w' = sw_log w"
  by (auto simp: save_state_def Let_def split: prod.splits if_splits)

subsection \<open>Emergencies\<close>

lemma in_order_inj:
  assumes "in_order es" "a \<in> set es" "b \<in> set es" "ev_seq a = ev_seq b"
  shows "a = b"
  using assms
proof (induction es)
  case (Cons x es)
  then show ?case by (cases "a = x"; cases "b = x") (auto simp: in_order_Cons)
qed simp

lemma ship_inv_in_order: "ship_inv cfg ever gone st w \<Longrightarrow> in_order ever"
  by (simp add: ship_inv_def)

lemma ship_inv_pos: "ship_inv cfg ever gone st w \<Longrightarrow> e \<in> set ever \<Longrightarrow> 0 < ev_seq e"
  by (simp add: ship_inv_def in_order_def)

lemma mark_emergency_spec:
  assumes "0 \<notin> set (sh_urgent st)" "0 < ev_seq e"
  shows "handed (mark_emergency e st) n \<longleftrightarrow> handed st n \<or> n = ev_seq e"
    and "sh_shipped st \<le> sh_shipped (mark_emergency e st)"
    and "sh_pending (mark_emergency e st) = sh_pending st"
    and "0 \<notin> set (sh_urgent (mark_emergency e st))"
    and "set (sh_urgent (mark_emergency e st)) \<subseteq> insert (ev_seq e) (set (sh_urgent st))"
proof -
  let ?st = "st\<lparr>sh_emergency := sh_emergency st + 1, sh_shipped := ev_seq e\<rparr>"
  have u: "0 \<notin> set (sh_urgent ?st)" using assms by simp
  note over = step_over_spec [OF u]
  have "handed (mark_emergency e st) n \<longleftrightarrow> handed st n \<or> n = ev_seq e" (is ?h)
    and "sh_shipped st \<le> sh_shipped (mark_emergency e st)" (is ?s)
    and "sh_pending (mark_emergency e st) = sh_pending st" (is ?p)
    and "0 \<notin> set (sh_urgent (mark_emergency e st))" (is ?u)
    and "set (sh_urgent (mark_emergency e st)) \<subseteq> insert (ev_seq e) (set (sh_urgent st))" (is ?i)
    if "ev_seq e = sh_shipped st + 1"
  proof -
    have m: "mark_emergency e st = step_over ?st" using that by (simp add: mark_emergency_def)
    have "sh_shipped st + 1 \<noteq> 0" using that assms(2) by auto
    note succ = word_le_succ [OF this]
    show ?h using succ that over(1) [of n] by (auto simp: m handed_def)
    show ?s using over(2) succ(2) that by (auto simp: m intro: order_trans)
    show ?p ?u using over by (simp_all add: m)
    show ?i using over(5) by (auto simp: m)
  qed
  moreover have ?h ?s ?p ?u ?i if "ev_seq e \<noteq> sh_shipped st + 1"
    using that assms by (auto simp: mark_emergency_def handed_def)
  ultimately show ?h ?s ?p ?u ?i by blast+
qed

text \<open>The state once an emergency has gone, kept for the chain or not.\<close>

definition emergency_gone :: "event \<Rightarrow> ship_state \<Rightarrow> ship_state \<Rightarrow> bool" where
  "emergency_gone e st st' \<longleftrightarrow>
     sh_shipped st' = sh_shipped (mark_emergency e st) \<and> sh_urgent st' = sh_urgent (mark_emergency e st) \<and>
     (sh_pending st' = sh_pending st \<or> sh_pending st' = sh_pending st @ [\<lparr>r_from = ev_seq e, r_to = ev_seq e\<rparr>])"

lemma emergency_gone_inv:
  assumes inv: "ship_inv cfg ever gone st w" and e: "e \<in> set ever" "ev_lane e = LaneEmergency"
    and ahead: "sh_shipped st < ev_seq e"
    and behind: "\<And>d. d \<in> set ever \<Longrightarrow> ev_lane d = LaneEmergency \<Longrightarrow> ev_seq d < ev_seq e \<Longrightarrow> handed st (ev_seq d)"
    and sent: "sent_in (sw_on_chain w @ sw_direct w) e"
    and st': "emergency_gone e st st'"
  shows "ship_inv cfg ever gone st' w"
proof (rule ship_inv_step [OF inv])
  note spec = mark_emergency_spec [OF ship_inv_urgent [OF inv] ship_inv_pos [OF inv e(1)]]
  have handed': "handed st' n \<longleftrightarrow> handed st n \<or> n = ev_seq e" for n
    using spec(1) [of n] st' by (simp add: handed_def emergency_gone_def)
  {
    fix e' assume "e' \<in> set ever" "handed st' (ev_seq e')" "\<not> handed st (ev_seq e')"
    then have "e' = e" using handed' in_order_inj [OF ship_inv_in_order [OF inv]] e by blast
    with e sent show "sent_in (sw_on_chain w @ sw_direct w) e' \<and>
        (sc_chain cfg \<longrightarrow> ev_lane e' \<noteq> LaneEmergency \<longrightarrow>
           sent_in (sw_on_chain w) e' \<or> in_ranges (sh_pending st') (ev_seq e'))"
      by simp
  next
    fix u d assume "u \<in> set (sh_urgent st')" "u \<notin> set (sh_urgent st)" "d \<in> set ever"
      "ev_lane d = LaneEmergency" "ev_seq d < u"
    moreover from this have "u = ev_seq e" using spec(5) st' by (auto simp: emergency_gone_def)
    ultimately show "handed st' (ev_seq d)" using behind handed' by blast
  next
    fix n assume "free_upto st n"
    then show "free_upto st' n"
      using ahead spec(2) st' by (auto simp: free_upto_def emergency_gone_def intro: order_trans le_less_trans)
  next
    fix r assume "r \<in> set (sh_pending st')"
    then show "0 < r_from r \<and> r_from r \<le> r_to r"
      using inv ship_inv_pos [OF inv e(1)] st' by (auto simp: ship_inv_def state_ok_def emergency_gone_def)
  next
    fix e' :: event assume "in_ranges (sh_pending st) (ev_seq e')"
    then show "in_ranges (sh_pending st') (ev_seq e') \<or> sent_in (sw_on_chain w) e'"
      using st' by (auto simp: emergency_gone_def)
  next
    show "0 \<notin> set (sh_urgent st')" using spec(4) st' by (simp add: emergency_gone_def)
  }
qed (use e mark_emergency_spec(1) [OF ship_inv_urgent [OF inv] ship_inv_pos [OF inv e(1)]] st' in
  \<open>auto simp: handed_def emergency_gone_def\<close>)

text \<open>An emergency marked in its turn moves the front no further than itself.\<close>

lemma mark_emergency_front:
  assumes inv: "ship_inv cfg ever gone st w" and e: "e \<in> set ever" "ev_lane e = LaneEmergency"
    and ahead: "sh_shipped st < ev_seq e" "ev_seq e \<notin> set (sh_urgent st)"
  shows "sh_shipped (mark_emergency e st) \<le> ev_seq e"
proof -
  note spec = mark_emergency_spec [OF ship_inv_urgent [OF inv] ship_inv_pos [OF inv e(1)]]
  let ?s = "sh_shipped (mark_emergency e st)"
  have "u \<le> ev_seq e" if "u \<in> set (sh_urgent st)" for u
  proof (rule ccontr)
    assume "\<not> u \<le> ev_seq e"
    then have "handed st (ev_seq e)" using inv e that by (auto simp: ship_inv_def state_ok_def not_le)
    with ahead show False by (auto simp: handed_def)
  qed
  moreover have "handed (mark_emergency e st) ?s" by (simp add: handed_def)
  then have "handed st ?s \<or> ?s = ev_seq e" unfolding spec(1) .
  ultimately show ?thesis using ahead by (auto simp: handed_def)
qed

lemma try_chain_grows:
  "try_chain may b w = (a, w') \<Longrightarrow> grows w w' \<and> (a \<longrightarrow> (\<forall>e. carries_event b e \<longrightarrow> sent_in (sw_on_chain w') e))"
  by (auto simp: try_chain_def put_on_chain_grows split: if_splits)

lemma send_emergency_inv:
  assumes inv: "ship_inv cfg ever gone st w" and e: "e \<in> set ever" "ev_lane e = LaneEmergency"
    and ahead: "sh_shipped st < ev_seq e"
    and behind: "\<And>d. d \<in> set ever \<Longrightarrow> ev_lane d = LaneEmergency \<Longrightarrow> ev_seq d < ev_seq e \<Longrightarrow> handed st (ev_seq d)"
    and run: "send_emergency cfg e down st sp w = (down', err, st', sp', w')"
  shows "ship_inv cfg ever gone st' w' \<and> (st' = st \<and> err \<noteq> None \<or> emergency_gone e st st')"
proof -
  obtain sealed w1 where seal: "seal [e] LaneEmergency w = (sealed, w1)" by force
  note inv1 = ship_inv_grows [OF inv seal_grows(1) [OF seal]]
  show ?thesis
  proof (cases sealed)
    case None
    with run seal inv1 show ?thesis by (auto simp: send_emergency_def)
  next
    case (Some b)
    define tries where "tries = (sc_chain cfg \<and> \<not> down \<and> \<not> sc_emergency_cap cfg \<le> sh_emergency st)"
    obtain c w2 where chain: "try_chain tries b w1 = (c, w2)" by force
    obtain d w3 where direct: "deliver b w2 = (d, w3)" by force
    note grown = try_chain_grows [OF chain] deliver_grows [OF direct]
    have inv3: "ship_inv cfg ever gone st w3" using inv1 grown ship_inv_grows by blast
    have carried: "carries_event b e" using seal_grows(2) [OF seal Some] by simp
    show ?thesis
    proof (cases "c \<or> d")
      case False
      then show ?thesis using run seal Some chain direct save_state_inv [OF inv3]
        by (auto simp: send_emergency_def Let_def tries_def split: prod.splits)
    next
      case True
      have sent: "sent_in (sw_on_chain w3 @ sw_direct w3) e"
        using True carried grown by (auto simp: grows_def)
      obtain sp1 where saved: "save_state st' sp w3 = (err, sp', w')" "emergency_gone e st st'"
        using run seal Some chain direct True
          mark_emergency_spec(3) [OF ship_inv_urgent [OF inv] ship_inv_pos [OF inv e(1)]]
        by (auto simp: send_emergency_def Let_def tries_def emergency_gone_def split: prod.splits if_splits)
      from emergency_gone_inv [OF inv3 e ahead behind sent this(2)] saved save_state_inv
      show ?thesis by blast
    qed
  qed
qed

text \<open>
  The loop over what is unsent, a suffix of it still to be looked at: every emergency before it
  has gone, and the front has not passed it.
\<close>

lemma send_emergencies_inv:
  assumes "ship_inv cfg ever gone st w" "in_order es" "set es \<subseteq> set ever"
    "\<forall>e \<in> set es. sh_shipped st < ev_seq e"
    "\<forall>d \<in> set ever. d \<notin> set es \<and> ev_lane d = LaneEmergency \<longrightarrow> handed st (ev_seq d)"
    "send_emergencies cfg es down st sp w = (down', err, st', sp', w')"
  shows "ship_inv cfg ever gone st' w' \<and> sh_shipped st \<le> sh_shipped st' \<and>
    (err = None \<longrightarrow> (\<forall>d \<in> set ever. ev_lane d = LaneEmergency \<longrightarrow> handed st' (ev_seq d)))"
  using assms
proof (induction es arbitrary: down st sp w)
  case (Cons e es)
  note inv = Cons.prems(1) and seen = Cons.prems(5)
  have e: "e \<in> set ever" "sh_shipped st < ev_seq e" and later: "\<forall>x \<in> set es. ev_seq e < ev_seq x"
    using Cons.prems by (auto simp: in_order_Cons)
  show ?case
  proof (cases "ev_lane e \<noteq> LaneEmergency \<or> List.member (sh_urgent st) (ev_seq e)")
    case True
    then have "send_emergencies cfg es down st sp w = (down', err, st', sp', w')"
      using Cons.prems by simp
    moreover have "\<forall>d \<in> set ever. d \<notin> set es \<and> ev_lane d = LaneEmergency \<longrightarrow> handed st (ev_seq d)"
      using seen True by (auto simp: handed_def)
    ultimately show ?thesis using Cons.prems by (intro Cons.IH) (auto simp: in_order_Cons)
  next
    case False
    obtain down1 err1 st1 sp1 w1 where one: "send_emergency cfg e down st sp w = (down1, err1, st1, sp1, w1)"
      by (metis prod_cases5)
    have emer: "ev_lane e = LaneEmergency" "ev_seq e \<notin> set (sh_urgent st)" using False by auto
    have behind: "handed st (ev_seq d)"
      if "d \<in> set ever" "ev_lane d = LaneEmergency" "ev_seq d < ev_seq e" for d
      using seen that later by (metis less_asym less_irrefl set_ConsD)
    note step = send_emergency_inv [OF inv e(1) emer(1) e(2) behind one]
    note spec = mark_emergency_spec [OF ship_inv_urgent [OF inv] ship_inv_pos [OF inv e(1)]]
    show ?thesis
    proof (cases err1)
      case (Some x)
      with Cons.prems False one have "st' = st1" "w' = w1" "err = Some x" by auto
      with step spec show ?thesis by (auto simp: emergency_gone_def)
    next
      case None
      then have went: "emergency_gone e st st1" and inv1: "ship_inv cfg ever gone st1 w1" using step by auto
      have run: "send_emergencies cfg es down1 st1 sp1 w1 = (down', err, st', sp', w')"
        using Cons.prems False one None by simp
      have handed1: "handed st1 n \<longleftrightarrow> handed st n \<or> n = ev_seq e" for n
        using spec(1) [of n] went by (simp add: handed_def emergency_gone_def)
      have "sh_shipped st1 \<le> ev_seq e"
        using mark_emergency_front [OF inv e(1) emer(1) e(2) emer(2)] went by (simp add: emergency_gone_def)
      then have "\<forall>x \<in> set es. sh_shipped st1 < ev_seq x" using later by (auto intro: le_less_trans)
      moreover have "\<forall>d \<in> set ever. d \<notin> set es \<and> ev_lane d = LaneEmergency \<longrightarrow> handed st1 (ev_seq d)"
        using seen handed1 by auto
      moreover have "sh_shipped st \<le> sh_shipped st1" using spec(2) went by (simp add: emergency_gone_def)
      ultimately show ?thesis
        using Cons.IH [OF inv1 _ _ _ _ run] Cons.prems by (auto simp: in_order_Cons)
    qed
  qed
qed simp

subsection \<open>Records cut from a list of events\<close>

lemma cut_plain_prefix:
  "cut_plain cd bytes before evs @ drop (length (cut_plain cd bytes before evs)) evs = evs"
  by (induction cd bytes before evs rule: cut_plain.induct) (auto simp: Let_def split: option.splits)

lemma cut_batch_prefix: "cut_batch cd evs @ drop (length (cut_batch cd evs)) evs = evs"
proof -
  have "cut_batch cd evs = take (length (cut_batch cd evs)) (take ShipMaxEvents evs)"
    by (metis append_eq_conv_conj cut_batch_def cut_plain_prefix)
  then have "cut_batch cd evs = take (length (cut_batch cd evs)) evs"
    by (metis append_take_drop_id append_eq_conv_conj take_all_iff nle_le take_take min_def length_take)
  then show ?thesis by (metis append_take_drop_id)
qed

lemma cut_batch_Nil: "cut_batch cd evs = [] \<longleftrightarrow> evs = []"
  by (cases evs) (auto simp: cut_batch_def ShipMaxEvents_def Let_def split: option.splits)

subsection \<open>Retrying what is pending\<close>

definition range_events :: "ship_range \<Rightarrow> event list \<Rightarrow> event list" where
  "range_events r es = filter (\<lambda>e. r_from r \<le> ev_seq e \<and> ev_seq e \<le> r_to r) es"

lemma in_order_upto_last:
  assumes "in_order (xs @ ys)" "xs \<noteq> []"
  shows "filter (\<lambda>e. ev_seq e \<le> ev_seq (last xs)) (xs @ ys) = xs"
    and "filter (\<lambda>e. ev_seq (last xs) < ev_seq e) (xs @ ys) = ys"
proof -
  have "ev_seq e \<le> ev_seq (last xs)" if "e \<in> set xs" for e
    using assms that in_order_le_last by (auto simp: in_order_append)
  moreover have "ev_seq (last xs) < ev_seq e" if "e \<in> set ys" for e
    using assms that by (auto simp: in_order_append)
  ultimately show "filter (\<lambda>e. ev_seq e \<le> ev_seq (last xs)) (xs @ ys) = xs"
    and "filter (\<lambda>e. ev_seq (last xs) < ev_seq e) (xs @ ys) = ys"
    by (auto simp: filter_empty_conv filter_id_conv not_less dest: leD)
qed

lemma word_pred_less:
  fixes n s :: seqno
  assumes "0 < s"
  shows "s - 1 < n \<longleftrightarrow> s \<le> n"
proof -
  have "unat (s - 1) = unat s - 1" using assms by (metis unat_minus_one word_gt_0)
  moreover have "0 < unat s" using assms by (simp add: unat_gt_0)
  ultimately show ?thesis by (auto simp: word_less_nat_alt word_le_nat_alt)
qed

lemma word_succ_le:
  fixes n s :: seqno
  assumes "s < t"
  shows "s + 1 \<le> n \<longleftrightarrow> s < n" and "s + 1 \<noteq> 0"
proof -
  have "unat s < unat t" using assms by (simp add: word_less_nat_alt)
  then have "Suc (unat s) < 2 ^ 64" using unsigned_less [of t, where 'a = nat] by simp
  then have u: "unat (s + 1) = Suc (unat s)" by (simp add: unat_word_ariths)
  then show "s + 1 \<le> n \<longleftrightarrow> s < n" by (auto simp: word_less_nat_alt word_le_nat_alt)
  show "s + 1 \<noteq> 0" using u by auto
qed

lemma log_from_range:
  assumes inv: "ship_inv cfg ever gone st w" and r: "r \<in> set (sh_pending st)"
  shows "log_since w (r_from r - 1) = filter (\<lambda>e. r_from r \<le> ev_seq e) ever"
proof -
  have "0 < r_from r" "gone < r_from r"
    using inv r by (auto simp: ship_inv_def state_ok_def free_upto_def)
  then have both: "(\<lambda>e. gone < ev_seq e \<and> r_from r - 1 < ev_seq e) = (\<lambda>e. r_from r \<le> ev_seq e)"
    by (auto simp: word_pred_less intro: less_le_trans)
  have "sw_log w = filter (\<lambda>e. gone < ev_seq e) ever" using inv by (simp add: ship_inv_def)
  then show ?thesis by (simp add: log_since_def both)
qed

lemma events_in_spec:
  assumes inv: "ship_inv cfg ever gone st w" and r: "r \<in> set (sh_pending st)"
    and run: "events_in w r = (got, w')"
  shows "grows w w'" and "got = Some evs \<Longrightarrow> evs = range_events r ever \<and> evs \<noteq> []"
proof -
  obtain a w1 where read: "read_log w = (a, w1)" by force
  note g = read_log_grows [OF read]
  show "grows w w'" using run read g by (auto simp: events_in_def Let_def split: if_splits)
  assume got: "got = Some evs"
  define all where "all = filter (\<lambda>e. r_from r \<le> ev_seq e) ever"
  define n where "n = unat (r_to r - r_from r + 1)"
  have "log_since w1 (r_from r - 1) = all"
    using log_from_range [OF inv r] g by (simp add: all_def log_since_def grows_def)
  then have evs: "evs = take n all" "0 < n" "n \<le> length all" "ev_seq (all ! (n - 1)) = r_to r"
    using run read got by (auto simp: events_in_def Let_def n_def split: if_splits)
  then have ne: "evs \<noteq> []" by auto
  have "last evs = all ! (n - 1)" using evs ne by (simp add: last_conv_nth)
  with evs have last: "ev_seq (last evs) = r_to r" by simp
  have "in_order (evs @ drop n all)"
    using in_order_filter [OF ship_inv_in_order [OF inv]] by (simp add: evs all_def)
  then have "filter (\<lambda>e. ev_seq e \<le> r_to r) all = evs"
    using in_order_upto_last(1) [OF _ ne] last evs by (metis append_take_drop_id)
  with ne show "evs = range_events r ever \<and> evs \<noteq> []"
    by (simp add: all_def range_events_def conj_commute)
qed

text \<open>What a round is given of the first pending range: nothing yet, or all that is left of it.\<close>

definition rest_of :: "event list \<Rightarrow> ship_state \<Rightarrow> event list \<Rightarrow> bool" where
  "rest_of ever st evs \<longleftrightarrow>
     evs = [] \<or> sh_pending st \<noteq> [] \<and> evs = range_events (hd (sh_pending st)) ever"

lemma ship_inv_first_range:
  assumes inv: "ship_inv cfg ever gone st w" and p: "sh_pending st = r # rs"
    and evs: "range_events r ever = rec @ left" "rec \<noteq> []"
    and sent: "\<And>e. e \<in> set rec \<Longrightarrow> sent_in (sw_on_chain w) e"
    and st': "sh_pending st' = (if ev_seq (last rec) < r_to r then [r\<lparr>r_from := ev_seq (last rec) + 1\<rparr>] else []) @ rs"
      "sh_shipped st' = sh_shipped st" "sh_urgent st' = sh_urgent st"
  shows "ship_inv cfg ever gone st' w \<and> rest_of ever st' left"
proof -
  let ?n = "ev_seq (last rec)"
  have ord: "in_order (rec @ left)"
    using in_order_filter [OF ship_inv_in_order [OF inv]] evs(1) by (metis range_events_def)
  have "last rec \<in> set (range_events r ever)" using evs by simp
  then have n: "r_from r \<le> ?n" "?n \<le> r_to r" by (auto simp: range_events_def)
  have r: "0 < r_from r" "gone < r_from r \<or> \<not> free_upto st gone"
    using inv p by (auto simp: ship_inv_def state_ok_def free_upto_def)
  have succ: "m \<le> ?n + 1 \<longleftrightarrow> m \<le> ?n \<or> m = ?n + 1" "?n \<le> ?n + 1" "?n + 1 \<le> r_to r" "0 < ?n + 1"
    "?n + 1 \<le> m \<longleftrightarrow> ?n < m" if "?n < r_to r" for m
  proof -
    note up = word_succ_le [OF that]
    show "m \<le> ?n + 1 \<longleftrightarrow> m \<le> ?n \<or> m = ?n + 1" "?n \<le> ?n + 1" using word_le_succ [OF up(2)] by auto
    show "?n + 1 \<le> r_to r" "?n + 1 \<le> m \<longleftrightarrow> ?n < m" using up that by auto
    show "0 < ?n + 1" using up by (simp add: word_gt_0)
  qed
  have upto: "filter (\<lambda>e. ?n < ev_seq e) (range_events r ever) = left"
    using in_order_upto_last(2) [OF ord evs(2)] evs(1) by simp
  have "ship_inv cfg ever gone st' w"
  proof (rule ship_inv_step [OF inv])
    fix e assume e: "e \<in> set ever" "in_ranges (sh_pending st) (ev_seq e)"
    show "in_ranges (sh_pending st') (ev_seq e) \<or> sent_in (sw_on_chain w) e"
    proof (cases "r_from r \<le> ev_seq e \<and> ev_seq e \<le> r_to r")
      case True
      then have "e \<in> set (rec @ left)" using e evs(1) by (metis (no_types, lifting) mem_Collect_eq range_events_def set_filter)
      then consider "e \<in> set rec" | "?n < ev_seq e" using ord evs(2) by (auto simp: in_order_append)
      then show ?thesis
      proof cases
        case 2
        then have "?n < r_to r" using True by (auto intro: less_le_trans)
        with 2 True succ show ?thesis by (auto simp: st' in_ranges_Cons)
      qed (use sent in blast)
    qed (use e in \<open>auto simp: st' p in_ranges_Cons\<close>)
  next
    fix q assume "q \<in> set (sh_pending st')"
    then show "0 < r_from q \<and> r_from q \<le> r_to q"
      using inv p succ by (auto simp: st' ship_inv_def state_ok_def split: if_splits)
  next
    fix m assume "free_upto st m"
    moreover have "m < ?n + 1" if "?n < r_to r" "m < r_from r"
      using that n succ by (meson less_le_trans)
    ultimately show "free_upto st' m" using p by (auto simp: st' free_upto_def)
  qed (use inv st' in \<open>auto simp: handed_def ship_inv_urgent\<close>)
  moreover have "rest_of ever st' left"
  proof (cases "?n < r_to r")
    case True
    have "left = range_events (r\<lparr>r_from := ?n + 1\<rparr>) ever"
      unfolding upto [symmetric] using n True succ
      by (auto simp: range_events_def intro!: filter_cong dest: order_trans less_imp_le)
    with True show ?thesis by (simp add: rest_of_def st')
  next
    case False
    then have "left = []" unfolding upto [symmetric] by (auto simp: range_events_def filter_empty_conv)
    then show ?thesis by (simp add: rest_of_def)
  qed
  ultimately show ?thesis ..
qed

lemma retry_one_inv:
  assumes inv: "ship_inv cfg ever gone st w" and rest: "rest_of ever st evs" and p: "sh_pending st \<noteq> []"
    and run: "retry_one cfg evs st sp w = (next, st', sp', w')"
  shows "ship_inv cfg ever gone st' w' \<and> sh_shipped st' = sh_shipped st \<and>
    (\<forall>evs'. next = Inr evs' \<longrightarrow> rest_of ever st' evs')"
proof -
  obtain r rs where r: "sh_pending st = r # rs" using p by (cases "sh_pending st") auto
  obtain got w1 where got: "(if evs = [] then events_in w r else (Some evs, w)) = (got, w1)" by force
  have g1: "grows w w1" using got events_in_spec(1) [OF inv, of r] r by (auto split: if_splits)
  note inv1 = ship_inv_grows [OF inv g1]
  show ?thesis
  proof (cases got)
    case None
    with run got r inv1 show ?thesis by (auto simp: retry_one_def Let_def)
  next
    case (Some all)
    have all: "all = range_events r ever" "all \<noteq> []"
      using got Some rest events_in_spec(2) [OF inv, of r] r by (auto simp: rest_of_def split: if_splits)
    define rec where "rec = cut_batch (sc_codec cfg) all"
    have rec: "rec @ drop (length rec) all = all" "rec \<noteq> []"
      using all by (simp_all add: rec_def cut_batch_prefix cut_batch_Nil)
    obtain t w2 where clock: "clock w1 = (t, w2)" by force
    obtain sealed w3 where seal: "seal rec LaneNormal w2 = (sealed, w3)" by force
    have g3: "grows w1 w3" using clock_grows [OF clock] seal_grows(1) [OF seal] by (rule grows_trans)
    note inv3 = ship_inv_grows [OF inv1 g3]
    show ?thesis
    proof (cases sealed)
      case None
      with run got Some clock seal r inv3 show ?thesis by (auto simp: retry_one_def Let_def rec_def)
    next
      case (Some b)
      obtain c w4 where chain: "put_on_chain b w3 = (c, w4)" by force
      note g4 = put_on_chain_grows [OF chain]
      have inv4: "ship_inv cfg ever gone st w4" using ship_inv_grows inv3 g4 by blast
      show ?thesis
      proof (cases c)
        case False
        with run got \<open>got = _\<close> clock seal Some chain r inv4 show ?thesis
          by (auto simp: retry_one_def Let_def rec_def)
      next
        case True
        have sent: "sent_in (sw_on_chain w4) e" if "e \<in> set rec" for e
          using seal_grows(2) [OF seal Some that] g4 True by blast
        have out: "next = Inr (drop (length rec) all)" "w' = w4"
          "sh_pending st' = (if ev_seq (last rec) < r_to r then [r\<lparr>r_from := ev_seq (last rec) + 1\<rparr>] else []) @ rs"
          "sh_shipped st' = sh_shipped st" "sh_urgent st' = sh_urgent st"
          using run got \<open>got = _\<close> clock seal Some chain r True by (auto simp: retry_one_def Let_def rec_def)
        have "range_events r ever = rec @ drop (length rec) all" using rec all by simp
        from ship_inv_first_range [OF inv4 r this rec(2) sent out(3-5)] out show ?thesis by simp
      qed
    qed
  qed
qed

lemma retry_pending_inv:
  assumes "ship_inv cfg ever gone st w" "rest_of ever st evs"
    "retry_pending cfg began tried evs st sp w = (down, st', sp', w')"
  shows "ship_inv cfg ever gone st' w' \<and> sh_shipped st' = sh_shipped st"
  using assms
proof (induction cfg began tried evs st sp w rule: retry_pending.induct)
  case (1 cfg began tried evs st sp w)
  note run = "1.prems"(3)
  show ?case
  proof (cases "\<not> sc_chain cfg \<or> sh_pending st = [] \<or> sc_daily_cap cfg \<le> sh_chain st")
    case True
    with "1.prems" show ?thesis by (simp add: retry_pending.simps [of cfg])
  next
    case False
    obtain t w1 where t: "(t, w1) = (if tried then clock w else (began, w))" by (metis surj_pair)
    have "grows w w1" using t clock_grows [of w t w1] by (auto split: if_splits)
    with "1.prems" have inv1: "ship_inv cfg ever gone st w1" by (metis ship_inv_grows)
    show ?thesis
    proof (cases "tried \<and> ShipRetryBudget \<le> time_sub t began")
      case True
      with run False t [symmetric] inv1 show ?thesis by (simp add: retry_pending.simps [of cfg])
    next
      case late: False
      obtain nxt st1 sp1 w2 where one: "retry_one cfg evs st sp w1 = (nxt, st1, sp1, w2)"
        by (metis prod_cases4)
      note step = retry_one_inv [OF inv1 "1.prems"(2) _ one]
      show ?thesis
      proof (cases nxt)
        case (Inl d)
        with run False late t [symmetric] one step show ?thesis
          by (auto simp: retry_pending.simps [of cfg] split: if_splits)
      next
        case (Inr evs')
        have "retry_pending cfg began True evs' st1 sp1 w2 = (down, st', sp', w')"
          using run False late t [symmetric] one Inr
          by (auto simp: retry_pending.simps [of cfg began tried evs] split: if_splits)
        from "1.IH" [OF False t refl late one [symmetric] Inr refl refl _ _ this] step False Inr show ?thesis
          by simp
      qed
    qed
  qed
qed

subsection \<open>A batch of a pass\<close>

lemma keep_for_chain_ranges:
  assumes "0 < r_from r" "r_from r \<le> r_to r" "\<forall>q \<in> set (sh_pending st). r_from q \<le> r_to q"
    and q: "q \<in> set (sh_pending (keep_for_chain st r))"
  shows "r_from q \<le> r_to q" and "\<exists>p \<in> set (sh_pending st @ [r]). r_from q = r_from p"
proof -
  let ?l = "last (sh_pending st)"
  have "r_from q \<le> r_to q \<and> (\<exists>p \<in> set (sh_pending st @ [r]). r_from q = r_from p)"
  proof (cases "sh_joinable st \<and> sh_pending st \<noteq> [] \<and> r_to ?l + 1 = r_from r")
    case True
    then have "r_to ?l + 1 \<noteq> 0" using assms(1) by auto
    then have "r_to ?l \<le> r_from r" using word_le_succ(2) [of "r_to ?l"] True by simp
    moreover have l: "?l \<in> set (sh_pending st)" using True by simp
    then have "r_from ?l \<le> r_to ?l" using assms(3) by simp
    ultimately have "r_from ?l \<le> r_to r" using assms(2) by (meson order_trans)
    then show ?thesis
      using q True l assms(2,3) by (auto simp: keep_for_chain_pending dest: in_set_butlastD)
  qed (use assms in \<open>auto simp: keep_for_chain_pending split: if_splits\<close>)
  then show "r_from q \<le> r_to q" and "\<exists>p \<in> set (sh_pending st @ [r]). r_from q = r_from p" by blast+
qed

text \<open>The state once a batch has gone, when the pass finds \<open>evs\<close> the first unsent events.\<close>

lemma batch_inv:
  assumes inv: "ship_inv cfg ever gone st w"
    and evs: "filter (\<lambda>e. sh_shipped st < ev_seq e) ever = evs @ left" "evs \<noteq> []"
    and sent: "\<And>e. e \<in> set evs \<Longrightarrow> sent_in (sw_on_chain w @ sw_direct w) e"
    and chain: "\<And>e. on_chain \<Longrightarrow> e \<in> set evs \<Longrightarrow> sent_in (sw_on_chain w) e"
    and r: "r = \<lparr>r_from = ev_seq (hd evs), r_to = ev_seq (last evs)\<rparr>"
  shows "ship_inv cfg ever gone (after_batch cfg on_chain r st) w"
proof -
  define st2 where "st2 = step_over (st\<lparr>sh_shipped := r_to r\<rparr>)"
  define st' where "st' = after_batch cfg on_chain r st"
  have st': "st' = (if \<not> on_chain \<and> sc_chain cfg then keep_for_chain st2 r else st2)"
    by (simp add: st'_def st2_def after_batch_def)
  have ord: "in_order (evs @ left)"
    using in_order_filter [OF ship_inv_in_order [OF inv]] evs(1) by metis
  have mem: "e \<in> set ever \<and> sh_shipped st < ev_seq e \<longleftrightarrow> e \<in> set (evs @ left)" for e
    using evs(1) by (metis (mono_tags, lifting) mem_Collect_eq set_filter)
  have ends: "hd evs \<in> set evs" "last evs \<in> set evs" using evs(2) by auto
  have ordered: "r_from r \<le> ev_seq e \<and> ev_seq e \<le> r_to r" if "e \<in> set evs" for e
    using that ord evs(2) in_order_hd_le in_order_le_last by (auto simp: r in_order_append)
  have bounds: "0 < r_from r" "sh_shipped st < r_from r" "r_from r \<le> r_to r" "sh_shipped st < r_to r"
    using ends mem ordered ship_inv_pos [OF inv] r by (auto simp: word_gt_0)
  have u: "0 \<notin> set (sh_urgent (st\<lparr>sh_shipped := r_to r\<rparr>))" using ship_inv_urgent [OF inv] by simp
  note over = step_over_spec [OF u, folded st2_def]
  have pend2: "sh_pending st2 = sh_pending st" using over by simp
  have good: "\<forall>q \<in> set (sh_pending st). 0 < r_from q \<and> r_from q \<le> r_to q"
    using inv by (simp add: ship_inv_def state_ok_def)
  note kept = keep_for_chain_ranges [OF bounds(1,3), of st2]
  have handed': "handed st' n \<longleftrightarrow> n \<le> r_to r \<or> n \<in> set (sh_urgent st)" for n
    using over(1) [of n] by (auto simp: st' handed_def)
  have covers: "in_ranges (sh_pending st') n"
    if "in_ranges (sh_pending st) n \<or> \<not> on_chain \<and> sc_chain cfg \<and> in_ranges [r] n" for n
    using keep_for_chain_covers [OF bounds(1,3), of st2 n] that good pend2 by (auto simp: st')
  have "ship_inv cfg ever gone st' w"
  proof (rule ship_inv_step [OF inv])
    fix e assume e: "e \<in> set ever" "handed st' (ev_seq e)" "\<not> handed st (ev_seq e)"
    then have "sh_shipped st < ev_seq e" "ev_seq e \<le> r_to r"
      unfolding handed' by (auto simp: handed_def)
    with e(1) mem have "e \<in> set (evs @ left)" "ev_seq e \<le> r_to r" by blast+
    then have evs': "e \<in> set evs" using in_order_prefix_upto [OF ord evs(2)] r by auto
    then have "in_ranges [r] (ev_seq e)" using ordered by (simp add: in_ranges_def)
    then have "sc_chain cfg \<Longrightarrow> sent_in (sw_on_chain w) e \<or> in_ranges (sh_pending st') (ev_seq e)"
      using chain evs' covers by blast
    with sent [OF evs'] show "sent_in (sw_on_chain w @ sw_direct w) e \<and>
        (sc_chain cfg \<longrightarrow> ev_lane e \<noteq> LaneEmergency \<longrightarrow>
           sent_in (sw_on_chain w) e \<or> in_ranges (sh_pending st') (ev_seq e))"
      by blast
  next
    fix n assume "handed st' n"
    moreover have "last evs \<in> set ever" using mem ends by auto
    ultimately show "handed st n \<or> (\<exists>e \<in> set ever. n \<le> ev_seq e)"
      unfolding handed' by (auto simp: handed_def r)
  next
    fix q assume "q \<in> set (sh_pending st')"
    then show "0 < r_from q \<and> r_from q \<le> r_to q"
      using kept [of q] good bounds pend2 by (auto simp: st' split: if_splits)
  next
    fix n assume free: "free_upto st n"
    have "sh_shipped st \<le> sh_shipped st'" using over(2) bounds(4) by (auto simp: st')
    moreover have "n < r_from q" if "q \<in> set (sh_pending st')" for q
      using that kept(2) [of q] free bounds good pend2
      by (auto simp: st' free_upto_def split: if_splits intro: le_less_trans)
    ultimately show "free_upto st' n" using free by (auto simp: free_upto_def intro: order_trans)
  next
    fix n assume "handed st n"
    then show "handed st' n" using bounds(4) unfolding handed' by (auto simp: handed_def)
  qed (use covers over in \<open>auto simp: st'\<close>)
  then show ?thesis by (simp add: st'_def)
qed

lemma unsent_batch_spec:
  assumes inv: "ship_inv cfg ever gone st w" and le: "n \<le> sh_shipped st"
    and run: "unsent_batch st (filter (\<lambda>e. n < ev_seq e) ever) = (st', evs)"
  shows "st' = step_over st"
    and "\<exists>left. filter (\<lambda>e. sh_shipped st' < ev_seq e) ever = cut_batch cd evs @ left"
proof -
  show st': "st' = step_over st" using run by (simp add: unsent_batch_def Let_def)
  have ge: "n \<le> sh_shipped st'"
    using step_over_spec(2) [OF ship_inv_urgent [OF inv]] le st' by (auto intro: order_trans)
  have "dropWhile (\<lambda>e. ev_seq e \<le> sh_shipped st') (filter (\<lambda>e. n < ev_seq e) ever) =
      filter (\<lambda>e. sh_shipped st' < ev_seq e) (filter (\<lambda>e. n < ev_seq e) ever)"
    using ship_inv_in_order [OF inv] by (intro dropWhile_in_order in_order_filter)
  also have "\<dots> = filter (\<lambda>e. sh_shipped st' < ev_seq e) ever"
    using ge by (auto simp: intro!: filter_cong)
  finally have "evs = takeWhile (\<lambda>e. \<not> List.member (sh_urgent st') (ev_seq e))
      (filter (\<lambda>e. sh_shipped st' < ev_seq e) ever)"
    using run st' by (simp add: unsent_batch_def Let_def)
  then have "filter (\<lambda>e. sh_shipped st' < ev_seq e) ever = evs @ dropWhile
      (\<lambda>e. \<not> List.member (sh_urgent st') (ev_seq e)) (filter (\<lambda>e. sh_shipped st' < ev_seq e) ever)"
    by (metis takeWhile_dropWhile_id)
  then show "\<exists>left. filter (\<lambda>e. sh_shipped st' < ev_seq e) ever = cut_batch cd evs @ left"
    by (metis append.assoc cut_batch_prefix)
qed

text \<open>An event joins the log past every other.\<close>

lemma ship_inv_append:
  assumes inv: "ship_inv cfg ever gone st w" and e: "0 < ev_seq e" "\<forall>d \<in> set ever. ev_seq d < ev_seq e"
  shows "ship_inv cfg (ever @ [e]) gone st (w\<lparr>sw_log := sw_log w @ [e]\<rparr>)"
proof -
  have claims: "state_ok cfg (ever @ [e]) (w\<lparr>sw_log := l\<rparr>) s" if "state_ok cfg ever w s" for s l
  proof -
    have new: "\<not> handed s (ev_seq e)" using that e unfolding state_ok_def by (meson leD)
    have "\<not> ev_seq e < u" if "u \<in> set (sh_urgent s)" for u
    proof
      assume less: "ev_seq e < u"
      then have "0 < u \<and> handed s u" using that e by (auto simp: handed_def)
      then obtain d where "d \<in> set ever" "u \<le> ev_seq d"
        using \<open>state_ok cfg ever w s\<close> state_ok_given by blast
      with less e show False by (meson le_less_trans less_asym)
    qed
    with new that show ?thesis by (auto simp: state_ok_def retired_ranges_def)
  qed
  have "gone < ev_seq e"
  proof (cases "gone = 0")
    case False
    then have "0 < gone" "handed st gone"
      using inv by (auto simp: ship_inv_def free_upto_def handed_def word_gt_0)
    moreover have "state_ok cfg ever w st" using inv by (simp add: ship_inv_def)
    ultimately obtain d where "d \<in> set ever" "gone \<le> ev_seq d" using state_ok_given by blast
    then show ?thesis using e by (auto intro: le_less_trans)
  qed (use e in auto)
  with inv claims e show ?thesis
    by (auto simp: ship_inv_def in_order_def sorted_wrt_append load_state_def)
qed

lemma head_seq_newest:
  assumes inv: "ship_inv cfg ever gone st w" and e: "e \<in> set ever"
  shows "ev_seq e \<le> head_seq w"
proof -
  have log: "sw_log w = filter (\<lambda>e. gone < ev_seq e) ever" "gone < ev_seq (last ever)" "in_order ever"
    using inv e by (auto simp: ship_inv_def)
  have "ev_seq e \<le> ev_seq (last ever)" using log e in_order_le_last by blast
  moreover have "sw_log w = filter (\<lambda>e. gone < ev_seq e) (butlast ever) @ [last ever]"
  proof -
    have "ever = butlast ever @ [last ever]" using e by (cases ever) auto
    then have "filter (\<lambda>e. gone < ev_seq e) ever =
        filter (\<lambda>e. gone < ev_seq e) (butlast ever) @ filter (\<lambda>e. gone < ev_seq e) [last ever]"
      by (metis filter_append)
    then show ?thesis using log(1,2) by simp
  qed
  ultimately show ?thesis by (simp add: head_seq_def)
qed

lemma raise_alarm_inv:
  assumes inv: "ship_inv cfg ever gone st w" and run: "raise_alarm cfg st now w = (st', w')"
  shows "\<exists>new. ship_inv cfg (ever @ new) gone st' w' \<and> sw_log w' = sw_log w @ new"
proof -
  obtain a w1 where read: "read_log w = (a, w1)" by force
  define ev where "ev = (alarm_event cfg now)\<lparr>ev_seq := head_seq w1 + 1\<rparr>"
  note g = read_log_grows [OF read]
  have "ship_inv cfg ever gone (st\<lparr>sh_alarmed := True\<rparr>) w1"
    using ship_inv_grows [OF inv g] by (rule ship_inv_counts) auto
  moreover have "st' = st\<lparr>sh_alarmed := True\<rparr>" using run read by (simp add: raise_alarm_def Let_def)
  ultimately have inv1: "ship_inv cfg ever gone st' w1" by simp
  show ?thesis
  proof (cases "a \<and> validate_event ev = None")
    case True
    then have nz: "head_seq w1 + 1 \<noteq> 0" by (auto simp: ev_def validate_event_def split: if_splits)
    have "ev_seq d < ev_seq ev" if "d \<in> set ever" for d
    proof -
      have "ev_seq d \<le> head_seq w1" by (rule head_seq_newest [OF inv1 that])
      moreover have "head_seq w1 < head_seq w1 + 1"
        using word_le_succ [OF nz] by (metis less_le add_cancel_left_right zero_neq_one)
      ultimately show ?thesis by (simp add: ev_def)
    qed
    moreover have "w' = w1\<lparr>sw_log := sw_log w1 @ [ev]\<rparr>" "0 < ev_seq ev"
      using run read True nz by (simp_all add: raise_alarm_def Let_def ev_def word_gt_0)
    ultimately show ?thesis using ship_inv_append [OF inv1, of ev] g by (auto simp: grows_def)
  next
    case False
    then have "w' = w1" using run read by (auto simp: raise_alarm_def Let_def ev_def)
    then show ?thesis using inv1 g by (intro exI [of _ "[]"]) (auto simp: grows_def)
  qed
qed

subsection \<open>A pass\<close>

lemma chain_batch_grows:
  assumes "chain_batch evs may w = (c, w')"
  shows "grows w w'" and "c = Some True \<Longrightarrow> e \<in> set evs \<Longrightarrow> sent_in (sw_on_chain w') e"
proof -
  obtain s1 w1 where s: "seal evs LaneNormal w = (s1, w1)" by force
  note seal = seal_grows(1) [OF s] seal_grows(2) [OF s]
  have "grows w w' \<and> (c = Some True \<longrightarrow> e \<in> set evs \<longrightarrow> sent_in (sw_on_chain w') e)"
  proof (cases "may \<and> s1 \<noteq> None")
    case True
    then obtain b where b: "s1 = Some b" by blast
    obtain c1 w2 where c: "put_on_chain b w1 = (c1, w2)" by force
    have "c = Some c1" "w' = w2" using assms True s b c by (auto simp: chain_batch_def)
    with put_on_chain_grows [OF c] seal b show ?thesis by (auto intro: grows_trans)
  qed (use assms s seal in \<open>auto simp: chain_batch_def split: if_splits\<close>)
  then show "grows w w'" and "c = Some True \<Longrightarrow> e \<in> set evs \<Longrightarrow> sent_in (sw_on_chain w') e" by blast+
qed

lemma direct_batch_inv:
  assumes inv: "ship_inv cfg ever gone st w"
    and evs: "filter (\<lambda>e. sh_shipped st < ev_seq e) ever = evs @ left" "evs \<noteq> []"
    and chained: "\<And>e. c \<Longrightarrow> e \<in> set evs \<Longrightarrow> sent_in (sw_on_chain w) e"
    and run: "direct_batch cfg evs over c now st sp w = (err, st', sp', w')"
  shows "\<exists>new. ship_inv cfg (ever @ new) gone st' w' \<and> sw_log w' = sw_log w @ new"
proof -
  obtain s1 w1 where s: "seal evs (if c then LaneNormal else LaneFallback) w = (s1, w1)" by force
  note g1 = seal_grows(1) [OF s]
  note inv1 = ship_inv_grows [OF inv g1]
  show ?thesis
  proof (cases s1)
    case None
    with run s have "st' = st" "w' = w1" by (simp_all add: direct_batch_def)
    with inv1 g1 show ?thesis by (intro exI [of _ "[]"]) (simp add: grows_def)
  next
    case (Some b)
    obtain d w2 where d: "deliver b w1 = (d, w2)" by force
    note g2 = deliver_grows [OF d]
    have inv2: "ship_inv cfg ever gone st w2" using inv1 g2 ship_inv_grows by blast
    have log2: "sw_log w2 = sw_log w" using g1 g2 by (simp add: grows_def)
    show ?thesis
    proof (cases "c \<or> d")
      case False
      with run s Some d obtain e0 sp0 where "save_state st sp w2 = (e0, sp0, w')" "st' = st"
        by (auto simp: direct_batch_def Let_def split: prod.splits)
      then show ?thesis using save_state_inv [OF inv2] save_state_log log2
        by (intro exI [of _ "[]"]) auto
    next
      case True
      define r where "r = \<lparr>r_from = ev_seq (hd evs), r_to = ev_seq (last evs)\<rparr>"
      have chain2: "sent_in (sw_on_chain w2) e" if "c" "e \<in> set evs" for e
        using chained [OF that] g1 g2 by (auto simp: grows_def)
      have sent2: "sent_in (sw_on_chain w2 @ sw_direct w2) e" if e: "e \<in> set evs" for e
        using chain2 [OF _ e] seal_grows(2) [OF s Some e] g2 True by auto
      define st2 where "st2 = after_batch cfg c r st"
      have after: "ship_inv cfg ever gone st2 w2"
        unfolding st2_def by (rule batch_inv [OF inv2 evs sent2 chain2 r_def])
      obtain st3 w3 where alarm: "(if over \<and> \<not> sh_alarmed st2 then raise_alarm cfg st2 now w2
          else (st2, w2)) = (st3, w3)" by force
      obtain new where new: "ship_inv cfg (ever @ new) gone st3 w3" "sw_log w3 = sw_log w2 @ new"
        using alarm after raise_alarm_inv [OF after, where now = now] that [of "[]"]
        by (cases "over \<and> \<not> sh_alarmed st2") auto
      have "save_state st3 (sp\<lparr>sp_last_sent := now\<rparr>) w3 = (err, sp', w') \<and> st' = st3"
        using run [unfolded direct_batch_def Let_def s Some option.case prod.case d, folded r_def st2_def,
            unfolded alarm prod.case] True
        by (auto split: prod.splits)
      then show ?thesis
        using save_state_inv [OF new(1)] save_state_log [of st3 _ w3] new log2 by auto
    qed
  qed
qed

lemma send_batch_inv:
  assumes inv: "ship_inv cfg ever gone st w"
    and evs: "filter (\<lambda>e. sh_shipped st < ev_seq e) ever = evs @ left" "evs \<noteq> []"
    and run: "send_batch cfg evs down now st sp w = (err, st', sp', w')"
  shows "\<exists>new. ship_inv cfg (ever @ new) gone st' w' \<and> sw_log w' = sw_log w @ new"
proof -
  define over where "over = (sc_chain cfg \<and> \<not> down \<and> sc_daily_cap cfg \<le> sh_chain st)"
  note run = run [unfolded send_batch_def Let_def, folded over_def]
  obtain c w1 where c: "chain_batch evs (sc_chain cfg \<and> \<not> down \<and> \<not> over) w = (c, w1)" by force
  note g = chain_batch_grows [OF c]
  note inv1 = ship_inv_grows [OF inv g(1)]
  have log: "sw_log w1 = sw_log w" using g(1) by (simp add: grows_def)
  show ?thesis
  proof (cases c)
    case None
    with run c have "st' = st" "w' = w1" by simp_all
    with inv1 log show ?thesis by (intro exI [of _ "[]"]) simp
  next
    case (Some on)
    define st1 where "st1 = (if on then st\<lparr>sh_chain := sh_chain st + 1\<rparr> else st)"
    have inv1': "ship_inv cfg ever gone st1 w1"
      using inv1 by (rule ship_inv_counts) (simp_all add: st1_def)
    have sh: "sh_shipped st1 = sh_shipped st" by (simp add: st1_def)
    have "direct_batch cfg evs over on now st1 sp w1 = (err, st', sp', w')"
      using run c Some by (simp add: st1_def)
    from direct_batch_inv [OF inv1' evs(1) [folded sh] evs(2) _ this] g Some log show ?thesis by auto
  qed
qed

lemma unsent_seqs:
  assumes inv: "ship_inv cfg ever gone st w"
  shows "(if sh_shipped st < head_seq w then log_since w (sh_shipped st) else []) =
    filter (\<lambda>e. sh_shipped st < ev_seq e) ever"
proof -
  have "gone < ev_seq e" if "sh_shipped st < ev_seq e" for e
    using inv that by (auto simp: ship_inv_def free_upto_def intro: le_less_trans)
  then have both: "(\<lambda>e. gone < ev_seq e \<and> sh_shipped st < ev_seq e) = (\<lambda>e. sh_shipped st < ev_seq e)"
    by auto
  have log: "sw_log w = filter (\<lambda>e. gone < ev_seq e) ever" using inv by (simp add: ship_inv_def)
  have "filter (\<lambda>e. sh_shipped st < ev_seq e) ever = []" if "\<not> sh_shipped st < head_seq w"
    using that head_seq_newest [OF inv] by (fastforce simp: filter_empty_conv)
  with log show ?thesis by (simp add: log_since_def both)
qed

lemma ship_rest_inv:
  assumes inv: "ship_inv cfg ever gone st w" and le: "n \<le> sh_shipped st"
    and unsent: "unsent = filter (\<lambda>e. n < ev_seq e) ever"
    and run: "ship_rest cfg unsent down now st sp w = (err, st', sp', w')"
  shows "\<exists>new. ship_inv cfg (ever @ new) gone st' w' \<and> sw_log w' = sw_log w @ new"
proof -
  obtain began w1 where cl: "(if down then (0, w) else clock w) = (began, w1)" by force
  have "grows w w1" using cl clock_grows [of w began w1] by (auto split: if_splits)
  with inv have inv1: "ship_inv cfg ever gone st w1" by (blast intro: ship_inv_grows)
  obtain down' st2 sp2 w2 where re: "(if down then (True, st, sp, w1)
      else retry_pending cfg began False [] st sp w1) = (down', st2, sp2, w2)" by (metis prod_cases4)
  have inv2: "ship_inv cfg ever gone st2 w2" "sh_shipped st2 = sh_shipped st"
    using re inv1 retry_pending_inv [OF inv1, where evs = "[]"]
    by (cases down, simp_all add: rest_of_def)+
  have log2: "sw_log w2 = sw_log w" using inv2 inv by (simp add: ship_inv_def)
  obtain st3 evs where ub: "unsent_batch st2 unsent = (st3, evs)" by force
  have ge: "n \<le> sh_shipped st2" using le inv2 by simp
  note us = unsent_batch_spec [OF inv2(1) ge ub [unfolded unsent]]
  have inv3: "ship_inv cfg ever gone st3 w2" using ship_inv_step_over [OF inv2(1)] us(1) by simp
  obtain left where cut: "filter (\<lambda>e. sh_shipped st3 < ev_seq e) ever = cut_batch (sc_codec cfg) evs @ left"
    using us(2) by blast
  note run = run [unfolded ship_rest_def Let_def cl re prod.case ub]
  show ?thesis
  proof (cases "cut_batch (sc_codec cfg) evs = [] \<or> \<not> batch_due sp2 (length (cut_batch (sc_codec cfg) evs)) now")
    case True
    then have "st' = st3 \<and> (w' = w2 \<or> (\<exists>e sp. save_state st3 sp2 w2 = (e, sp, w')))"
      using run by (auto split: if_splits prod.splits)
    with inv3 save_state_inv [OF inv3] save_state_log log2 show ?thesis
      by (intro exI [of _ "[]"]) auto
  next
    case False
    then have "send_batch cfg (cut_batch (sc_codec cfg) evs) down' now st3 sp2 w2 = (err, st', sp', w')"
      using run by simp
    from send_batch_inv [OF inv3 cut _ this] False log2 show ?thesis by simp
  qed
qed

lemma ship_loaded_inv:
  assumes inv: "ship_inv cfg ever gone st w"
    and run: "ship_loaded cfg now st sp w = (err, st', sp', w')"
  shows "\<exists>new. ship_inv cfg (ever @ new) gone st' w' \<and> sw_log w' = sw_log w @ new"
proof -
  define st0 where "st0 = roll_day st now"
  have inv0: "ship_inv cfg ever gone st0 w" using ship_inv_roll_day [OF inv] by (simp add: st0_def)
  obtain a1 w1 where r1: "read_log w = (a1, w1)" by force
  note g1 = read_log_grows [OF r1]
  note inv1 = ship_inv_grows [OF inv0 g1]
  define behind where "behind = (sh_shipped st0 < head_seq w1)"
  obtain a2 w2 where r2: "(if behind then read_log w1 else (True, w1)) = (a2, w2)" by force
  have g2: "grows w1 w2" using r2 read_log_grows [of w1 a2 w2] by (auto split: if_splits)
  note inv2 = ship_inv_grows [OF inv1 g2]
  have log2: "sw_log w2 = sw_log w" "sw_log w1 = sw_log w" using g1 g2 by (simp_all add: grows_def)
  define unsent where "unsent = (if behind then log_since w2 (sh_shipped st0) else [])"
  have unsent: "unsent = filter (\<lambda>e. sh_shipped st0 < ev_seq e) ever"
    using unsent_seqs [OF inv2] g2 by (simp add: unsent_def behind_def grows_reads)
  note run = run [unfolded ship_loaded_def Let_def r1 prod.case, folded st0_def, folded behind_def,
      unfolded r2 prod.case, folded unsent_def]
  show ?thesis
  proof (cases "a1 \<and> a2")
    case False
    then have "st' = st0" "w' = w1 \<or> w' = w2" using run by (auto split: if_splits)
    then show ?thesis using inv1 inv2 log2 by (intro exI [of _ "[]"]) auto
  next
    case True
    obtain down err1 st1 sp1 w3 where em: "send_emergencies cfg unsent False st0 sp w2 = (down, err1, st1, sp1, w3)"
      by (metis prod_cases5)
    have "in_order unsent" "set unsent \<subseteq> set ever" "\<forall>e \<in> set unsent. sh_shipped st0 < ev_seq e"
      "\<forall>d \<in> set ever. d \<notin> set unsent \<and> ev_lane d = LaneEmergency \<longrightarrow> handed st0 (ev_seq d)"
      using in_order_filter [OF ship_inv_in_order [OF inv]] by (auto simp: unsent handed_def)
    note emer = send_emergencies_inv [OF inv2 this em]
    have log3: "sw_log w3 = sw_log w" using emer inv2 log2 by (simp add: ship_inv_def)
    show ?thesis
    proof (cases err1)
      case (Some e)
      with run True em have "st' = st1" "w' = w3" by simp_all
      with emer log3 show ?thesis by (intro exI [of _ "[]"]) simp
    next
      case None
      with run True em have "ship_rest cfg unsent down now st1 sp1 w3 = (err, st', sp', w')" by simp
      from ship_rest_inv [OF _ _ unsent this] emer log3 show ?thesis by simp
    qed
  qed
qed

text \<open>The state a pass works on: the one in memory, else the one kept.\<close>

definition current :: "shipper \<Rightarrow> ship_world \<Rightarrow> ship_state" where
  "current sp w = (case sp_state sp of Some st \<Rightarrow> st | None \<Rightarrow> load_state w)"

lemma current_cong: "load_state w' = load_state w \<Longrightarrow> current sp w' = current sp w"
  by (simp add: current_def split: option.split)

lemma save_state_memory: "save_state st sp w = (err, sp', w') \<Longrightarrow> sp_state sp' = Some st"
  by (auto simp: save_state_def Let_def split: prod.splits if_splits)

lemma ship_pass_inv:
  assumes inv: "ship_inv cfg ever gone (current sp w) w"
    and run: "ship_pass cfg now sp w = (err, sp', w')"
  shows "\<exists>new. ship_inv cfg (ever @ new) gone (current sp' w') w' \<and> sw_log w' = sw_log w @ new"
proof -
  obtain a w1 where r: "(if sp_state sp = None then read_log w else (True, w)) = (a, w1)" by force
  have g: "grows w w1" using r read_log_grows [of w a w1] by (auto split: if_splits)
  have inv1: "ship_inv cfg ever gone (current sp w) w1" "current sp w1 = current sp w"
    using ship_inv_grows [OF inv g] by (simp_all add: current_def grows_reads [OF g] split: option.split)
  note run = run [unfolded ship_pass_def Let_def r prod.case]
  show ?thesis
  proof (cases a)
    case False
    with run have "sp' = sp" "w' = w1" by simp_all
    with inv1 g show ?thesis by (intro exI [of _ "[]"]) (simp add: grows_def)
  next
    case True
    obtain err1 st1 sp1 w2 where l: "ship_loaded cfg now (current sp w1) sp w1 = (err1, st1, sp1, w2)"
      by (metis prod_cases4)
    obtain new where new: "ship_inv cfg (ever @ new) gone st1 w2" "sw_log w2 = sw_log w1 @ new"
      using ship_loaded_inv [OF _ l] inv1 by auto
    have "(sp_state sp' = Some st1 \<and> w' = w2) \<or>
        (\<exists>e. save_state st1 (sp1\<lparr>sp_state := Some st1\<rparr>) w2 = (e, sp', w'))"
      using run True l by (auto simp: current_def split: if_splits prod.splits)
    then have "sp_state sp' = Some st1" "ship_inv cfg (ever @ new) gone st1 w'" "sw_log w' = sw_log w2"
      using new(1) by (auto dest: save_state_memory save_state_inv [OF new(1)] save_state_log)
    with new g show ?thesis by (auto simp: current_def grows_def)
  qed
qed

subsection \<open>Retiring and trimming\<close>

lemma keep_new_covers: "set held \<union> set rs \<subseteq> set (keep_new held rs)"
  by (induction held rs rule: keep_new.induct) auto

lemma keep_ranges_covers:
  "set (ranges_in files) \<union> set rs \<subseteq> set (ranges_in (keep_ranges rs day files))"
proof (induction files)
  case Nil
  then show ?case using keep_new_covers [of "[]" rs] by (auto simp: ranges_in_def)
next
  case (Cons f files)
  then show ?case using keep_new_covers [of "snd f" rs] by (cases f) (auto simp: ranges_in_def; blast)
qed

lemma retire_spec:
  assumes "retire now w = (err, n, w')"
  shows "sw_log w' = sw_log w \<and> sw_on_chain w' = sw_on_chain w \<and> sw_direct w' = sw_direct w \<and>
    set (retired_ranges w) \<subseteq> set (retired_ranges w') \<and>
    (sw_kept w' = sw_kept w \<or>
      sw_kept w' = Some ((load_state w)\<lparr>sh_retired := sh_retired (load_state w) + int n, sh_pending := [],
        sh_joinable := False\<rparr>) \<and> set (sh_pending (load_state w)) \<subseteq> set (retired_ranges w'))"
  using assms keep_ranges_covers [of "sw_retired w" "sh_pending (load_state w)" "utc_day now"]
  by (auto simp: retire_def read_log_def load_state_def retired_ranges_def Let_def split: prod.splits if_splits)

lemma retire_inv:
  assumes inv: "ship_inv cfg ever gone (load_state w) w" and run: "retire now w = (err, n, w')"
  shows "ship_inv cfg ever gone (load_state w') w'"
proof -
  note spec = retire_spec [OF run]
  have "state_ok cfg ever w (load_state w)" using inv by (simp add: ship_inv_def)
  then have okay: "state_ok cfg ever w' (load_state w)" by (rule state_ok_mono) (use spec in auto)
  show ?thesis
  proof (cases "sw_kept w' = sw_kept w")
    case True
    then have "load_state w' = load_state w" by (simp add: load_state_def)
    with inv okay spec show ?thesis by (simp add: ship_inv_def)
  next
    case False
    then have st: "load_state w' = (load_state w)\<lparr>sh_retired := sh_retired (load_state w) + int n, sh_pending := [],
        sh_joinable := False\<rparr>" and kept: "set (sh_pending (load_state w)) \<subseteq> set (retired_ranges w')"
      using spec by (auto simp: load_state_def)
    have "state_ok cfg ever w' (load_state w')"
      using okay in_ranges_mono [OF _ kept] by (auto simp: state_ok_def handed_def st)
    moreover have "free_upto (load_state w') gone"
      using inv by (auto simp: ship_inv_def free_upto_def st)
    ultimately show ?thesis using inv spec by (simp add: ship_inv_def)
  qed
qed

lemma event_trim_inv:
  assumes inv: "ship_inv cfg ever gone st w"
  shows "\<exists>gone. ship_inv cfg ever gone st (event_trim keep cursors w)"
proof (cases "trim_up_to keep (head_seq w) cursors (load_state w)")
  case None
  with inv show ?thesis by (auto simp: event_trim_def)
next
  case (Some u)
  note cut = trim_up_to_le [OF Some]
  have inv': "in_order ever" "sw_log w = filter (\<lambda>e. gone < ev_seq e) ever"
    "ever = [] \<or> gone < ev_seq (last ever)" "free_upto st gone" "free_upto (load_state w) gone"
    "state_ok cfg ever w (load_state w)" "state_ok cfg ever w st"
    "\<And>n. free_upto (load_state w) n \<Longrightarrow> free_upto st n"
    using inv by (simp_all add: ship_inv_def)
  have "u < r_from r" if "r \<in> set (sh_pending (load_state w))" for r
  proof -
    have "0 < r_from r" using inv'(6) that by (simp add: state_ok_def)
    with cut(5) that show ?thesis by (metis not_le word_pred_less)
  qed
  then have free: "free_upto (load_state w) u" using cut by (simp add: free_upto_def)
  define g where "g = max gone u"
  have frees: "free_upto (load_state w) g" "free_upto st g"
    using free inv'(4,5,8) by (simp_all add: g_def max_def)
  have log: "dropWhile (\<lambda>e. ev_seq e \<le> u) (sw_log w) = filter (\<lambda>e. g < ev_seq e) ever"
    using inv'(1,2) by (simp add: dropWhile_in_order in_order_filter g_def conj_commute)
  have "sw_log w \<noteq> []" using cut(2) by (auto simp: head_seq_def)
  then have "last (sw_log w) \<in> set ever" "head_seq w = ev_seq (last (sw_log w))"
    using inv'(2) last_in_set [of "sw_log w"] by (auto simp: head_seq_def)
  then have "u < ev_seq (last ever)" "ever \<noteq> []"
    using cut(2) in_order_le_last [OF inv'(1)] by (auto intro: less_le_trans)
  then have "g < ev_seq (last ever)" using inv'(3) by (auto simp: g_def)
  moreover have "event_trim keep cursors w = w\<lparr>sw_log := dropWhile (\<lambda>e. ev_seq e \<le> u) (sw_log w)\<rparr>"
    using Some by (simp add: event_trim_def)
  moreover have "load_state (w\<lparr>sw_log := l\<rparr>) = load_state w"
    and "state_ok cfg ever (w\<lparr>sw_log := l\<rparr>) s = state_ok cfg ever w s" for l s
    by (simp_all add: load_state_def state_ok_def retired_ranges_def)
  ultimately have "ship_inv cfg ever g st (event_trim keep cursors w)"
    using inv' frees log by (simp add: ship_inv_def)
  then show ?thesis ..
qed

subsection \<open>The shipper's life\<close>

definition fresh_shipper :: shipper where
  "fresh_shipper = \<lparr>sp_state = None, sp_unsaved = False, sp_last_sent = 0\<rparr>"

definition new_world :: ship_world where
  "new_world = \<lparr>sw_log = [], sw_kept = None, sw_on_chain = [], sw_direct = [], sw_retired = [],
     sw_read_ok = [], sw_seal_ok = [], sw_chain_ok = [], sw_direct_ok = [], sw_keep_ok = [], sw_clock = []\<rparr>"

text \<open>
  The events the log ever held, the shipper and the world, after any run of: an event appended
  by another, with a later seq; the answers of the calls to come, whatever they are; a pass;
  the follower started anew; the pending ranges retired while it is stopped; a trim.
\<close>

inductive ship_run :: "ship_config \<Rightarrow> event list \<Rightarrow> shipper \<Rightarrow> ship_world \<Rightarrow> bool" for cfg where
  begins: "ship_run cfg [] fresh_shipper new_world"
| logged: "ship_run cfg ever sp w \<Longrightarrow> 0 < ev_seq e \<Longrightarrow> (\<forall>d \<in> set ever. ev_seq d < ev_seq e) \<Longrightarrow>
    ship_run cfg (ever @ [e]) sp (w\<lparr>sw_log := sw_log w @ [e]\<rparr>)"
| answered: "ship_run cfg ever sp w \<Longrightarrow>
    ship_run cfg ever sp (w\<lparr>sw_read_ok := a, sw_seal_ok := b, sw_chain_ok := c, sw_direct_ok := d,
      sw_keep_ok := k, sw_clock := t\<rparr>)"
| passed: "ship_run cfg ever sp w \<Longrightarrow> ship_pass cfg now sp w = (err, sp', w') \<Longrightarrow>
    ship_run cfg (ever @ drop (length (sw_log w)) (sw_log w')) sp' w'"
| restarted: "ship_run cfg ever sp w \<Longrightarrow> ship_run cfg ever fresh_shipper w"
| retired: "ship_run cfg ever sp w \<Longrightarrow> retire now w = (err, n, w') \<Longrightarrow> ship_run cfg ever fresh_shipper w'"
| trimmed: "ship_run cfg ever sp w \<Longrightarrow> ship_run cfg ever sp (event_trim keep cursors w)"

lemma ship_inv_load: "ship_inv cfg ever gone st w \<Longrightarrow> ship_inv cfg ever gone (load_state w) w"
  by (simp add: ship_inv_def)

lemma current_fresh: "current fresh_shipper w = load_state w"
  by (simp add: current_def fresh_shipper_def)

lemma ship_run_inv: "ship_run cfg ever sp w \<Longrightarrow> \<exists>gone. ship_inv cfg ever gone (current sp w) w"
proof (induction rule: ship_run.induct)
  case begins
  have "ship_inv cfg [] 0 (current fresh_shipper new_world) new_world"
    by (auto simp: ship_inv_def state_ok_def free_upto_def handed_def in_order_def current_def
        fresh_shipper_def new_world_def load_state_def zero_state_def)
  then show ?case ..
next
  case (logged ever sp w e)
  then obtain gone where "ship_inv cfg ever gone (current sp w) w" by blast
  from ship_inv_append [OF this logged.hyps(2,3)]
  have "ship_inv cfg (ever @ [e]) gone (current sp w) (w\<lparr>sw_log := sw_log w @ [e]\<rparr>)" .
  moreover have "current sp (w\<lparr>sw_log := sw_log w @ [e]\<rparr>) = current sp w"
    by (rule current_cong) (simp add: load_state_def)
  ultimately show ?case by auto
next
  case (answered ever sp w t k d c b a)
  then obtain gone where "ship_inv cfg ever gone (current sp w) w" by blast
  moreover have g: "grows w (w\<lparr>sw_read_ok := a, sw_seal_ok := b, sw_chain_ok := c,
      sw_direct_ok := d, sw_keep_ok := k, sw_clock := t\<rparr>)" by (simp add: grows_def)
  ultimately have "ship_inv cfg ever gone (current sp w) (w\<lparr>sw_read_ok := a, sw_seal_ok := b,
      sw_chain_ok := c, sw_direct_ok := d, sw_keep_ok := k, sw_clock := t\<rparr>)" by (rule ship_inv_grows)
  then show ?case unfolding current_cong [OF grows_reads(1) [OF g], of sp, symmetric] ..
next
  case (passed ever sp w now err sp' w')
  then obtain gone where "ship_inv cfg ever gone (current sp w) w" by blast
  from ship_pass_inv [OF this passed.hyps(2)] show ?case by auto
next
  case (restarted ever sp w)
  then show ?case using ship_inv_load by (metis current_fresh)
next
  case (retired ever sp w now err n w')
  then show ?case using ship_inv_load retire_inv by (metis current_fresh)
next
  case (trimmed ever sp w keep cursors)
  then obtain gone where "ship_inv cfg ever gone (current sp w) w" by blast
  then obtain g where "ship_inv cfg ever g (current sp w) (event_trim keep cursors w)"
    using event_trim_inv by blast
  moreover have "current sp (event_trim keep cursors w) = current sp w"
    by (rule current_cong) (simp add: event_trim_def load_state_def split: option.split)
  ultimately show ?case by auto
qed

text \<open>C3. Whatever the calls answer, in any order of passes, restarts, retires, trims and
  events appended by others, every event the log ever held whose seq the shipper's state counts
  as sent (up to \<open>Shipped\<close>, or among \<open>Urgent\<close>) has been put on chain or delivered in a batch.
  With the chain in use, each such event outside the emergency lane is on chain, or still in a
  pending range, or in a range a retire moved to the archive.\<close>

theorem shipped_events_are_sent:
  assumes "ship_run cfg ever sp w" "e \<in> set ever" "handed (current sp w) (ev_seq e)"
  shows "sent_in (sw_on_chain w @ sw_direct w) e \<and>
    (sc_chain cfg \<and> ev_lane e \<noteq> LaneEmergency \<longrightarrow>
       sent_in (sw_on_chain w) e \<or> in_ranges (sh_pending (current sp w)) (ev_seq e) \<or>
       in_ranges (retired_ranges w) (ev_seq e))"
proof -
  obtain gone where "ship_inv cfg ever gone (current sp w) w" using ship_run_inv [OF assms(1)] by blast
  then have "state_ok cfg ever w (current sp w)" by (simp add: ship_inv_def)
  with assms(2,3) show ?thesis unfolding state_ok_def by blast
qed

text \<open>C4. No trim takes an event the shipper still needs: every event the log ever held that is
  past \<open>Shipped\<close>, or at or past the start of a pending range, is still in the log, however far
  the state in memory is from the one kept, and after any restart.\<close>

theorem needed_events_stay:
  assumes "ship_run cfg ever sp w" "e \<in> set ever"
    and "sh_shipped (current sp w) < ev_seq e \<or> (\<exists>r \<in> set (sh_pending (current sp w)). r_from r \<le> ev_seq e)"
  shows "e \<in> set (sw_log w)"
proof -
  obtain gone where "ship_inv cfg ever gone (current sp w) w" using ship_run_inv [OF assms(1)] by blast
  then have log: "sw_log w = filter (\<lambda>e. gone < ev_seq e) ever" and free: "free_upto (current sp w) gone"
    by (simp_all add: ship_inv_def)
  from free assms(3) have "gone < ev_seq e" by (auto simp: free_upto_def intro: le_less_trans less_le_trans)
  with log assms(2) show ?thesis by simp
qed

subsection \<open>Nothing sent is forgotten, and no emergency waits\<close>

text \<open>What a state counts as sent, another counts too.\<close>

definition keeps_handed :: "ship_state \<Rightarrow> ship_state \<Rightarrow> bool" where
  "keeps_handed st st' \<longleftrightarrow> (\<forall>n. handed st n \<longrightarrow> handed st' n)"

lemma keeps_handed_refl [simp]: "keeps_handed st st"
  by (simp add: keeps_handed_def)

lemma keeps_handed_trans: "keeps_handed st st1 \<Longrightarrow> keeps_handed st1 st2 \<Longrightarrow> keeps_handed st st2"
  by (simp add: keeps_handed_def)

lemma keeps_handed_fields:
  "sh_shipped st' = sh_shipped st \<Longrightarrow> sh_urgent st' = sh_urgent st \<Longrightarrow> keeps_handed st st'"
  by (simp add: keeps_handed_def handed_def)

lemma keeps_handed_after_batch:
  assumes "0 \<notin> set (sh_urgent st)" "sh_shipped st \<le> r_to r"
  shows "keeps_handed st (after_batch cfg c r st)"
proof -
  let ?st = "st\<lparr>sh_shipped := r_to r\<rparr>"
  have "handed (after_batch cfg c r st) n = handed ?st n" for n
  proof -
    have "handed (step_over ?st) n = handed ?st n" by (rule step_over_spec(1)) (use assms(1) in simp)
    moreover have "handed (keep_for_chain s r) n = handed s n" for s by (simp add: handed_def)
    ultimately show ?thesis by (simp add: after_batch_def Let_def)
  qed
  then have now: "handed (after_batch cfg c r st) n \<longleftrightarrow> n \<le> r_to r \<or> n \<in> set (sh_urgent st)" for n
    unfolding handed_def [of ?st] by simp
  show ?thesis
    unfolding keeps_handed_def now handed_def [of st] using assms(2) by (blast intro: order_trans)
qed

lemma retry_one_handed:
  "retry_one cfg evs st sp w = (next, st', sp', w') \<Longrightarrow> keeps_handed st st'"
  by (rule keeps_handed_fields)
     (auto simp: retry_one_def Let_def split: prod.splits option.splits bool.splits if_splits)

lemma retry_one_handed':
  "(next, st', sp', w') = retry_one cfg evs st sp w \<Longrightarrow> keeps_handed st st'"
  by (rule retry_one_handed) (rule sym)

lemma retry_pending_handed:
  "retry_pending cfg began tried evs st sp w = (down, st', sp', w') \<Longrightarrow> keeps_handed st st'"
proof (induction cfg began tried evs st sp w rule: retry_pending.induct)
  case (1 cfg began tried evs st sp w)
  note run = "1.prems" [unfolded retry_pending.simps [of cfg began tried evs st sp w]]
  obtain t w1 where t: "(t, w1) = (if tried then clock w else (began, w))" by (metis surj_pair)
  obtain nxt st1 sp1 w2 where one: "retry_one cfg evs st sp w1 = (nxt, st1, sp1, w2)" by (metis prod_cases4)
  show ?case
  proof (cases "(\<not> sc_chain cfg \<or> sh_pending st = [] \<or> sc_daily_cap cfg \<le> sh_chain st) \<or>
      tried \<and> ShipRetryBudget \<le> time_sub t began")
    case True
    with run t [symmetric] show ?thesis by (auto split: if_splits)
  next
    case False
    show ?thesis
    proof (cases nxt)
      case (Inl d)
      with run t [symmetric] one False show ?thesis by (auto split: if_splits dest: retry_one_handed)
    next
      case (Inr evs')
      then have "retry_pending cfg began True evs' st1 sp1 w2 = (down, st', sp', w')"
        using run t [symmetric] one False by (auto split: if_splits)
      from "1.IH" [OF _ t refl _ one [symmetric] Inr refl refl this] False
      show ?thesis using retry_one_handed [OF one] keeps_handed_trans by blast
    qed
  qed
qed

lemma raise_alarm_handed: "raise_alarm cfg st now w = (st', w') \<Longrightarrow> keeps_handed st st'"
  by (rule keeps_handed_fields) (auto simp: raise_alarm_def Let_def split: prod.splits)

lemma direct_batch_handed:
  assumes "0 \<notin> set (sh_urgent st)" "sh_shipped st \<le> ev_seq (last evs)"
    and "direct_batch cfg evs over c now st sp w = (err, st', sp', w')"
  shows "keeps_handed st st'"
proof -
  define r where "r = \<lparr>r_from = ev_seq (hd evs), r_to = ev_seq (last evs)\<rparr>"
  obtain s1 w1 where s: "seal evs (if c then LaneNormal else LaneFallback) w = (s1, w1)" by force
  note run = assms(3) [unfolded direct_batch_def Let_def s, folded r_def]
  show ?thesis
  proof (cases s1)
    case (Some b)
    obtain d w2 where d: "deliver b w1 = (d, w2)" by force
    define st2 where "st2 = after_batch cfg c r st"
    have after: "keeps_handed st st2"
      using keeps_handed_after_batch [OF assms(1), of r cfg c] assms(2) by (simp add: st2_def r_def)
    obtain st3 w3 where alarm: "(if over \<and> \<not> sh_alarmed st2 then raise_alarm cfg st2 now w2
        else (st2, w2)) = (st3, w3)" by force
    have "keeps_handed st2 st3" using alarm raise_alarm_handed by (auto split: if_splits)
    moreover have "st' = st \<or> st' = st3"
      using run [unfolded Some option.case prod.case d, folded st2_def, unfolded alarm prod.case]
      by (auto split: if_splits prod.splits)
    ultimately show ?thesis using after by (auto intro: keeps_handed_trans)
  qed (use run in simp)
qed

lemma send_batch_handed:
  assumes "0 \<notin> set (sh_urgent st)" "sh_shipped st \<le> ev_seq (last evs)"
    and "send_batch cfg evs down now st sp w = (err, st', sp', w')"
  shows "keeps_handed st st'"
proof -
  define over where "over = (sc_chain cfg \<and> \<not> down \<and> sc_daily_cap cfg \<le> sh_chain st)"
  obtain c w1 where c: "chain_batch evs (sc_chain cfg \<and> \<not> down \<and> \<not> over) w = (c, w1)" by force
  note run = assms(3) [unfolded send_batch_def Let_def, folded over_def, unfolded c prod.case]
  show ?thesis
  proof (cases c)
    case (Some on)
    define st1 where "st1 = (if on then st\<lparr>sh_chain := sh_chain st + 1\<rparr> else st)"
    have "keeps_handed st1 st'"
      using run Some assms(1,2) by (intro direct_batch_handed [of st1]) (auto simp: st1_def)
    moreover have "keeps_handed st st1" by (rule keeps_handed_fields) (simp_all add: st1_def)
    ultimately show ?thesis by (blast intro: keeps_handed_trans)
  qed (use run in simp)
qed

lemma ship_rest_handed:
  assumes inv: "ship_inv cfg ever gone st w" and le: "n \<le> sh_shipped st"
    and unsent: "unsent = filter (\<lambda>e. n < ev_seq e) ever"
    and run: "ship_rest cfg unsent down now st sp w = (err, st', sp', w')"
  shows "keeps_handed st st'"
proof -
  obtain began w1 where cl: "(if down then (0, w) else clock w) = (began, w1)" by force
  have "grows w w1" using cl clock_grows [of w began w1] by (auto split: if_splits)
  with inv have inv1: "ship_inv cfg ever gone st w1" by (blast intro: ship_inv_grows)
  obtain down' st2 sp2 w2 where re: "(if down then (True, st, sp, w1)
      else retry_pending cfg began False [] st sp w1) = (down', st2, sp2, w2)" by (metis prod_cases4)
  have inv2: "ship_inv cfg ever gone st2 w2" "sh_shipped st2 = sh_shipped st" "keeps_handed st st2"
    using re inv1 retry_pending_inv [OF inv1, where evs = "[]"] retry_pending_handed
    by (cases down, simp_all add: rest_of_def)+
  obtain st3 evs where ub: "unsent_batch st2 unsent = (st3, evs)" by force
  have ge: "n \<le> sh_shipped st2" using le inv2 by simp
  note us = unsent_batch_spec [OF inv2(1) ge ub [unfolded unsent]]
  have inv3: "ship_inv cfg ever gone st3 w2" and st3: "keeps_handed st st3"
    using ship_inv_step_over [OF inv2(1)] step_over_spec(1) [OF ship_inv_urgent [OF inv2(1)]] us(1) inv2(3)
    by (simp_all add: keeps_handed_def)
  obtain left where cut: "filter (\<lambda>e. sh_shipped st3 < ev_seq e) ever = cut_batch (sc_codec cfg) evs @ left"
    using us(2) by blast
  note run = run [unfolded ship_rest_def Let_def cl re prod.case ub]
  show ?thesis
  proof (cases "cut_batch (sc_codec cfg) evs = [] \<or> \<not> batch_due sp2 (length (cut_batch (sc_codec cfg) evs)) now")
    case True
    then show ?thesis using run st3 by (auto split: if_splits prod.splits)
  next
    case False
    then have ne: "cut_batch (sc_codec cfg) evs \<noteq> []" by blast
    then have "last (cut_batch (sc_codec cfg) evs) \<in> set (filter (\<lambda>e. sh_shipped st3 < ev_seq e) ever)"
      unfolding cut by simp
    then have "sh_shipped st3 \<le> ev_seq (last (cut_batch (sc_codec cfg) evs))" by (simp add: less_imp_le)
    with False run st3 send_batch_handed [OF ship_inv_urgent [OF inv3]] show ?thesis
      by (auto intro: keeps_handed_trans)
  qed
qed

text \<open>A pass that ends without an error, or fails only after its emergencies, has sent them all.\<close>

lemma ship_loaded_emergencies:
  assumes inv: "ship_inv cfg ever gone st w"
    and run: "ship_loaded cfg now st sp w = (None, st', sp', w')"
    and e: "e \<in> set ever" "ev_lane e = LaneEmergency"
  shows "handed st' (ev_seq e)"
proof -
  define st0 where "st0 = roll_day st now"
  have inv0: "ship_inv cfg ever gone st0 w" using ship_inv_roll_day [OF inv] by (simp add: st0_def)
  obtain a1 w1 where r1: "read_log w = (a1, w1)" by force
  note g1 = read_log_grows [OF r1]
  note inv1 = ship_inv_grows [OF inv0 g1]
  define behind where "behind = (sh_shipped st0 < head_seq w1)"
  obtain a2 w2 where r2: "(if behind then read_log w1 else (True, w1)) = (a2, w2)" by force
  have g2: "grows w1 w2" using r2 read_log_grows [of w1 a2 w2] by (auto split: if_splits)
  note inv2 = ship_inv_grows [OF inv1 g2]
  define unsent where "unsent = (if behind then log_since w2 (sh_shipped st0) else [])"
  have unsent: "unsent = filter (\<lambda>e. sh_shipped st0 < ev_seq e) ever"
    using unsent_seqs [OF inv2] g2 by (simp add: unsent_def behind_def grows_reads)
  note run = run [unfolded ship_loaded_def Let_def r1 prod.case, folded st0_def, folded behind_def,
      unfolded r2 prod.case, folded unsent_def]
  have oks: "a1" "a2" using run by (auto split: if_splits)
  obtain down err1 st1 sp1 w3 where em: "send_emergencies cfg unsent False st0 sp w2 = (down, err1, st1, sp1, w3)"
    by (metis prod_cases5)
  have "in_order unsent" "set unsent \<subseteq> set ever" "\<forall>e \<in> set unsent. sh_shipped st0 < ev_seq e"
    "\<forall>d \<in> set ever. d \<notin> set unsent \<and> ev_lane d = LaneEmergency \<longrightarrow> handed st0 (ev_seq d)"
    using in_order_filter [OF ship_inv_in_order [OF inv]] by (auto simp: unsent handed_def)
  note emer = send_emergencies_inv [OF inv2 this em]
  have none: "err1 = None" using run oks em by (cases err1) auto
  with run oks em have "ship_rest cfg unsent down now st1 sp1 w3 = (None, st', sp', w')" by simp
  from ship_rest_handed [OF _ _ unsent this] emer have "keeps_handed st1 st'" by blast
  with emer none e show ?thesis by (simp add: keeps_handed_def)
qed

text \<open>C5. An emergency never waits: a pass that returns no error leaves no emergency event of the
  log unsent; every one the log ever held has been put on chain or delivered by then, whatever
  the window, the pending batches, the day's cap and the chain say.\<close>

theorem no_emergency_waits:
  assumes "ship_run cfg ever sp w" "ship_pass cfg now sp w = (None, sp', w')"
    and "e \<in> set ever" "ev_lane e = LaneEmergency"
  shows "sent_in (sw_on_chain w' @ sw_direct w') e"
proof -
  obtain gone where inv: "ship_inv cfg ever gone (current sp w) w" using ship_run_inv [OF assms(1)] by blast
  obtain a w1 where r: "(if sp_state sp = None then read_log w else (True, w)) = (a, w1)" by force
  have g: "grows w w1" using r read_log_grows [of w a w1] by (auto split: if_splits)
  have inv1: "ship_inv cfg ever gone (current sp w1) w1"
    using ship_inv_grows [OF inv g] current_cong [OF grows_reads(1) [OF g]] by simp
  note run = assms(2) [unfolded ship_pass_def Let_def r prod.case]
  have a: "a" using run by (auto split: if_splits)
  obtain err1 st1 sp1 w2 where l: "ship_loaded cfg now (current sp w1) sp w1 = (err1, st1, sp1, w2)"
    by (metis prod_cases4)
  have fin: "err1 = None \<and> sp_state sp' = Some st1"
    using run a l by (auto simp: current_def dest: save_state_memory split: if_splits prod.splits)
  then have "handed st1 (ev_seq e)" using ship_loaded_emergencies [OF inv1 _ assms(3,4)] l by blast
  moreover have "current sp' w' = st1" using fin by (simp add: current_def)
  moreover have "ship_run cfg (ever @ drop (length (sw_log w)) (sw_log w')) sp' w'"
    using assms(1,2) by (rule passed)
  then obtain g' where "ship_inv cfg (ever @ drop (length (sw_log w)) (sw_log w')) g' (current sp' w') w'"
    using ship_run_inv by blast
  then have "state_ok cfg (ever @ drop (length (sw_log w)) (sw_log w')) w' (current sp' w')"
    by (simp add: ship_inv_def)
  ultimately show ?thesis using assms(3) unfolding state_ok_def by auto
qed

text \<open>A run: two events, a pass whose chain is down and whose backend answers, and a trim.\<close>

definition demo_cfg :: ship_config where
  "demo_cfg = \<lparr>sc_chain = True, sc_daily_cap = 500, sc_emergency_cap = 20, sc_host = ''mill'', sc_codec = seq_codec\<rparr>"

definition demo_first :: event where "demo_first = demo_event 1 Start BeadOpen"
definition demo_second :: event where "demo_second = demo_event 2 BeadOpen BeadClaimed"

definition demo_world :: ship_world where
  "demo_world = new_world\<lparr>sw_log := [demo_first, demo_second], sw_read_ok := [True, True, True],
     sw_seal_ok := [True, True], sw_chain_ok := [False], sw_direct_ok := [True], sw_keep_ok := [True],
     sw_clock := [100]\<rparr>"

definition demo_pass :: "ship_error option \<times> shipper \<times> ship_world" where
  "demo_pass = ship_pass demo_cfg 100 fresh_shipper demo_world"

definition demo_shipper :: shipper where "demo_shipper = fst (snd demo_pass)"
definition demo_after :: ship_world where "demo_after = snd (snd demo_pass)"

lemma demo_run: "ship_run demo_cfg [demo_first, demo_second] demo_shipper demo_after"
proof -
  have "ship_run demo_cfg ([] @ [demo_first]) fresh_shipper
      (new_world\<lparr>sw_log := sw_log new_world @ [demo_first]\<rparr>)"
    by (rule logged [OF begins]) (simp_all add: demo_first_def demo_event_def)
  then have "ship_run demo_cfg (([] @ [demo_first]) @ [demo_second]) fresh_shipper
      (new_world\<lparr>sw_log := sw_log new_world @ [demo_first]\<rparr>\<lparr>sw_log :=
         sw_log (new_world\<lparr>sw_log := sw_log new_world @ [demo_first]\<rparr>) @ [demo_second]\<rparr>)"
    by (rule logged) (simp_all add: demo_first_def demo_second_def demo_event_def)
  from answered [OF this, of "[100]" "[True]" "[True]" "[False]" "[True, True]" "[True, True, True]"]
  have "ship_run demo_cfg [demo_first, demo_second] fresh_shipper demo_world"
    by (simp add: demo_world_def new_world_def)
  moreover have "ship_pass demo_cfg 100 fresh_shipper demo_world = (fst demo_pass, demo_shipper, demo_after)"
    by (simp add: demo_pass_def demo_shipper_def demo_after_def)
  ultimately have "ship_run demo_cfg ([demo_first, demo_second] @
      drop (length (sw_log demo_world)) (sw_log demo_after)) demo_shipper demo_after"
    by (rule passed)
  moreover have "drop (length (sw_log demo_world)) (sw_log demo_after) = []" by code_simp
  ultimately show ?thesis by simp
qed

lemma shipped_events_are_sent_witness:
  "sent_in (sw_on_chain demo_after @ sw_direct demo_after) demo_second \<and>
   in_ranges (sh_pending (current demo_shipper demo_after)) 2"
proof -
  have "handed (current demo_shipper demo_after) (ev_seq demo_second)" by code_simp
  from shipped_events_are_sent [OF demo_run _ this]
  have "sent_in (sw_on_chain demo_after @ sw_direct demo_after) demo_second" by simp
  moreover have "in_ranges (sh_pending (current demo_shipper demo_after)) 2" by code_simp
  ultimately show ?thesis ..
qed

lemma needed_events_stay_witness:
  "sh_shipped (current demo_shipper demo_after) = 2 \<and> demo_second \<in> set (sw_log demo_after)"
proof -
  have "\<exists>r \<in> set (sh_pending (current demo_shipper demo_after)). r_from r \<le> ev_seq demo_second" by code_simp
  with needed_events_stay [OF demo_run, of demo_second]
  have "demo_second \<in> set (sw_log demo_after)" by simp
  moreover have "sh_shipped (current demo_shipper demo_after) = 2" by code_simp
  ultimately show ?thesis by simp
qed

definition demo_urgent :: event where "demo_urgent = demo_first\<lparr>ev_lane := LaneEmergency\<rparr>"

definition demo_alarm_world :: ship_world where
  "demo_alarm_world = demo_world\<lparr>sw_log := [demo_urgent]\<rparr>"

definition demo_alarm_pass :: "ship_error option \<times> shipper \<times> ship_world" where
  "demo_alarm_pass = ship_pass demo_cfg 100 fresh_shipper demo_alarm_world"

lemma no_emergency_waits_witness:
  "sent_in (sw_on_chain (snd (snd demo_alarm_pass)) @ sw_direct (snd (snd demo_alarm_pass))) demo_urgent"
proof -
  have "ship_run demo_cfg ([] @ [demo_urgent]) fresh_shipper
      (new_world\<lparr>sw_log := sw_log new_world @ [demo_urgent]\<rparr>)"
    by (rule logged [OF begins]) (simp_all add: demo_urgent_def demo_first_def demo_event_def)
  from answered [OF this, of "[100]" "[True]" "[True]" "[False]" "[True, True]" "[True, True, True]"]
  have run: "ship_run demo_cfg [demo_urgent] fresh_shipper demo_alarm_world"
    by (simp add: demo_alarm_world_def demo_world_def new_world_def)
  have "fst demo_alarm_pass = None" by code_simp
  then have "ship_pass demo_cfg 100 fresh_shipper demo_alarm_world =
      (None, fst (snd demo_alarm_pass), snd (snd demo_alarm_pass))"
    by (simp add: demo_alarm_pass_def prod_eq_iff)
  from no_emergency_waits [OF run this, of demo_urgent] show ?thesis
    by (simp add: demo_urgent_def)
qed

end
