(* ===== verification/Changelog.thy ===== *)
theory Changelog
  imports Acceptance
begin

text \<open>
  \<^verbatim>\<open>domain/changelog.go\<close>: the What's new: line of a closing comment, and the two
  changelogs of a rig.  What \<open>encoding/json\<close> makes of the bytes of the JSON one, and the
  bytes it makes of a list of entries, are parameters of the two functions that read and write
  it; what they do to the entries is modelled in full, and so is the markdown changelog.
\<close>

abbreviation ChangelogNew :: string where "ChangelogNew \<equiv> ''new''"
abbreviation ChangelogFixed :: string where "ChangelogFixed \<equiv> ''fixed''"

definition apostrophe :: char where "apostrophe = CHR 0x27"

definition ChangelogTitle :: string where
  "ChangelogTitle = ''# What'' @ [apostrophe] @ ''s new''"

definition WhatsNewMarker :: string where
  "WhatsNewMarker = ''What'' @ [apostrophe] @ ''s new:''"

record entry =
  e_version :: string
  e_date :: string
  e_story :: string
  e_kind :: string
  e_text :: string

record whats_new =
  wn_kind :: string
  wn_text :: string
  wn_none :: bool

subsection \<open>The What's new: line\<close>

text \<open>U+2019, the apostrophe a word processor writes.\<close>

definition curly :: string where "curly = [CHR 0xE2, CHR 0x80, CHR 0x99]"

definition tab :: char where "tab = CHR 0x09"
definition backtick :: char where "backtick = CHR 0x60"

text \<open>\<open>TrimLeft\<close> of the blanks and marks a note's line may open with, the bullet among them.\<close>

fun trim_marks :: "string \<Rightarrow> string" where
  "trim_marks [] = []"
| "trim_marks (c # s) =
     (if c \<in> set ('' '' @ [tab] @ ''-*+_'' @ [backtick] @ ''>'') then trim_marks s
      else if has_prefix (c # s) bullet then trim_marks (drop 2 s)
      else c # s)"

definition after_whats_new :: "string \<Rightarrow> string option" where
  "after_whats_new line0 =
     (let line = trim_marks (trim_list_marker (replace_all line0 curly [apostrophe]));
          n = length WhatsNewMarker
      in if length line < n \<or> \<not> equal_fold (take n line) WhatsNewMarker then None
         else Some (drop n line))"

definition kind_of_note :: "string \<Rightarrow> string \<Rightarrow> whats_new \<Rightarrow> string \<times> string \<Rightarrow> whats_new" where
  "kind_of_note rest kind note kw =
     (let word = snd kw; n = length word
      in if n < length rest \<and> equal_fold (take n rest) word
         then note\<lparr>wn_kind := fst kw, wn_text := join '' '' (str_fields (drop n rest))\<rparr>
         else note)"

definition read_note :: "string \<Rightarrow> whats_new option" where
  "read_note rest0 =
     (let rest = trim_set rest0 ('' '' @ [tab] @ ''*_'' @ [backtick])
      in if rest = [] then None
         else if equal_fold (trim_set rest ('' .*_'' @ [backtick])) ''none''
         then Some \<lparr>wn_kind = [], wn_text = [], wn_none = True\<rparr>
         else let note = \<lparr>wn_kind = [], wn_text = join '' '' (str_fields rest), wn_none = False\<rparr>;
                  note = kind_of_note rest [] note (ChangelogNew, ''new:'');
                  note = kind_of_note rest [] note (ChangelogFixed, ''fixed:'')
              in if wn_text note = [] then None else Some note)"

definition whats_new_line :: "whats_new option \<Rightarrow> string \<Rightarrow> whats_new option" where
  "whats_new_line found line =
     (case Option.bind (after_whats_new line) read_note of None \<Rightarrow> found | Some note \<Rightarrow> Some note)"

definition parse_whats_new :: "string \<Rightarrow> whats_new option" where
  "parse_whats_new comment = foldl whats_new_line None (split_on (CHR 0x0A) comment)"

fun newest_whats_new :: "string list \<Rightarrow> whats_new option" where
  "newest_whats_new [] = None"
| "newest_whats_new (newest # older) =
     (case parse_whats_new newest of Some note \<Rightarrow> Some note | None \<Rightarrow> newest_whats_new older)"

lemma length_trim_space: "length (trim_space s) \<le> length s"
  using trim_right_space_prefix [of "trim_left_space s"] length_trim_left_space [of s]
  unfolding trim_space_def by (metis add_leD1 dual_order.trans length_append)

text \<open>The loop of \<open>NoteFromTitle\<close>.\<close>

function strip_tags :: "string \<Rightarrow> string \<Rightarrow> string" where
  "strip_tags rig title =
     (if has_prefix title ''['' then
        (case index_of title '']'' of
           None \<Rightarrow> title
         | Some i \<Rightarrow> strip_tags rig (trim_space (drop (Suc i) title)))
      else if title \<noteq> [] \<and> rig \<noteq> [] \<and> has_prefix (to_lower title) (to_lower rig @ '':'') then
        strip_tags rig (trim_space (drop (Suc (length rig)) title))
      else title)"
  by pat_completeness auto
termination
proof (relation "measure (\<lambda>(_, t). length t)")
  fix rig title :: string and i
  assume "has_prefix title ''[''"
  then have "title \<noteq> []" by (auto simp: has_prefix_iff)
  then have "length (drop (Suc i) title) < length title" by simp
  then show "((rig, trim_space (drop (Suc i) title)), rig, title) \<in> measure (\<lambda>(_, t). length t)"
    using length_trim_space [of "drop (Suc i) title"] by simp
next
  fix rig title :: string
  assume "title \<noteq> [] \<and> rig \<noteq> [] \<and> has_prefix (to_lower title) (to_lower rig @ '':'')"
  then have "length (drop (Suc (length rig)) title) < length title" by simp
  then show "((rig, trim_space (drop (Suc (length rig)) title)), rig, title)
      \<in> measure (\<lambda>(_, t). length t)"
    using length_trim_space [of "drop (Suc (length rig)) title"] by simp
qed simp

declare strip_tags.simps [simp del]

definition note_from_title :: "string \<Rightarrow> string \<Rightarrow> string" where
  "note_from_title title rig = strip_tags rig (join '' '' (str_fields title))"

subsection \<open>The JSON changelog\<close>

type_synonym decoder = "string \<Rightarrow> entry list option"
type_synonym encoder = "entry list \<Rightarrow> string option"

datatype changelog_error =
    NotEntries
  | NotEncoded

definition changelog_entries :: "decoder \<Rightarrow> string \<Rightarrow> (changelog_error, entry list) result" where
  "changelog_entries decode existing =
     (if 0 < length (trim_space existing)
      then (case decode existing of None \<Rightarrow> Inl NotEntries | Some es \<Rightarrow> Inr es)
      else Inr [])"

definition add_entry :: "entry list \<Rightarrow> entry \<Rightarrow> entry list" where
  "add_entry entries e =
     (let entries = (case entries of
            [] \<Rightarrow> []
          | upper # rest \<Rightarrow>
              if (e_story upper = e_story e \<and> e_story e \<noteq> []) \<or> e_text upper = e_text e
              then rest else entries)
      in e # filter (\<lambda>old. e_story e = [] \<or> e_version old \<noteq> e_version e \<or> e_story old \<noteq> e_story e)
           entries)"

definition add_to_changelog_json ::
  "decoder \<Rightarrow> encoder \<Rightarrow> string \<Rightarrow> entry \<Rightarrow> (changelog_error, string) result"
where
  "add_to_changelog_json decode encode existing e =
     (case changelog_entries decode existing of
        Inl err \<Rightarrow> Inl err
      | Inr entries \<Rightarrow>
          (case encode (add_entry entries e) of None \<Rightarrow> Inl NotEncoded | Some out \<Rightarrow> Inr out))"

fun tidy_entries :: "(string \<times> string) list \<Rightarrow> entry list \<Rightarrow> entry list \<times> string list" where
  "tidy_entries seen [] = ([], [])"
| "tidy_entries seen (e # es) =
     (let key = (e_version e, e_story e)
      in if e_story e \<noteq> [] \<and> List.member seen key
         then (case tidy_entries seen es of
                 (kept, removed) \<Rightarrow> (kept, (e_version e @ '' '' @ e_story e) # removed))
         else (case tidy_entries (key # seen) es of (kept, removed) \<Rightarrow> (e # kept, removed)))"

definition tidy_changelog_json ::
  "decoder \<Rightarrow> encoder \<Rightarrow> string \<Rightarrow> (changelog_error, string \<times> string list) result"
where
  "tidy_changelog_json decode encode existing =
     (case changelog_entries decode existing of
        Inl err \<Rightarrow> Inl err
      | Inr entries \<Rightarrow>
          (case tidy_entries [] entries of
             (kept, removed) \<Rightarrow>
               if length removed = 0 then Inr (existing, [])
               else (case encode kept of
                       None \<Rightarrow> Inl NotEncoded | Some tidied \<Rightarrow> Inr (tidied, removed))))"

subsection \<open>The markdown changelog\<close>

abbreviation nl :: char where "nl \<equiv> CHR 0x0A"

definition first_version_heading :: "string \<Rightarrow> nat option" where
  "first_version_heading txt =
     (if has_prefix txt ''## '' then Some 0
      else map_option Suc (index_of txt (nl # ''## '')))"

lemma index_of_bound: "index_of s sub = Some i \<Longrightarrow> i + length sub \<le> length s"
proof (induction s arbitrary: i)
  case (Cons a s)
  then show ?case
    by (auto simp: has_prefix_iff split: if_splits dest: arg_cong [of _ _ length])
qed (auto split: if_splits)

function version_blocks :: "string \<Rightarrow> string list" where
  "version_blocks rest =
     (case first_version_heading (drop 3 rest) of
        None \<Rightarrow> [rest]
      | Some n \<Rightarrow> take (3 + n) rest # version_blocks (drop (3 + n) rest))"
  by pat_completeness auto
termination
proof (relation "measure length")
  fix rest :: string and n
  assume "first_version_heading (drop 3 rest) = Some n"
  then have "rest \<noteq> []" by (auto simp: first_version_heading_def has_prefix_def)
  then show "(drop (3 + n) rest, rest) \<in> measure length" by simp
qed simp

declare version_blocks.simps [simp del]

definition block_heading :: "string \<Rightarrow> string" where
  "block_heading block = trim_space (fst (cut block [nl]))"

definition is_date_line :: "string \<Rightarrow> bool" where
  "is_date_line line0 \<longleftrightarrow>
     (let line = trim_space line0
      in 2 < length line \<and> has_prefix line ''_'' \<and> has_suffix line ''_'')"

definition block_parts :: "string \<Rightarrow> string list \<times> string list \<times> string" where
  "block_parts block =
     (let body = trim_right_set block [nl];
          tail = drop (length body) block;
          every = split_on nl body;
          c = (if 1 < length every \<and> is_date_line (every ! 1) then 2 else 1)
      in (take c every, drop c every, tail))"

definition block_says :: "string \<Rightarrow> string \<Rightarrow> bool" where
  "block_says block txt \<longleftrightarrow>
     list_ex (\<lambda>line. list_ex (\<lambda>kind. trim_space line = ''- '' @ kind @ '': '' @ txt) [''New'', ''Fixed''])
       (split_on nl block)"

definition with_line :: "string \<Rightarrow> string \<Rightarrow> string \<Rightarrow> string \<Rightarrow> string" where
  "with_line block line date txt =
     (case block_parts block of
        (upper, lines, tail) \<Rightarrow>
          let upper = take 1 upper @ [''_'' @ date @ ''_''];
              said = list_ex (\<lambda>had. block_says had txt) lines;
              lines = map (\<lambda>had. if block_says had txt then line else had) lines;
              lines = (if \<not> said then line # lines else lines)
          in join [nl] (upper @ lines) @ tail)"

definition without_line :: "string \<Rightarrow> string \<Rightarrow> string" where
  "without_line block txt =
     (case block_parts block of
        (upper, lines, tail) \<Rightarrow>
          let kept = filter (\<lambda>line. \<not> block_says line txt) lines;
              left = list_ex (\<lambda>line. trim_space line \<noteq> []) kept
          in if \<not> left then [] else join [nl] (upper @ kept) @ tail)"

text \<open>The loop of \<open>foldBlock\<close>: the lines put so far and the trimmed ones held.\<close>

definition fold_line :: "string list \<times> string list \<Rightarrow> string \<Rightarrow> string list \<times> string list" where
  "fold_line st line =
     (case st of (lines, held) \<Rightarrow>
        let said = trim_space line
        in if said \<noteq> [] \<and> \<not> List.member held said then (lines @ [line], said # held)
           else (lines, held))"

definition fold_block :: "string \<Rightarrow> string \<Rightarrow> string" where
  "fold_block first later =
     (case block_parts first of (upper, lines, _) \<Rightarrow>
      case block_parts later of (_, others, tail) \<Rightarrow>
        let (lines, _) = foldl fold_line (lines, map trim_space lines) others
        in join [nl] (upper @ lines) @ tail)"

definition entry_line :: "entry \<Rightarrow> string" where
  "entry_line e =
     ''- '' @ (if e_kind e = ChangelogFixed then ''Fixed'' else ''New'') @ '': '' @ e_text e"

definition entry_block :: "entry \<Rightarrow> string" where
  "entry_block e =
     ''## '' @ e_version e @ [nl] @ ''_'' @ e_date e @ ''_'' @ [nl] @ entry_line e @ [nl]"

text \<open>The file once no block of its own takes the entry: the head, the text and the rest.\<close>

definition put_block :: "string \<Rightarrow> string \<Rightarrow> string \<Rightarrow> string \<Rightarrow> string" where
  "put_block head txt rest block =
     (if trim_space head \<noteq> [] \<and> (rest \<noteq> [] \<or> has_prefix (trim_space head) ''# '')
      then trim_right_set head [nl] @ [nl, nl] @ block @ (if rest \<noteq> [] then nl # rest else [])
      else let (first, after, _) = cut txt [nl];
               txt = (if trim_space first = ChangelogTitle then after else txt);
               txt = trim_left_set txt [nl];
               out = ChangelogTitle @ [nl, nl] @ block
           in if trim_space txt \<noteq> [] then out @ [nl] @ txt else out)"

definition add_to_changelog_markdown :: "string \<Rightarrow> entry \<Rightarrow> string" where
  "add_to_changelog_markdown existing e =
     (case first_version_heading existing of
        None \<Rightarrow> put_block existing existing [] (entry_block e)
      | Some i \<Rightarrow>
          let head = take i existing; rest = drop i existing;
              blocks = version_blocks rest; newest = hd blocks
          in if block_heading newest = ''## '' @ e_version e
             then head @ concat (with_line newest (entry_line e) (e_date e) (e_text e) # tl blocks)
             else if block_says newest (e_text e)
             then let rest = concat (without_line newest (e_text e) # tl blocks)
                  in put_block head (head @ rest) rest (entry_block e)
             else put_block head existing rest (entry_block e))"

text \<open>The loop of \<open>TidyChangelogMarkdown\<close>: the blocks kept and the versions folded.\<close>

definition tidy_block :: "string list \<times> string list \<Rightarrow> string \<Rightarrow> string list \<times> string list" where
  "tidy_block st block =
     (case st of (kept, folded) \<Rightarrow>
        if kept = [] \<or> block_heading (last kept) \<noteq> block_heading block
        then (kept @ [block], folded)
        else let version = trim_prefix (block_heading block) ''## '';
                 folded = (if folded = [] \<or> last folded \<noteq> version then folded @ [version] else folded)
             in (butlast kept @ [fold_block (last kept) block], folded))"

definition tidy_changelog_markdown :: "string \<Rightarrow> string \<times> string list" where
  "tidy_changelog_markdown existing =
     (case first_version_heading existing of
        None \<Rightarrow> (existing, [])
      | Some i \<Rightarrow>
          (case foldl tidy_block ([], []) (version_blocks (drop i existing)) of
             (kept, folded) \<Rightarrow>
               if length folded = 0 then (existing, [])
               else (take i existing @ concat kept, folded)))"

subsection \<open>Blocks lose nothing\<close>

lemma concat_version_blocks: "concat (version_blocks rest) = rest"
proof (induction rest rule: version_blocks.induct)
  case (1 rest)
  then show ?case
    by (cases "first_version_heading (drop 3 rest)") (simp_all add: version_blocks.simps [of rest])
qed

lemma version_blocks_nonempty [simp]: "version_blocks rest \<noteq> []"
  by (subst version_blocks.simps) (simp split: option.split)

lemma has_prefix_drop_heading:
  "first_version_heading txt = Some n \<Longrightarrow> has_prefix (drop n txt) ''## ''"
proof (cases "has_prefix txt ''## ''")
  case False
  assume "first_version_heading txt = Some n"
  with False obtain i where i: "index_of txt (nl # ''## '') = Some i" "n = Suc i"
    by (auto simp: first_version_heading_def)
  have "take i txt @ drop i txt = take i txt @ ((nl # ''## '') @ drop (i + 4) txt)"
    using index_of_Some [OF i(1)] by (simp add: eval_nat_numeral)
  then have "drop i txt = (nl # ''## '') @ drop (i + 4) txt" by (simp only: same_append_eq)
  then have "drop n txt = ''## '' @ drop (i + 4) txt"
    by (metis drop_Suc i(2) list.sel(3) tl_drop append_Cons)
  then show ?thesis by (simp only: has_prefix_append)
qed (auto simp: first_version_heading_def)

text \<open>C30. Cutting a changelog into its version blocks loses no byte of it: the blocks put
  together are what was cut, and each begins with a heading when the first does.\<close>

theorem version_blocks_lossless:
  assumes "has_prefix rest ''## ''"
  shows "concat (version_blocks rest) = rest \<and>
     list_all (\<lambda>block. has_prefix block ''## '') (version_blocks rest)"
proof -
  have "list_all (\<lambda>block. has_prefix block ''## '') (version_blocks rest)"
    using assms
  proof (induction rest rule: version_blocks.induct)
    case (1 rest)
    show ?case
    proof (cases "first_version_heading (drop 3 rest)")
      case None
      then show ?thesis using "1.prems" by (simp add: version_blocks.simps [of rest])
    next
      case (Some n)
      have "has_prefix (drop (3 + n) rest) ''## ''"
        using has_prefix_drop_heading [OF Some] by (simp add: add.commute)
      moreover have "has_prefix (take (3 + n) rest) ''## ''"
        using "1.prems" by (auto simp: has_prefix_iff numeral_3_eq_3)
      ultimately show ?thesis using "1.IH" [OF Some] Some by (simp add: version_blocks.simps [of rest])
    qed
  qed
  then show ?thesis by (simp add: concat_version_blocks)
qed

subsection \<open>One entry for a version and story\<close>









lemma version_blocks_lossless_witness:
  "concat (version_blocks (''## 1.1.0'' @ [nl] @ ''## 1.0.0'')) = ''## 1.1.0'' @ [nl] @ ''## 1.0.0''"
  using version_blocks_lossless [of "''## 1.1.0'' @ [nl] @ ''## 1.0.0''"]
  by (simp only: has_prefix_def) simp

end
