(* ===== verification/PathModel.thy ===== *)
theory PathModel
  imports GoNumbers
begin

text \<open>
  \<^verbatim>\<open>domain/path.go\<close>: the path a story is worked by.  A path is a record of twelve texts;
  its fields are read and written by name, which is how it goes into and comes out of a
  bead's metadata, a story's overrides are laid over the epic's defaults field by field,
  and \<open>Validate\<close> gives the first reason a path cannot be worked.  The turn caps are Go
  \<open>int\<close>s, modelled as integers: every value is one of the table's, a caller's, or read
  by \<open>strconv.Atoi\<close>, and none is computed with.
\<close>

abbreviation HarnessClaude :: string where "HarnessClaude \<equiv> ''claude''"
abbreviation HarnessCodex :: string where "HarnessCodex \<equiv> ''codex''"
abbreviation ModelFable :: string where "ModelFable \<equiv> ''fable''"
abbreviation ModelOpus :: string where "ModelOpus \<equiv> ''opus''"
abbreviation ModelSonnet :: string where "ModelSonnet \<equiv> ''sonnet''"
abbreviation ModelHaiku :: string where "ModelHaiku \<equiv> ''haiku''"
abbreviation EffortLow :: string where "EffortLow \<equiv> ''low''"
abbreviation EffortMedium :: string where "EffortMedium \<equiv> ''medium''"
abbreviation EffortHigh :: string where "EffortHigh \<equiv> ''high''"
abbreviation EffortXHigh :: string where "EffortXHigh \<equiv> ''xhigh''"
abbreviation EffortMax :: string where "EffortMax \<equiv> ''max''"
abbreviation SizeXS :: string where "SizeXS \<equiv> ''XS''"
abbreviation SizeS :: string where "SizeS \<equiv> ''S''"
abbreviation SizeM :: string where "SizeM \<equiv> ''M''"
abbreviation SizeL :: string where "SizeL \<equiv> ''L''"
abbreviation SizeXL :: string where "SizeXL \<equiv> ''XL''"
abbreviation BumpMinor :: string where "BumpMinor \<equiv> ''minor''"
abbreviation CallersOKField :: string where "CallersOKField \<equiv> ''callers_ok''"
abbreviation HostAuto :: string where "HostAuto \<equiv> ''auto''"

subsection \<open>Sizes\<close>

definition sizes :: "string list" where
  "sizes = [SizeXS, SizeS, SizeM, SizeL, SizeXL]"

definition known_size :: "string \<Rightarrow> bool" where
  "known_size s \<longleftrightarrow> List.member sizes s"

definition callers_allowed :: "string \<Rightarrow> int" where
  "callers_allowed s =
     (if s = SizeXS then 5 else if s = SizeS then 10 else if s = SizeM then 20
      else if s = SizeL then 35 else if s = SizeXL then 50 else 0)"

definition files_allowed :: "string \<Rightarrow> int" where
  "files_allowed s =
     (if s = SizeXS then 4 else if s = SizeS then 8 else if s = SizeM then 12
      else if s = SizeL then 16 else if s = SizeXL then 24 else 0)"

definition size_turn_cap :: "string \<Rightarrow> int" where
  "size_turn_cap s =
     (if s = SizeXS then 60 else if s = SizeS then 90 else if s = SizeM then 120
      else if s = SizeL then 160 else if s = SizeXL then 200 else 0)"

definition size_big :: "string \<Rightarrow> bool" where
  "size_big s \<longleftrightarrow> s = SizeL \<or> s = SizeXL"

subsection \<open>Paths and their fields\<close>

record path =
  p_rig :: string
  p_branch :: string
  p_harness :: string
  p_model :: string
  p_effort :: string
  p_formula :: string
  p_host :: string
  p_files :: string
  p_max_turns :: string
  p_size :: string
  p_bump :: string
  p_callers_ok :: string

definition empty_path :: path where
  "empty_path = \<lparr>p_rig = [], p_branch = [], p_harness = [], p_model = [], p_effort = [],
     p_formula = [], p_host = [], p_files = [], p_max_turns = [], p_size = [], p_bump = [],
     p_callers_ok = []\<rparr>"

datatype path_error =
    ErrRigRequired
  | ErrBranchRequired
  | ErrHarnessRequired
  | ErrModelRequired
  | ErrEffortRequired
  | UnknownValue string string
  | UnknownField string
  | FormulaNotInstalled string "string list"

definition path_fields :: "string list" where
  "path_fields = [''rig'', ''branch'', ''harness'', ''model'', ''effort'', ''formula'', ''host'',
     ''files'', ''max_turns'', ''size'', ''bump'']"

definition path_set :: "path \<Rightarrow> string \<Rightarrow> string \<Rightarrow> (path_error, path) result" where
  "path_set p field v =
     (if field = ''rig'' then Inr (p\<lparr>p_rig := v\<rparr>)
      else if field = ''branch'' then Inr (p\<lparr>p_branch := v\<rparr>)
      else if field = ''harness'' then Inr (p\<lparr>p_harness := v\<rparr>)
      else if field = ''model'' then Inr (p\<lparr>p_model := v\<rparr>)
      else if field = ''effort'' then Inr (p\<lparr>p_effort := v\<rparr>)
      else if field = ''formula'' then Inr (p\<lparr>p_formula := v\<rparr>)
      else if field = ''host'' then Inr (p\<lparr>p_host := v\<rparr>)
      else if field = ''files'' then Inr (p\<lparr>p_files := v\<rparr>)
      else if field = ''max_turns'' then Inr (p\<lparr>p_max_turns := v\<rparr>)
      else if field = ''size'' then Inr (p\<lparr>p_size := v\<rparr>)
      else if field = ''bump'' then Inr (p\<lparr>p_bump := v\<rparr>)
      else if field = CallersOKField then Inr (p\<lparr>p_callers_ok := v\<rparr>)
      else Inl (UnknownField field))"

definition path_field :: "path \<Rightarrow> string \<Rightarrow> (path_error, string) result" where
  "path_field p field =
     (if field = ''rig'' then Inr (p_rig p)
      else if field = ''branch'' then Inr (p_branch p)
      else if field = ''harness'' then Inr (p_harness p)
      else if field = ''model'' then Inr (p_model p)
      else if field = ''effort'' then Inr (p_effort p)
      else if field = ''formula'' then Inr (p_formula p)
      else if field = ''host'' then Inr (p_host p)
      else if field = ''files'' then Inr (p_files p)
      else if field = ''max_turns'' then Inr (p_max_turns p)
      else if field = ''size'' then Inr (p_size p)
      else if field = ''bump'' then Inr (p_bump p)
      else if field = CallersOKField then Inr (p_callers_ok p)
      else Inl (UnknownField field))"

text \<open>The metadata of a path: a Go map, built one field at a time.\<close>

type_synonym metadata = "string \<Rightarrow> string option"

definition put_field :: "path \<Rightarrow> metadata \<Rightarrow> string \<Rightarrow> metadata" where
  "put_field p m field =
     (case path_field p field of
        Inl _ \<Rightarrow> m
      | Inr v \<Rightarrow> if v = [] then m else m(field \<mapsto> v))"

definition path_metadata :: "path \<Rightarrow> metadata" where
  "path_metadata p =
     (let m = foldl (put_field p) Map.empty path_fields
      in if p_callers_ok p \<noteq> [] then m(CallersOKField \<mapsto> p_callers_ok p) else m)"

text \<open>
  \<open>PathFromMetadata\<close> ranges over a Go map, in no order of its own: the entries are given
  in the order they happen to come.
\<close>

definition take_field :: "path \<Rightarrow> string \<times> string \<Rightarrow> path" where
  "take_field p kv = (case path_set p (fst kv) (snd kv) of Inl _ \<Rightarrow> p | Inr q \<Rightarrow> q)"

definition path_from_metadata :: "(string \<times> string) list \<Rightarrow> path" where
  "path_from_metadata entries = foldl take_field empty_path entries"

subsection \<open>The summary line\<close>

definition joined :: "string \<Rightarrow> string list \<Rightarrow> string" where
  "joined sep values = join sep (filter (\<lambda>v. v \<noteq> []) values)"

text \<open>The middle dot U+00B7 between two blanks.\<close>

definition mid_dot :: string where "mid_dot = '' '' @ [CHR 0xC2, CHR 0xB7] @ '' ''"

definition path_summary :: "path \<Rightarrow> string" where
  "path_summary p =
     (let whr = joined ''/'' [p_rig p, p_branch p];
          who = joined ''/'' [p_harness p, p_model p, p_effort p];
          parts = (if whr \<noteq> [] then [whr] else []) @ (if who \<noteq> [] then [who] else []) @
                  (if p_formula p \<noteq> [] then [p_formula p] else []) @
                  (if p_host p \<noteq> [] then [p_host p] else [])
      in if parts = [] then ''no path'' else join mid_dot parts)"

subsection \<open>Overlay\<close>

definition overlay :: "path \<Rightarrow> path \<Rightarrow> path" where
  "overlay p ov =
     (let p = (if p_rig ov \<noteq> [] then p\<lparr>p_rig := p_rig ov\<rparr> else p);
          p = (if p_branch ov \<noteq> [] then p\<lparr>p_branch := p_branch ov\<rparr> else p);
          p = (if p_harness ov \<noteq> [] then p\<lparr>p_harness := p_harness ov\<rparr> else p);
          p = (if p_model ov \<noteq> [] then p\<lparr>p_model := p_model ov\<rparr> else p);
          p = (if p_effort ov \<noteq> [] then p\<lparr>p_effort := p_effort ov\<rparr> else p);
          p = (if p_formula ov \<noteq> [] then p\<lparr>p_formula := p_formula ov\<rparr> else p);
          p = (if p_host ov \<noteq> [] then p\<lparr>p_host := p_host ov\<rparr> else p);
          p = (if p_files ov \<noteq> [] then p\<lparr>p_files := p_files ov\<rparr> else p);
          p = (if p_max_turns ov \<noteq> [] then p\<lparr>p_max_turns := p_max_turns ov\<rparr> else p);
          p = (if p_size ov \<noteq> [] then p\<lparr>p_size := p_size ov\<rparr> else p);
          p = (if p_bump ov \<noteq> [] then p\<lparr>p_bump := p_bump ov\<rparr> else p);
          p = (if p_callers_ok ov \<noteq> [] then p\<lparr>p_callers_ok := p_callers_ok ov\<rparr> else p)
      in p)"

subsection \<open>Turn caps\<close>

definition path_turns :: "path \<Rightarrow> int option" where
  "path_turns p =
     (if p_max_turns p = [] then None
      else (case num_ok (atoi (p_max_turns p)) of
              None \<Rightarrow> None
            | Some turns \<Rightarrow> if turns < 0 then None else Some turns))"

definition turn_cap :: "path \<Rightarrow> int \<Rightarrow> int" where
  "turn_cap p host_cap =
     (case path_turns p of
        Some turns \<Rightarrow> turns
      | None \<Rightarrow> if 0 < size_turn_cap (p_size p) then size_turn_cap (p_size p) else host_cap)"

definition turn_cap_under :: "path \<Rightarrow> int \<Rightarrow> int" where
  "turn_cap_under p ceiling =
     (case path_turns p of
        Some turns \<Rightarrow> turns
      | None \<Rightarrow>
          if ceiling \<le> 0 then 0
          else if 0 < size_turn_cap (p_size p) \<and> size_turn_cap (p_size p) < ceiling
          then size_turn_cap (p_size p)
          else ceiling)"

subsection \<open>Validation\<close>

definition known_harness :: "string \<Rightarrow> bool" where
  "known_harness h \<longleftrightarrow> h = HarnessClaude \<or> h = HarnessCodex"

definition CodexModelPrefix :: string where "CodexModelPrefix = ''gpt-''"

definition known_model :: "string \<Rightarrow> string \<Rightarrow> bool" where
  "known_model h m \<longleftrightarrow>
     (if h = HarnessClaude then List.member [ModelFable, ModelOpus, ModelSonnet, ModelHaiku] m
      else if h = HarnessCodex
      then length CodexModelPrefix < length m \<and> has_prefix m CodexModelPrefix
      else False)"

definition full_model_id :: "string \<Rightarrow> string" where
  "full_model_id m =
     (if m = ModelFable then ''claude-fable-5-1''
      else if m = ModelOpus then ''claude-opus-5-5''
      else if m = ModelSonnet then ''claude-sonnet-5-5''
      else if m = ModelHaiku then ''claude-haiku-5-5''
      else [])"

definition known_effort :: "string \<Rightarrow> bool" where
  "known_effort e \<longleftrightarrow> List.member [EffortLow, EffortMedium, EffortHigh, EffortXHigh, EffortMax] e"

definition path_validate :: "path \<Rightarrow> path_error option" where
  "path_validate p =
     (if p_rig p = [] then Some ErrRigRequired
      else if p_branch p = [] then Some ErrBranchRequired
      else if p_harness p = [] then Some ErrHarnessRequired
      else if \<not> known_harness (p_harness p) then Some (UnknownValue ''harness'' (p_harness p))
      else if p_model p = [] then Some ErrModelRequired
      else if \<not> known_model (p_harness p) (p_model p) then Some (UnknownValue ''model'' (p_model p))
      else if p_effort p = [] then Some ErrEffortRequired
      else if \<not> known_effort (p_effort p) then Some (UnknownValue ''effort'' (p_effort p))
      else if p_max_turns p \<noteq> [] \<and> path_turns p = None
      then Some (UnknownValue ''max_turns'' (p_max_turns p))
      else if p_size p \<noteq> [] \<and> \<not> known_size (p_size p) then Some (UnknownValue ''size'' (p_size p))
      else if p_bump p \<noteq> [] \<and> p_bump p \<noteq> BumpMinor then Some (UnknownValue ''bump'' (p_bump p))
      else None)"

definition validate_formula :: "path \<Rightarrow> string list \<Rightarrow> path_error option" where
  "validate_formula p installed =
     (if p_formula p = [] then None
      else if List.member installed (p_formula p) then None
      else Some (FormulaNotInstalled (p_formula p) installed))"

record story =
  st_id :: string
  st_title :: string
  st_overrides :: path

definition story_path_from :: "story \<Rightarrow> path \<Rightarrow> (path_error, path) result" where
  "story_path_from s defaults =
     (let p = overlay defaults (st_overrides s)
      in case path_validate p of Some e \<Rightarrow> Inl e | None \<Rightarrow> Inr p)"

subsection \<open>Values kept by name\<close>

text \<open>
  What the metadata of a bead and the overrides of a story rely on: a value read and
  written by field name, where a write changes the field it names and no other, an
  unknown name is refused by both, and two values with the same fields are the same.
\<close>

locale keyed_fields =
  fixes get :: "'s \<Rightarrow> 'k \<Rightarrow> ('e, 'v) result"
    and put :: "'s \<Rightarrow> 'k \<Rightarrow> 'v \<Rightarrow> ('e, 's) result"
    and known :: "'k \<Rightarrow> bool"
  assumes get_known: "ok (get s k) \<longleftrightarrow> known k"
    and put_known: "ok (put s k v) \<longleftrightarrow> known k"
    and get_put: "put s k v = Inr t \<Longrightarrow> get t j = (if j = k then Inr v else get s j)"
    and same_fields: "(\<And>k. known k \<Longrightarrow> get s k = get t k) \<Longrightarrow> s = t"
begin

definition take :: "'s \<Rightarrow> 'k \<times> 'v \<Rightarrow> 's" where
  "take s kv = (case put s (fst kv) (snd kv) of Inl _ \<Rightarrow> s | Inr t \<Rightarrow> t)"

lemma get_take: "known k \<Longrightarrow> get (take s (j, v)) k = (if k = j then Inr v else get s k)"
proof (cases "put s j v")
  case (Inl e)
  then have "\<not> known j" using put_known [of s j v] by simp
  then show "known k \<Longrightarrow> ?thesis" using Inl by (auto simp: take_def)
next
  case (Inr t)
  then show "known k \<Longrightarrow> ?thesis" by (simp add: take_def get_put)
qed

lemma get_foldl_take:
  assumes "distinct (map fst es)" "known k"
  shows "get (foldl take s es) k = (case map_of es k of Some v \<Rightarrow> Inr v | None \<Rightarrow> get s k)"
  using assms(1)
proof (induction es arbitrary: s)
  case (Cons e es)
  obtain j v where e: "e = (j, v)" by (cases e)
  with Cons.prems have j: "j \<notin> fst ` set es" by simp
  then have "map_of es j = None" by (simp add: map_of_eq_None_iff)
  with Cons e show ?case using assms(2) by (auto simp: get_take split: option.splits)
qed simp

lemma foldl_take_eq:
  assumes "distinct (map fst es)"
    and "\<And>k. known k \<Longrightarrow> get t k = (case map_of es k of Some v \<Rightarrow> Inr v | None \<Rightarrow> get s k)"
  shows "foldl take s es = t"
  by (rule same_fields) (simp add: get_foldl_take [OF assms(1)] assms(2))

end

definition known_field :: "string \<Rightarrow> bool" where
  "known_field f \<longleftrightarrow> List.member path_fields f \<or> f = CallersOKField"

lemmas path_field_defs = path_field_def path_set_def known_field_def path_fields_def

lemma known_field_cases:
  assumes "known_field f"
  obtains "f = ''rig''" | "f = ''branch''" | "f = ''harness''" | "f = ''model''"
    | "f = ''effort''" | "f = ''formula''" | "f = ''host''" | "f = ''files''"
    | "f = ''max_turns''" | "f = ''size''" | "f = ''bump''" | "f = CallersOKField"
proof -
  have "f = ''rig'' \<or> f = ''branch'' \<or> f = ''harness'' \<or> f = ''model'' \<or> f = ''effort'' \<or>
      f = ''formula'' \<or> f = ''host'' \<or> f = ''files'' \<or> f = ''max_turns'' \<or> f = ''size'' \<or>
      f = ''bump'' \<or> f = CallersOKField"
    using assms unfolding known_field_def path_fields_def List.member_iff list.set
      insert_iff empty_iff by simp
  then show thesis by (elim disjE) (erule that)+
qed

lemma path_field_simps [simp]:
  "path_field p ''rig'' = Inr (p_rig p)"
  "path_field p ''branch'' = Inr (p_branch p)"
  "path_field p ''harness'' = Inr (p_harness p)"
  "path_field p ''model'' = Inr (p_model p)"
  "path_field p ''effort'' = Inr (p_effort p)"
  "path_field p ''formula'' = Inr (p_formula p)"
  "path_field p ''host'' = Inr (p_host p)"
  "path_field p ''files'' = Inr (p_files p)"
  "path_field p ''max_turns'' = Inr (p_max_turns p)"
  "path_field p ''size'' = Inr (p_size p)"
  "path_field p ''bump'' = Inr (p_bump p)"
  "path_field p ''callers_ok'' = Inr (p_callers_ok p)"
  by (simp_all add: path_field_def)

lemma path_set_simps [simp]:
  "path_set p ''rig'' v = Inr (p\<lparr>p_rig := v\<rparr>)"
  "path_set p ''branch'' v = Inr (p\<lparr>p_branch := v\<rparr>)"
  "path_set p ''harness'' v = Inr (p\<lparr>p_harness := v\<rparr>)"
  "path_set p ''model'' v = Inr (p\<lparr>p_model := v\<rparr>)"
  "path_set p ''effort'' v = Inr (p\<lparr>p_effort := v\<rparr>)"
  "path_set p ''formula'' v = Inr (p\<lparr>p_formula := v\<rparr>)"
  "path_set p ''host'' v = Inr (p\<lparr>p_host := v\<rparr>)"
  "path_set p ''files'' v = Inr (p\<lparr>p_files := v\<rparr>)"
  "path_set p ''max_turns'' v = Inr (p\<lparr>p_max_turns := v\<rparr>)"
  "path_set p ''size'' v = Inr (p\<lparr>p_size := v\<rparr>)"
  "path_set p ''bump'' v = Inr (p\<lparr>p_bump := v\<rparr>)"
  "path_set p ''callers_ok'' v = Inr (p\<lparr>p_callers_ok := v\<rparr>)"
  by (simp_all add: path_set_def)

lemma unknown_field:
  assumes "\<not> known_field f"
  shows "path_field p f = Inl (UnknownField f)" "path_set p f v = Inl (UnknownField f)"
  using assms by (simp_all add: path_field_def path_set_def known_field_def path_fields_def)

lemma known_field_names [simp]:
  "known_field ''rig''" "known_field ''branch''" "known_field ''harness''" "known_field ''model''"
  "known_field ''effort''" "known_field ''formula''" "known_field ''host''" "known_field ''files''"
  "known_field ''max_turns''" "known_field ''size''" "known_field ''bump''" "known_field ''callers_ok''"
  by (simp_all add: known_field_def path_fields_def)

lemma path_field_ok: "ok (path_field p f) \<longleftrightarrow> known_field f"
proof (cases "known_field f")
  case True
  then show ?thesis by (cases rule: known_field_cases) simp_all
qed (simp add: unknown_field)

lemma path_set_ok: "ok (path_set p f v) \<longleftrightarrow> known_field f"
proof (cases "known_field f")
  case True
  then show ?thesis by (cases rule: known_field_cases) simp_all
qed (simp add: unknown_field)

lemma path_field_set:
  assumes "path_set p f v = Inr q"
  shows "path_field q g = (if g = f then Inr v else path_field p g)"
proof -
  have "known_field f" using assms path_set_ok [of p f v] by simp
  then show ?thesis
  proof (cases "known_field g")
    case True
    with \<open>known_field f\<close> assms show ?thesis
      by (cases rule: known_field_cases; cases rule: known_field_cases [OF True]) auto
  next
    case False
    with \<open>known_field f\<close> show ?thesis by (auto simp: unknown_field)
  qed
qed

lemma path_ext:
  assumes "\<And>f. known_field f \<Longrightarrow> path_field p f = path_field q f"
  shows "p = q"
  using assms [of "''rig''"] assms [of "''branch''"] assms [of "''harness''"] assms [of "''model''"]
    assms [of "''effort''"] assms [of "''formula''"] assms [of "''host''"] assms [of "''files''"]
    assms [of "''max_turns''"] assms [of "''size''"] assms [of "''bump''"] assms [of "CallersOKField"]
  by simp

interpretation pf: keyed_fields path_field path_set known_field
  by unfold_locales (simp_all add: path_field_ok path_set_ok path_field_set path_ext)

subsection \<open>Metadata and overlay\<close>

definition set_value :: "path \<Rightarrow> string \<Rightarrow> string option" where
  "set_value p f = (case path_field p f of Inl _ \<Rightarrow> None | Inr v \<Rightarrow> if v = [] then None else Some v)"

lemma foldl_put_field:
  "foldl (put_field p) m fs f =
     (if List.member fs f \<and> set_value p f \<noteq> None then set_value p f else m f)"
  by (induction fs arbitrary: m)
    (auto simp: put_field_def set_value_def split: sum.splits)

lemma path_metadata_value: "path_metadata p f = set_value p f"
proof -
  have "set_value p f = None" if "\<not> known_field f"
    using that by (simp add: set_value_def unknown_field)
  moreover have "set_value p CallersOKField = (if p_callers_ok p = [] then None else Some (p_callers_ok p))"
    by (simp add: set_value_def)
  moreover have "\<not> List.member path_fields CallersOKField" by (simp add: path_fields_def)
  ultimately show ?thesis
    by (auto simp: path_metadata_def foldl_put_field known_field_def Let_def)
qed

lemma path_from_metadata_take: "path_from_metadata es = foldl pf.take empty_path es"
  by (simp add: path_from_metadata_def take_field_def [abs_def] pf.take_def [abs_def])

lemma field_of_empty: "known_field f \<Longrightarrow> path_field empty_path f = Inr []"
  by (erule known_field_cases) (simp_all add: empty_path_def)

lemma path_field_set_value:
  assumes "known_field f"
  shows "path_field p f = (case set_value p f of None \<Rightarrow> Inr [] | Some v \<Rightarrow> Inr v)"
  using assms path_field_ok [of p f] by (auto simp: set_value_def ok_iff)

text \<open>C23. A path survives its bead: whatever order Go's map gives the metadata in, and
  whatever other keys the bead carries beside them, reading the metadata a path was stored
  as gives that path back.\<close>

theorem metadata_round_trip:
  assumes "distinct (map fst entries)"
    and "\<And>f. known_field f \<Longrightarrow> map_of entries f = path_metadata p f"
  shows "path_from_metadata entries = p"
  unfolding path_from_metadata_take
proof (rule pf.foldl_take_eq [OF assms(1)])
  fix f assume f: "known_field f"
  show "path_field p f =
      (case map_of entries f of Some v \<Rightarrow> Inr v | None \<Rightarrow> path_field empty_path f)"
    using f by (simp add: assms(2) path_metadata_value path_field_set_value [of _ p]
        field_of_empty split: option.splits)
qed

lemma set_value_simps [simp]:
  "set_value p ''rig'' = (if p_rig p = [] then None else Some (p_rig p))"
  "set_value p ''branch'' = (if p_branch p = [] then None else Some (p_branch p))"
  "set_value p ''harness'' = (if p_harness p = [] then None else Some (p_harness p))"
  "set_value p ''model'' = (if p_model p = [] then None else Some (p_model p))"
  "set_value p ''effort'' = (if p_effort p = [] then None else Some (p_effort p))"
  "set_value p ''formula'' = (if p_formula p = [] then None else Some (p_formula p))"
  "set_value p ''host'' = (if p_host p = [] then None else Some (p_host p))"
  "set_value p ''files'' = (if p_files p = [] then None else Some (p_files p))"
  "set_value p ''max_turns'' = (if p_max_turns p = [] then None else Some (p_max_turns p))"
  "set_value p ''size'' = (if p_size p = [] then None else Some (p_size p))"
  "set_value p ''bump'' = (if p_bump p = [] then None else Some (p_bump p))"
  "set_value p ''callers_ok'' = (if p_callers_ok p = [] then None else Some (p_callers_ok p))"
  by (simp_all add: set_value_def)

lemma update_unless_empty:
  "(if v \<noteq> [] then p\<lparr>p_rig := v\<rparr> else p) = p\<lparr>p_rig := if v \<noteq> [] then v else p_rig p\<rparr>"
  "(if v \<noteq> [] then p\<lparr>p_branch := v\<rparr> else p) = p\<lparr>p_branch := if v \<noteq> [] then v else p_branch p\<rparr>"
  "(if v \<noteq> [] then p\<lparr>p_harness := v\<rparr> else p) = p\<lparr>p_harness := if v \<noteq> [] then v else p_harness p\<rparr>"
  "(if v \<noteq> [] then p\<lparr>p_model := v\<rparr> else p) = p\<lparr>p_model := if v \<noteq> [] then v else p_model p\<rparr>"
  "(if v \<noteq> [] then p\<lparr>p_effort := v\<rparr> else p) = p\<lparr>p_effort := if v \<noteq> [] then v else p_effort p\<rparr>"
  "(if v \<noteq> [] then p\<lparr>p_formula := v\<rparr> else p) = p\<lparr>p_formula := if v \<noteq> [] then v else p_formula p\<rparr>"
  "(if v \<noteq> [] then p\<lparr>p_host := v\<rparr> else p) = p\<lparr>p_host := if v \<noteq> [] then v else p_host p\<rparr>"
  "(if v \<noteq> [] then p\<lparr>p_files := v\<rparr> else p) = p\<lparr>p_files := if v \<noteq> [] then v else p_files p\<rparr>"
  "(if v \<noteq> [] then p\<lparr>p_max_turns := v\<rparr> else p) = p\<lparr>p_max_turns := if v \<noteq> [] then v else p_max_turns p\<rparr>"
  "(if v \<noteq> [] then p\<lparr>p_size := v\<rparr> else p) = p\<lparr>p_size := if v \<noteq> [] then v else p_size p\<rparr>"
  "(if v \<noteq> [] then p\<lparr>p_bump := v\<rparr> else p) = p\<lparr>p_bump := if v \<noteq> [] then v else p_bump p\<rparr>"
  "(if v \<noteq> [] then p\<lparr>p_callers_ok := v\<rparr> else p) = p\<lparr>p_callers_ok := if v \<noteq> [] then v else p_callers_ok p\<rparr>"
  by simp_all

lemma overlay_simps [simp]:
  "p_rig (overlay p ov) = (if p_rig ov \<noteq> [] then p_rig ov else p_rig p)"
  "p_branch (overlay p ov) = (if p_branch ov \<noteq> [] then p_branch ov else p_branch p)"
  "p_harness (overlay p ov) = (if p_harness ov \<noteq> [] then p_harness ov else p_harness p)"
  "p_model (overlay p ov) = (if p_model ov \<noteq> [] then p_model ov else p_model p)"
  "p_effort (overlay p ov) = (if p_effort ov \<noteq> [] then p_effort ov else p_effort p)"
  "p_formula (overlay p ov) = (if p_formula ov \<noteq> [] then p_formula ov else p_formula p)"
  "p_host (overlay p ov) = (if p_host ov \<noteq> [] then p_host ov else p_host p)"
  "p_files (overlay p ov) = (if p_files ov \<noteq> [] then p_files ov else p_files p)"
  "p_max_turns (overlay p ov) = (if p_max_turns ov \<noteq> [] then p_max_turns ov else p_max_turns p)"
  "p_size (overlay p ov) = (if p_size ov \<noteq> [] then p_size ov else p_size p)"
  "p_bump (overlay p ov) = (if p_bump ov \<noteq> [] then p_bump ov else p_bump p)"
  "p_callers_ok (overlay p ov) = (if p_callers_ok ov \<noteq> [] then p_callers_ok ov else p_callers_ok p)"
  unfolding overlay_def Let_def update_unless_empty by simp_all

lemma overlay_field:
  assumes "known_field f"
  shows "path_field (overlay p ov) f =
     (case set_value ov f of Some v \<Rightarrow> Inr v | None \<Rightarrow> path_field p f)"
  using assms by (rule known_field_cases) simp_all

lemma overlay_set_value:
  "set_value (overlay p ov) f = (case set_value ov f of Some v \<Rightarrow> Some v | None \<Rightarrow> set_value p f)"
proof (cases "known_field f")
  case True
  then show ?thesis
    by (rule known_field_cases) simp_all
qed (simp add: set_value_def unknown_field)

lemma path_eq_set_value: "(\<And>f. set_value p f = set_value q f) \<Longrightarrow> p = q"
  by (rule path_ext) (simp add: path_field_set_value)

lemma set_value_empty [simp]: "set_value empty_path f = None"
proof (cases "known_field f")
  case True
  then show ?thesis by (simp add: set_value_def field_of_empty)
qed (simp add: set_value_def unknown_field)

lemma overlay_assoc: "overlay (overlay a b) c = overlay a (overlay b c)"
  by (rule path_eq_set_value) (simp add: overlay_set_value split: option.splits)

lemma overlay_empty: "overlay p empty_path = p" "overlay empty_path p = p"
  by (rule path_eq_set_value, simp add: overlay_set_value set_value_empty split: option.splits)+

lemma overlay_idem: "overlay (overlay p ov) ov = overlay p ov"
  by (rule path_eq_set_value) (simp add: overlay_set_value split: option.splits)

lemma metadata_round_trip_witness:
  "path_from_metadata [(''files'', ''a.go''), (''gc.claimed'', ''x''), (''rig'', ''mill'')]
     = empty_path\<lparr>p_rig := ''mill'', p_files := ''a.go''\<rparr>"
  by (rule metadata_round_trip; (erule known_field_cases)?)
    (simp_all add: path_metadata_value, simp_all add: empty_path_def)

text \<open>Laying overrides over defaults is a monoid with the empty path as its unit, and
  doing it twice changes nothing more: the epic's defaults, a layer between them and the
  story's own overrides may be combined in either grouping.\<close>

theorem overlay_monoid:
  "overlay (overlay a b) c = overlay a (overlay b c) \<and>
   overlay a empty_path = a \<and> overlay empty_path a = a \<and>
   overlay (overlay a b) b = overlay a b"
  by (simp add: overlay_assoc overlay_empty overlay_idem)

lemma path_validate_iff:
  "path_validate p = None \<longleftrightarrow>
     p_rig p \<noteq> [] \<and> p_branch p \<noteq> [] \<and> known_harness (p_harness p) \<and>
     known_model (p_harness p) (p_model p) \<and> known_effort (p_effort p) \<and>
     (p_max_turns p = [] \<or> path_turns p \<noteq> None) \<and> (p_size p = [] \<or> known_size (p_size p)) \<and>
     (p_bump p = [] \<or> p_bump p = BumpMinor)" (is "_ \<longleftrightarrow> ?ok")
proof
  assume "path_validate p = None"
  then show ?ok by (simp only: path_validate_def split: if_splits) auto
next
  assume ok: ?ok
  then have "p_harness p \<noteq> []" "p_model p \<noteq> []" "p_effort p \<noteq> []"
    by (auto simp: known_harness_def known_model_def known_effort_def)
  with ok show "path_validate p = None" by (simp add: path_validate_def)
qed

text \<open>C37. The path a story is worked by has in each field the story's override where it sets
  one and the epic's default otherwise, and it is whole: a rig, a branch, a harness with a
  model that harness runs, a known effort, and any turn cap, size and bump it names are ones
  the mill knows.\<close>

theorem story_path_from_whole:
  assumes "story_path_from s defaults = Inr p"
  shows "(\<forall>f. set_value p f =
            (case set_value (st_overrides s) f of Some v \<Rightarrow> Some v | None \<Rightarrow> set_value defaults f)) \<and>
     p_rig p \<noteq> [] \<and> p_branch p \<noteq> [] \<and> known_model (p_harness p) (p_model p) \<and>
     known_effort (p_effort p) \<and> (p_max_turns p = [] \<or> path_turns p \<noteq> None) \<and>
     (p_size p = [] \<or> known_size (p_size p)) \<and> (p_bump p = [] \<or> p_bump p = BumpMinor)"
proof -
  have "p = overlay defaults (st_overrides s)" "path_validate p = None"
    using assms by (auto simp: story_path_from_def Let_def split: option.splits)
  then show ?thesis by (simp add: path_validate_iff overlay_set_value)
qed

definition sample_defaults :: path where
  "sample_defaults = empty_path\<lparr>p_rig := ''mill'', p_branch := ''main'', p_harness := ''claude'',
     p_model := ''opus'', p_effort := ''high''\<rparr>"

lemma story_path_from_whole_witness:
  "known_effort ''max'' \<and> known_model ''claude'' ''opus''"
  using story_path_from_whole [of "\<lparr>st_id = ''a'', st_title = ''b'',
      st_overrides = empty_path\<lparr>p_effort := ''max''\<rparr>\<rparr>" sample_defaults
      "sample_defaults\<lparr>p_effort := ''max''\<rparr>"]
  by (simp add: story_path_from_def overlay_def sample_defaults_def empty_path_def
      path_validate_def known_harness_def known_model_def known_effort_def)

lemma size_turn_cap_pos: "0 < size_turn_cap s \<longleftrightarrow> known_size s"
  by (auto simp: size_turn_cap_def known_size_def sizes_def)

lemma path_turns_nonneg: "path_turns p = Some t \<Longrightarrow> 0 \<le> t"
  by (auto simp: path_turns_def split: if_splits option.splits)

text \<open>The turns a session is capped at never pass the host's ceiling unless the path
  names its own: they are the smaller of the size's and the ceiling, no cap at all under a
  ceiling that is off, and never negative.\<close>

theorem turn_cap_under_min:
  "0 \<le> turn_cap_under p ceiling \<and>
   turn_cap_under p ceiling =
     (case path_turns p of Some turns \<Rightarrow> turns
      | None \<Rightarrow> if 0 < ceiling then min ceiling (turn_cap p ceiling) else 0)"
  by (auto simp: turn_cap_under_def turn_cap_def path_turns_nonneg split: option.splits)

text \<open>Each size allows more than the one before it, in every table.\<close>

lemma sizes_increase:
  "sorted_wrt (\<lambda>a b. callers_allowed a < callers_allowed b \<and> files_allowed a < files_allowed b \<and>
     size_turn_cap a < size_turn_cap b) sizes"
  by (simp add: sizes_def callers_allowed_def files_allowed_def size_turn_cap_def)

end
