(* ===== verification/PlanModel.thy ===== *)
theory PlanModel
  imports PathModel Acceptance Utf8
begin

text \<open>
  \<^verbatim>\<open>domain/plan.go\<close>: the Mayor's plan for one epic, the reasons it cannot be filed,
  the order its stories are filed in and the loop that stops them being filed.  A Go map
  read as a set of keys is the list of the keys put in it.  The recursion of \<open>cycle\<close> is
  given fuel, one for each level, and \<open>cycle_run\<close> is \<open>None\<close> when it runs out;
  \<open>cycle_run_total\<close> shows that the fuel it starts with is always enough.
\<close>

record plan_story =
  ps_key :: string
  ps_title :: string
  ps_priority :: int
  ps_estimate :: int
  ps_description :: string
  ps_acceptance :: string
  ps_overrides :: path
  ps_needs :: "string list"
  ps_files :: string
  ps_labels :: "string list"
  ps_callers_ok :: string

record plan_epic =
  pe_key :: string
  pe_title :: string
  pe_priority :: int
  pe_description :: string
  pe_success :: string
  pe_defaults :: path

record plan =
  pl_epic :: plan_epic
  pl_stories :: "plan_story list"

definition path_overrides :: "plan_story \<Rightarrow> path" where
  "path_overrides s =
     (let ov = ps_overrides s;
          ov = (if trim_space (ps_files s) \<noteq> [] then ov\<lparr>p_files := trim_space (ps_files s)\<rparr> else ov);
          why = trim_space (ps_callers_ok s)
      in if why \<noteq> [] then ov\<lparr>p_callers_ok := why\<rparr> else ov)"

definition story_rig :: "plan_story \<Rightarrow> path \<Rightarrow> string" where
  "story_rig s defaults =
     (let rig = trim_space (p_rig (ps_overrides s))
      in if rig \<noteq> [] then rig else trim_space (p_rig defaults))"

definition plan_story_path :: "plan_story \<Rightarrow> path \<Rightarrow> (path_error, path) result" where
  "plan_story_path s defaults =
     story_path_from \<lparr>st_id = ps_key s, st_title = ps_title s, st_overrides = path_overrides s\<rparr> defaults"

definition name_by_key :: "plan_story \<Rightarrow> nat \<Rightarrow> string" where
  "name_by_key s i =
     (let key = trim_space (ps_key s)
      in if key \<noteq> [] then ''story '' @ key else ''story '' @ nat_str (i + 1))"

definition story_name :: "plan_story \<Rightarrow> nat \<Rightarrow> string" where
  "story_name s i =
     (let key = trim_space (ps_key s); title = trim_space (ps_title s)
      in if key \<noteq> [] then ''story '' @ key
         else if title \<noteq> [] then ''story '' @ nat_str (i + 1) @ '' ('' @ title @ '')''
         else ''story '' @ nat_str (i + 1))"

subsection \<open>Titles\<close>

definition MaxTitleLength :: nat where "MaxTitleLength = 500"
definition StoryIDReserve :: nat where "StoryIDReserve = 16"

definition step_title_overhead :: "string list \<Rightarrow> nat" where
  "step_title_overhead titles =
     foldl (\<lambda>longest title.
        if \<not> contains title ''{{title}}'' then longest
        else let bare = replace_all title ''{{title}}'' [];
                 bare = replace_all bare ''{{story}}'' (replicate StoryIDReserve (CHR ''x''))
             in if longest < length bare then length bare else longest) 0 titles"

text \<open>U+2026.\<close>

definition Ellipsis :: string where "Ellipsis = [CHR 0xE2, CHR 0x80, CHR 0xA6]"

definition fit_overhead :: "string \<Rightarrow> string list \<Rightarrow> nat" where
  "fit_overhead story_id steps =
     foldl (\<lambda>overhead step.
        if \<not> contains step ''{{title}}'' then overhead
        else let bare = replace_all step ''{{story}}'' story_id;
                 bare = replace_all bare ''{{title}}'' []
             in if overhead < length bare then length bare else overhead) 0 steps"

fun cut_back :: "string \<Rightarrow> nat \<Rightarrow> nat" where
  "cut_back title 0 = 0"
| "cut_back title (Suc n) = (if rune_start (title ! Suc n) then Suc n else cut_back title n)"

definition fit_title_to_steps :: "string \<Rightarrow> string \<Rightarrow> string list \<Rightarrow> string" where
  "fit_title_to_steps title story_id steps =
     (let room = int MaxTitleLength - int (fit_overhead story_id steps)
      in if int (length title) \<le> room then title
         else let room = room - int (length Ellipsis);
                  room = (if room < 0 then 0 else room)
              in take (cut_back title (nat room)) title @ Ellipsis)"

subsection \<open>Loops of stories that wait on each other\<close>

datatype mark = Walking | Done

type_synonym needs_map = "string \<Rightarrow> string list option"
type_synonym walk_state = "(string \<Rightarrow> mark option) \<times> string list"

definition needs_of :: "plan_story list \<Rightarrow> needs_map" where
  "needs_of stories = foldl (\<lambda>m s. m(ps_key s \<mapsto> ps_needs s)) Map.empty stories"

definition loop_from :: "string list \<Rightarrow> string \<Rightarrow> string list" where
  "loop_from path key =
     (if List.member path key then dropWhile (\<lambda>k. k \<noteq> key) path @ [key] else [key, key])"

function walk_key :: "nat \<Rightarrow> needs_map \<Rightarrow> string \<Rightarrow> walk_state \<Rightarrow> (string list \<times> walk_state) option"
  and walk_each :: "nat \<Rightarrow> needs_map \<Rightarrow> string list \<Rightarrow> walk_state \<Rightarrow> (string list \<times> walk_state) option"
where
  "walk_key 0 needs key st = None"
| "walk_key (Suc fuel) needs key (marks, path) =
     (case needs key of
        None \<Rightarrow> Some ([], marks, path)
      | Some ns \<Rightarrow>
          if marks key = Some Done then Some ([], marks, path)
          else if marks key = Some Walking then Some (loop_from path key, marks, path)
          else (case walk_each fuel needs ns (marks(key \<mapsto> Walking), path @ [key]) of
                  None \<Rightarrow> None
                | Some (loop, marks', path') \<Rightarrow>
                    if loop \<noteq> [] then Some (loop, marks', path')
                    else Some ([], marks'(key \<mapsto> Done), butlast path')))"
| "walk_each fuel needs [] st = Some ([], st)"
| "walk_each fuel needs (k # ks) st =
     (case walk_key fuel needs k st of
        None \<Rightarrow> None
      | Some (loop, st') \<Rightarrow> if loop \<noteq> [] then Some (loop, st') else walk_each fuel needs ks st')"
  by pat_completeness auto
termination
  by (relation "measures
      [case_sum (\<lambda>(f, _). f) (\<lambda>(f, _). f), case_sum (\<lambda>_. 0) (\<lambda>(_, _, ks, _). Suc (length ks))]")
    auto

definition cycle_run :: "plan_story list \<Rightarrow> string list option" where
  "cycle_run stories =
     map_option fst
       (walk_each (Suc (length stories)) (needs_of stories) (map ps_key stories) (Map.empty, []))"

definition cycle_of :: "plan_story list \<Rightarrow> string list" where
  "cycle_of stories = (case cycle_run stories of None \<Rightarrow> [] | Some loop \<Rightarrow> loop)"

subsection \<open>Validation\<close>

datatype reason =
    EpicNoTitle
  | EpicTitleLong nat
  | NoStories
  | NoKey string
  | SharedKey string
  | NoTitle string
  | TitleLong string nat
  | NoAcceptance string
  | NoPath string path_error
  | NoSweep string sweep_verdict
  | NoExpect string expect_refusal
  | WaitsOnItself string
  | WaitsOnNoStory string string
  | WaitOnEachOther "string list"
  | WaitOnMissingStories "string list"

definition epic_reasons :: "plan \<Rightarrow> reason list" where
  "epic_reasons p =
     (let title = pe_title (pl_epic p)
      in (if trim_space title = [] then [EpicNoTitle] else []) @
         (if MaxTitleLength < length title then [EpicTitleLong (length title)] else []) @
         (if length (pl_stories p) = 0 then [NoStories] else []))"

definition story_reasons :: "path \<Rightarrow> string list \<Rightarrow> nat \<Rightarrow> plan_story \<Rightarrow> reason list" where
  "story_reasons defaults seen i s =
     (let name = story_name s i
      in (if trim_space (ps_key s) = [] then [NoKey name]
          else if List.member seen (ps_key s) then [SharedKey (ps_key s)] else []) @
         (if trim_space (ps_title s) = [] then [NoTitle name] else []) @
         (if MaxTitleLength < length (ps_title s)
          then [TitleLong (name_by_key s i) (length (ps_title s))] else []) @
         (if trim_space (ps_acceptance s) = [] then [NoAcceptance name] else []) @
         (case plan_story_path s defaults of Inl e \<Rightarrow> [NoPath name e] | Inr _ \<Rightarrow> []) @
         (let verdict = sweep_of_story (ps_acceptance s) (ps_description s)
          in if is_bug [] (ps_title s) (ps_labels s) \<and> \<not> passes verdict
             then [NoSweep name verdict] else []) @
         (if owes_an_expect (story_rig s defaults)
          then (case parse_expect (ps_acceptance s) of
                  Inl e \<Rightarrow> [NoExpect name (expect_refusal_in e (ps_description s))]
                | Inr _ \<Rightarrow> [])
          else []))"

text \<open>The loop over the stories, \<open>seen\<close> the keys put in it so far.\<close>

fun stories_reasons :: "path \<Rightarrow> string list \<Rightarrow> nat \<Rightarrow> plan_story list \<Rightarrow> reason list" where
  "stories_reasons defaults seen i [] = []"
| "stories_reasons defaults seen i (s # ss) =
     story_reasons defaults seen i s @ stories_reasons defaults (ps_key s # seen) (Suc i) ss"

definition need_reasons :: "string list \<Rightarrow> string \<Rightarrow> string \<Rightarrow> string \<Rightarrow> reason list" where
  "need_reasons seen name key need =
     (if need = key then [WaitsOnItself name]
      else if \<not> List.member seen need then [WaitsOnNoStory name need] else [])"

fun needs_reasons :: "string list \<Rightarrow> nat \<Rightarrow> plan_story list \<Rightarrow> reason list" where
  "needs_reasons seen i [] = []"
| "needs_reasons seen i (s # ss) =
     concat (map (need_reasons seen (story_name s i) (ps_key s)) (ps_needs s)) @
     needs_reasons seen (Suc i) ss"

definition plan_reasons :: "plan \<Rightarrow> reason list" where
  "plan_reasons p =
     epic_reasons p @
     stories_reasons (pe_defaults (pl_epic p)) [] 0 (pl_stories p) @
     needs_reasons (map ps_key (pl_stories p)) 0 (pl_stories p) @
     (let loop = cycle_of (pl_stories p)
      in if 0 < length loop then [WaitOnEachOther loop] else [])"

definition validate_plan :: "plan \<Rightarrow> reason list option" where
  "validate_plan p = (let reasons = plan_reasons p in if reasons = [] then None else Some reasons)"

subsection \<open>The filing order\<close>

definition can_be_filed :: "plan_story \<Rightarrow> string list \<Rightarrow> bool" where
  "can_be_filed s filed \<longleftrightarrow> list_all (\<lambda>need. List.member filed need) (ps_needs s)"

text \<open>One pass over the stories: the keys filed, the order so far, whether one was placed.\<close>

type_synonym order_state = "string list \<times> plan_story list \<times> bool"

fun order_pass :: "plan_story list \<Rightarrow> order_state \<Rightarrow> order_state" where
  "order_pass [] st = st"
| "order_pass (s # ss) (filed, order, placed) =
     (if List.member filed (ps_key s) \<or> \<not> can_be_filed s filed
      then order_pass ss (filed, order, placed)
      else order_pass ss (ps_key s # filed, order @ [s], True))"

fun stuck_names :: "string list \<Rightarrow> nat \<Rightarrow> plan_story list \<Rightarrow> string list" where
  "stuck_names filed i [] = []"
| "stuck_names filed i (s # ss) =
     (if List.member filed (ps_key s) then [] else [story_name s i]) @ stuck_names filed (Suc i) ss"

lemma order_pass_longer:
  "order_pass ss (filed, order, placed) = (filed', order', placed') \<Longrightarrow>
     length order \<le> length order' \<and> (placed' \<and> \<not> placed \<longrightarrow> length order < length order')"
  by (induction ss arbitrary: filed order placed) (fastforce split: if_splits)+

function order_loop ::
  "plan_story list \<Rightarrow> string list \<Rightarrow> plan_story list \<Rightarrow> (reason, plan_story list) result"
where
  "order_loop stories filed order =
     (if length order < length stories
      then (case order_pass stories (filed, order, False) of
              (filed', order', placed) \<Rightarrow>
                if placed then order_loop stories filed' order'
                else let loop = cycle_of stories
                     in if 0 < length loop then Inl (WaitOnEachOther loop)
                        else Inl (WaitOnMissingStories (stuck_names filed' 0 stories)))
      else Inr order)"
  by pat_completeness auto
termination
  by (relation "measure (\<lambda>(stories, _, order). length stories - length order)")
    (auto dest!: sym [of "(_, _, _)" "order_pass _ _"] order_pass_longer)

declare order_loop.simps [simp del]

definition plan_order :: "plan \<Rightarrow> (reason, plan_story list) result" where
  "plan_order p = order_loop (pl_stories p) [] []"

subsection \<open>A loop is found exactly when there is one\<close>

definition waits :: "needs_map \<Rightarrow> (string \<times> string) set" where
  "waits N = {(k, n). \<exists>ns. N k = Some ns \<and> n \<in> set ns \<and> n \<in> dom N}"

abbreviation waits_on :: "needs_map \<Rightarrow> string \<Rightarrow> string \<Rightarrow> bool" where
  "waits_on N a b \<equiv> (a, b) \<in> waits N"

definition is_loop :: "needs_map \<Rightarrow> string list \<Rightarrow> bool" where
  "is_loop N l \<longleftrightarrow> 2 \<le> length l \<and> hd l = last l \<and> successively (waits_on N) l"

definition done_keys :: "(string \<Rightarrow> mark option) \<Rightarrow> string set" where
  "done_keys marks = {k. marks k = Some Done}"

text \<open>What the walk keeps: the path holds the keys being walked, each waiting on the next;
  the keys that are done wait only on done keys, in no loop.\<close>

definition walk_inv :: "needs_map \<Rightarrow> walk_state \<Rightarrow> bool" where
  "walk_inv N st \<longleftrightarrow> (case st of (marks, path) \<Rightarrow>
     distinct path \<and> set path = {k. marks k = Some Walking} \<and> dom marks \<subseteq> dom N \<and>
     successively (waits_on N) path \<and> waits N `` done_keys marks \<subseteq> done_keys marks \<and>
     acyclic (Restr (waits N) (done_keys marks)))"

lemma trancl_stays:
  assumes "(a, b) \<in> (Restr R (insert v D))\<^sup>+" "R `` D \<subseteq> D" "R `` {v} \<subseteq> D"
  shows "b \<in> D \<and> (a \<in> D \<longrightarrow> (a, b) \<in> (Restr R D)\<^sup>+)"
  using assms(1)
proof (induction rule: trancl_induct)
  case (base b)
  then show ?case using assms(2,3) by blast
next
  case (step b c)
  then have "c \<in> D" "(b, c) \<in> Restr R D" using assms(2) by blast+
  with step.IH show ?case by (meson trancl.trancl_into_trancl)
qed

lemma acyclic_insert:
  assumes "acyclic (Restr R D)" "R `` D \<subseteq> D" "R `` {v} \<subseteq> D"
  shows "acyclic (Restr R (insert v D))"
  unfolding acyclic_def
proof
  fix x
  show "(x, x) \<notin> (Restr R (insert v D))\<^sup>+"
  proof
    assume "(x, x) \<in> (Restr R (insert v D))\<^sup>+"
    then have "(x, x) \<in> (Restr R D)\<^sup>+" using trancl_stays [OF _ assms(2,3)] by blast
    with assms(1) show False by (simp add: acyclic_def)
  qed
qed

lemma successively_snoc:
  "successively P (xs @ [x]) \<longleftrightarrow> successively P xs \<and> (xs = [] \<or> P (last xs) x)"
  by (auto simp: successively_append_iff)

lemma loop_from_is_loop:
  assumes "successively (waits_on N) path" "key \<in> set path" "waits_on N (last path) key"
  shows "is_loop N (loop_from path key)"
proof -
  let ?tl = "dropWhile (\<lambda>k. k \<noteq> key) path"
  have ne: "?tl \<noteq> []" using assms(2) by (simp add: dropWhile_eq_Nil_conv)
  have "path = takeWhile (\<lambda>k. k \<noteq> key) path @ ?tl" by simp
  then have "successively (waits_on N) ?tl" "last ?tl = last path"
    using assms(1) ne by (metis successively_append_iff, metis last_appendR)
  moreover have "hd ?tl = key" using hd_dropWhile_not [OF ne] by simp
  moreover from calculation have "successively (waits_on N) (?tl @ [key])"
    using assms(3) by (simp add: successively_snoc)
  moreover have "loop_from path key = ?tl @ [key]" using assms(2) by (simp add: loop_from_def)
  moreover have "2 \<le> length (?tl @ [key])" using ne by (cases ?tl) simp_all
  ultimately show ?thesis using ne by (simp add: is_loop_def)
qed

lemma walk_inv_enter:
  assumes "walk_inv N (marks, path)" "key \<in> dom N" "marks key = None"
    "path = [] \<or> waits_on N (last path) key"
  shows "walk_inv N (marks(key \<mapsto> Walking), path @ [key])"
proof -
  have "done_keys (marks(key \<mapsto> Walking)) = done_keys marks"
    using assms(3) by (auto simp: done_keys_def)
  then show ?thesis using assms by (auto simp: walk_inv_def successively_snoc)
qed

lemma walk_inv_leave:
  assumes inv: "walk_inv N (marks, path @ [key])" and key: "key \<in> dom N"
    and closed: "\<And>n. waits_on N key n \<Longrightarrow> marks n = Some Done"
  shows "walk_inv N (marks(key \<mapsto> Done), path)"
proof -
  have d: "done_keys (marks(key \<mapsto> Done)) = insert key (done_keys marks)"
    by (auto simp: done_keys_def)
  have out: "waits N `` {key} \<subseteq> done_keys marks" using closed by (auto simp: done_keys_def)
  have D: "waits N `` done_keys marks \<subseteq> done_keys marks"
    "acyclic (Restr (waits N) (done_keys marks))"
    using inv by (simp_all add: walk_inv_def)
  have "acyclic (Restr (waits N) (insert key (done_keys marks)))"
    by (rule acyclic_insert [OF D(2,1) out])
  moreover have "waits N `` insert key (done_keys marks) \<subseteq> insert key (done_keys marks)"
    using D(1) out by blast
  moreover have "set path = {k. (marks(key \<mapsto> Done)) k = Some Walking}"
    using inv by (auto simp: walk_inv_def)
  ultimately show ?thesis
    using inv key by (simp add: walk_inv_def d successively_snoc)
qed

lemma walk_sound:
  "walk_key fuel N key (marks, path) = Some (loop, marks', path') \<Longrightarrow> walk_inv N (marks, path) \<Longrightarrow>
     path = [] \<or> key \<notin> dom N \<or> waits_on N (last path) key \<Longrightarrow>
     (loop \<noteq> [] \<longrightarrow> is_loop N loop) \<and>
     (loop = [] \<longrightarrow> walk_inv N (marks', path') \<and> path' = path \<and>
        done_keys marks \<subseteq> done_keys marks' \<and> (key \<in> dom N \<longrightarrow> marks' key = Some Done))"
  "walk_each fuel N ks (marks, path) = Some (loop, marks', path') \<Longrightarrow> walk_inv N (marks, path) \<Longrightarrow>
     (\<And>k. k \<in> set ks \<Longrightarrow> path = [] \<or> k \<notin> dom N \<or> waits_on N (last path) k) \<Longrightarrow>
     (loop \<noteq> [] \<longrightarrow> is_loop N loop) \<and>
     (loop = [] \<longrightarrow> walk_inv N (marks', path') \<and> path' = path \<and>
        done_keys marks \<subseteq> done_keys marks' \<and> (\<forall>k \<in> set ks \<inter> dom N. marks' k = Some Done))"
proof (induction fuel N key "(marks, path)" and fuel N ks "(marks, path)"
    arbitrary: marks path loop marks' path' and marks path loop marks' path'
    rule: walk_key_walk_each.induct)
  case (2 fuel N key marks path)
  show ?case
  proof (cases "N key")
    case None
    with 2 show ?thesis by auto
  next
    case (Some ns)
    then have key: "key \<in> dom N" by auto
    consider "marks key = Some Done" | "marks key = Some Walking" | "marks key = None"
      by (cases "marks key"; cases "the (marks key)") auto
    then show ?thesis
    proof cases
      case 1
      with 2 Some show ?thesis by auto
    next
      case 2
      with "2.prems" Some have "loop = loop_from path key" "key \<in> set path"
        "successively (waits_on N) path"
        by (auto simp: walk_inv_def)
      moreover have "waits_on N (last path) key"
        using "2.prems"(3) key \<open>key \<in> set path\<close> by auto
      ultimately have "is_loop N loop" by (simp add: loop_from_is_loop)
      moreover from this have "loop \<noteq> []" by (auto simp: is_loop_def)
      ultimately show ?thesis by simp
    next
      case 3
      then obtain l m q where w: "walk_each fuel N ns (marks(key \<mapsto> Walking), path @ [key]) = Some (l, m, q)"
        using "2.prems"(1) Some by (auto split: option.splits)
      have inv: "walk_inv N (marks(key \<mapsto> Walking), path @ [key])"
        using walk_inv_enter "2.prems"(2,3) key 3 by blast
      have edges: "path @ [key] = [] \<or> k \<notin> dom N \<or> waits_on N (last (path @ [key])) k"
        if "k \<in> set ns" for k
        using that Some by (auto simp: waits_def)
      have n: "marks key \<noteq> Some Done" "marks key \<noteq> Some Walking" using 3 by auto
      note IH = "2.hyps" [OF Some n w inv edges]
      have d0: "done_keys (marks(key \<mapsto> Walking)) = done_keys marks"
        using 3 by (auto simp: done_keys_def)
      show ?thesis
      proof (cases "l = []")
        case False
        then show ?thesis using IH "2.prems"(1) Some 3 w by auto
      next
        case True
        then have m: "walk_inv N (m, path @ [key])" "q = path @ [key]" "done_keys marks \<subseteq> done_keys m"
          "\<And>k. k \<in> set ns \<Longrightarrow> k \<in> dom N \<Longrightarrow> m k = Some Done"
          using IH d0 by auto
        have "loop = []" "marks' = m(key \<mapsto> Done)" "path' = path"
          using "2.prems"(1) Some 3 w True m(2) by auto
        moreover have "walk_inv N (m(key \<mapsto> Done), path)"
          by (rule walk_inv_leave [OF m(1) key]) (use Some m(4) in \<open>auto simp: waits_def\<close>)
        ultimately show ?thesis using m(3) by (auto simp: done_keys_def)
      qed
    qed
  qed
next
  case (4 fuel N k ks)
  obtain l m q where w: "walk_key fuel N k (marks, path) = Some (l, m, q)"
    using "4.prems"(1) by (cases "walk_key fuel N k (marks, path)") auto
  have k: "path = [] \<or> k \<notin> dom N \<or> waits_on N (last path) k" using "4.prems"(3) by simp
  note IH = "4.hyps"(1) [OF w "4.prems"(2) k]
  show ?case
  proof (cases "l = []")
    case False
    then show ?thesis using IH w "4.prems"(1) by auto
  next
    case True
    then have m: "walk_inv N (m, path)" "q = path" "done_keys marks \<subseteq> done_keys m"
      "k \<in> dom N \<longrightarrow> m k = Some Done"
      using IH by auto
    have eq: "([], m, path) = (l, m, q)" using True m(2) by simp
    have e: "walk_each fuel N ks (m, path) = Some (loop, marks', path')"
      using "4.prems"(1) w True m(2) by simp
    have "(loop \<noteq> [] \<longrightarrow> is_loop N loop) \<and>
      (loop = [] \<longrightarrow> walk_inv N (marks', path') \<and> path' = path \<and>
        done_keys m \<subseteq> done_keys marks' \<and> (\<forall>k \<in> set ks \<inter> dom N. marks' k = Some Done))"
      using "4.hyps"(2) [OF w eq _ e m(1)] "4.prems"(3) by auto
    then show ?thesis using m(3,4) by (auto simp: done_keys_def)
  qed
qed auto

text \<open>One level of fuel for each key not on the path is enough.\<close>

lemma walk_inv_path_short:
  assumes "walk_inv N (marks, path)" "finite (dom N)"
  shows "length path \<le> card (dom N)"
  using assms by (intro distinct_length_le_card) (auto simp: walk_inv_def)

lemma walk_fuel:
  "finite (dom N) \<Longrightarrow> walk_inv N (marks, path) \<Longrightarrow> card (dom N) < fuel + length path \<Longrightarrow>
     path = [] \<or> key \<notin> dom N \<or> waits_on N (last path) key \<Longrightarrow>
     walk_key fuel N key (marks, path) \<noteq> None"
  "finite (dom N) \<Longrightarrow> walk_inv N (marks, path) \<Longrightarrow> card (dom N) < fuel + length path \<Longrightarrow>
     (\<And>k. k \<in> set ks \<Longrightarrow> path = [] \<or> k \<notin> dom N \<or> waits_on N (last path) k) \<Longrightarrow>
     walk_each fuel N ks (marks, path) \<noteq> None"
proof (induction fuel N key "(marks, path)" and fuel N ks "(marks, path)"
    arbitrary: marks path and marks path rule: walk_key_walk_each.induct)
  case (1 N key marks path)
  then show ?case using walk_inv_path_short [of N marks path] by simp
next
  case (2 fuel N key marks path)
  show ?case
  proof (cases "N key = None \<or> marks key = Some Done \<or> marks key = Some Walking")
    case True
    then show ?thesis by (auto split: option.splits)
  next
    case False
    then obtain ns where ns: "N key = Some ns" by auto
    have n: "marks key \<noteq> Some Done" "marks key \<noteq> Some Walking" using False by auto
    then have none: "marks key = None" by (cases "marks key"; cases "the (marks key)") auto
    have inv: "walk_inv N (marks(key \<mapsto> Walking), path @ [key])"
      using walk_inv_enter [OF "2.prems"(2) _ none] "2.prems"(4) ns by auto
    have "walk_each fuel N ns (marks(key \<mapsto> Walking), path @ [key]) \<noteq> None"
      by (rule "2.hyps" [OF ns n "2.prems"(1) inv])
        (use "2.prems"(3) ns in \<open>auto simp: waits_def\<close>)
    then show ?thesis using ns n by (auto split: option.splits)
  qed
next
  case (4 fuel N k ks)
  have k: "path = [] \<or> k \<notin> dom N \<or> waits_on N (last path) k" using "4.prems"(4) by simp
  have "walk_key fuel N k (marks, path) \<noteq> None"
    using "4.hyps"(1) [OF "4.prems"(1-3) k] .
  then obtain l m q where w: "walk_key fuel N k (marks, path) = Some (l, m, q)" by auto
  show ?case
  proof (cases "l = []")
    case True
    with walk_sound(1) [OF w "4.prems"(2) k] have m: "walk_inv N (m, path)" "q = path" by auto
    have eq: "([], m, path) = (l, m, q)" using True m(2) by simp
    have "walk_each fuel N ks (m, path) \<noteq> None"
      using "4.hyps"(2) [OF w eq _ "4.prems"(1) m(1) "4.prems"(3)] "4.prems"(4) by simp
    then show ?thesis using w True m(2) by simp
  qed (use w in simp)
qed simp

lemma dom_needs_of: "dom (needs_of stories) = ps_key ` set stories"
proof -
  have "dom (foldl (\<lambda>m s. m(ps_key s \<mapsto> ps_needs s)) m ss) = dom m \<union> ps_key ` set ss" for m ss
    by (induction ss arbitrary: m) auto
  from this [of Map.empty stories] show ?thesis by (simp add: needs_of_def)
qed

lemma walk_inv_start: "walk_inv N (Map.empty, [])"
  by (simp add: walk_inv_def done_keys_def acyclic_def)

lemma cycle_walk:
  obtains loop marks path where
    "walk_each (Suc (length stories)) (needs_of stories) (map ps_key stories) (Map.empty, []) =
       Some (loop, marks, path)"
    "cycle_run stories = Some loop" "cycle_of stories = loop"
proof -
  let ?N = "needs_of stories"
  have "card (dom ?N) \<le> length stories"
    by (metis card_image_le card_length dom_needs_of le_trans List.finite_set)
  then have "walk_each (Suc (length stories)) ?N (map ps_key stories) (Map.empty, []) \<noteq> None"
    by (intro walk_fuel(2) walk_inv_start) (simp_all add: dom_needs_of)
  then show thesis using that by (auto simp: cycle_run_def cycle_of_def)
qed

lemma cycle_run_total: "cycle_run stories \<noteq> None"
  by (rule cycle_walk [of stories]) simp

lemma cycle_is_loop: "cycle_of stories \<noteq> [] \<Longrightarrow> is_loop (needs_of stories) (cycle_of stories)"
  by (rule cycle_walk [of stories]) (use walk_sound(2) walk_inv_start in fastforce)

lemma no_cycle_acyclic:
  assumes "cycle_of stories = []"
  shows "acyclic (waits (needs_of stories))"
proof -
  let ?N = "needs_of stories"
  obtain marks path where
    "walk_each (Suc (length stories)) ?N (map ps_key stories) (Map.empty, []) = Some ([], marks, path)"
    using cycle_walk [of stories] assms by metis
  from walk_sound(2) [OF this walk_inv_start]
  have m: "walk_inv ?N (marks, path)" "\<forall>k \<in> set (map ps_key stories) \<inter> dom ?N. marks k = Some Done"
    by auto
  then have "dom ?N \<subseteq> done_keys marks" by (auto simp: dom_needs_of done_keys_def)
  moreover have "waits ?N \<subseteq> dom ?N \<times> dom ?N" by (auto simp: waits_def)
  ultimately have "Restr (waits ?N) (done_keys marks) = waits ?N" by blast
  then show ?thesis using m(1) by (simp add: walk_inv_def)
qed

lemma successively_trancl:
  "successively (\<lambda>a b. (a, b) \<in> R) l \<Longrightarrow> 2 \<le> length l \<Longrightarrow> (hd l, last l) \<in> R\<^sup>+"
proof (induction l rule: induct_list012)
  case (3 a b l)
  show ?case
  proof (cases l)
    case Nil
    with 3 show ?thesis by auto
  next
    case (Cons c l')
    with 3 have "(b, last (b # l)) \<in> R\<^sup>+" "(a, b) \<in> R" by auto
    then show ?thesis using Cons by (auto intro: trancl_into_trancl2)
  qed
qed auto

lemma cycle_empty_iff: "cycle_of stories = [] \<longleftrightarrow> acyclic (waits (needs_of stories))"
proof (cases "cycle_of stories = []")
  case False
  then have "is_loop (needs_of stories) (cycle_of stories)" by (rule cycle_is_loop)
  then have "(hd (cycle_of stories), hd (cycle_of stories)) \<in> (waits (needs_of stories))\<^sup>+"
    using successively_trancl [of "waits (needs_of stories)" "cycle_of stories"]
    by (simp add: is_loop_def)
  then have "\<not> acyclic (waits (needs_of stories))" by (auto simp: acyclic_def)
  with False show ?thesis by simp
qed (simp add: no_cycle_acyclic)

text \<open>C16. The search for a loop of stories always ends, and is right both ways: it finds
  nothing exactly when no story waits on itself through any others, and what it finds is such
  a loop, written round to where it began.\<close>

theorem cycle_found_iff:
  "cycle_run stories = Some (cycle_of stories) \<and>
   (cycle_of stories = [] \<longleftrightarrow> acyclic (waits (needs_of stories))) \<and>
   (cycle_of stories = [] \<or> is_loop (needs_of stories) (cycle_of stories))"
proof -
  have "cycle_run stories = Some (cycle_of stories)"
    using cycle_run_total [of stories] by (auto simp: cycle_of_def)
  then show ?thesis using cycle_is_loop [of stories] cycle_empty_iff [of stories] by blast
qed

end
