(* ===== verification/EpicRules.thy ===== *)
theory EpicRules
  imports PlanModel GraphSearch "HOL-Library.Char_ord" "HOL-Library.List_Lexorder"
begin

text \<open>
  \<^verbatim>\<open>domain/epicrules.go\<close>: what a rig asks of every epic worked in it, an epic held
  to it, and the waivers of it; and \<open>Shape\<close> of \<^verbatim>\<open>plan.go\<close>, by which a plan is
  held to the same.  Durations are nanoseconds.  Go sorts strings by their bytes, the order
  of the two order theories imported.
\<close>

subsection \<open>The requirements of a rig\<close>

record capacity =
  ExpectedViewers :: int
  SSECap :: int
  NginxWorkerConnections :: int
  MemoryFreeMB :: int

abbreviation LandingEach :: string where "LandingEach \<equiv> ''each''"
abbreviation LandingBatch :: string where "LandingBatch \<equiv> ''batch''"

definition DefaultBatchEvery :: duration where "DefaultBatchEvery = 30 * minute"
definition DefaultBatchMin :: int where "DefaultBatchMin = 2"
definition DefaultBatchMax :: int where "DefaultBatchMax = 6"
definition DefaultFixerModel :: string where "DefaultFixerModel = ''sonnet''"
definition DefaultFixerEffort :: string where "DefaultFixerEffort = ''high''"
definition DefaultFixerTurns :: int where "DefaultFixerTurns = 60"

record landing =
  l_mode :: string
  l_batch_every :: duration
  l_batch_min :: int
  l_batch_max :: int
  l_fixer_model :: string
  l_fixer_effort :: string
  l_fixer_turns :: int

record requirements =
  r_sections :: "string list"
  r_last_labels :: "string list"
  r_guest :: string
  r_version_files :: "string list"
  r_changelog_files :: "string list"
  r_union_merge_files :: "string list"
  r_timing_tests :: "string list"
  r_public_url :: string
  r_site_url :: string
  r_healthz_url :: string
  r_files_expected :: bool
  r_nightly_suite :: bool
  r_suite_epic :: string
  r_capacity :: capacity
  r_landing :: landing
  r_warnings :: "string list"

definition landing_settings :: "requirements \<Rightarrow> landing" where
  "landing_settings r =
     (let s = r_landing r;
          s = (if l_mode s = [] then s\<lparr>l_mode := LandingEach\<rparr> else s);
          s = (if l_batch_every s \<le> 0 then s\<lparr>l_batch_every := DefaultBatchEvery\<rparr> else s);
          s = (if l_batch_min s \<le> 0 then s\<lparr>l_batch_min := DefaultBatchMin\<rparr> else s);
          s = (if l_batch_max s \<le> 0 then s\<lparr>l_batch_max := DefaultBatchMax\<rparr> else s);
          s = (if l_fixer_model s = [] then s\<lparr>l_fixer_model := DefaultFixerModel\<rparr> else s);
          s = (if l_fixer_effort s = [] then s\<lparr>l_fixer_effort := DefaultFixerEffort\<rparr> else s);
          s = (if l_fixer_turns s \<le> 0 then s\<lparr>l_fixer_turns := DefaultFixerTurns\<rparr> else s)
      in s)"

definition requires_any :: "requirements \<Rightarrow> bool" where
  "requires_any r \<longleftrightarrow> 0 < length (r_sections r) \<or> 0 < length (r_last_labels r)"

definition required_names :: "requirements \<Rightarrow> string list" where
  "required_names r = r_sections r @ r_last_labels r"

subsection \<open>The shape of an epic\<close>

record story_shape =
  ss_key :: string
  ss_labels :: "string list"
  ss_needs :: "string list"
  ss_closed :: bool

record epic_shape =
  es_description :: string
  es_stories :: "story_shape list"

definition plan_shape :: "plan \<Rightarrow> epic_shape" where
  "plan_shape p =
     \<lparr>es_description = pe_description (pl_epic p),
      es_stories = map (\<lambda>s. \<lparr>ss_key = ps_key s, ss_labels = ps_labels s, ss_needs = ps_needs s,
         ss_closed = False\<rparr>) (pl_stories p)\<rparr>"

definition line_names_section :: "string \<Rightarrow> string \<Rightarrow> bool" where
  "line_names_section name line0 \<longleftrightarrow>
     (let line = trim_space line0;
          heading = has_prefix line ''#'';
          line = (if heading then trim_space (trim_left_set line ''#'') else line)
      in if heading \<and> equal_fold (trim_space (trim_suffix line '':'')) name then True
         else let line = trim_list_marker line
              in length name < length line \<and> equal_fold (take (length name) line) name \<and>
                 line ! length name = CHR '':'')"

definition has_section :: "string \<Rightarrow> string \<Rightarrow> bool" where
  "has_section description name \<longleftrightarrow>
     list_ex (line_names_section (trim_space name)) (split_on (CHR 0x0A) description)"

subsection \<open>The stories a story waits on\<close>

definition shape_needs :: "story_shape list \<Rightarrow> string \<Rightarrow> string list" where
  "shape_needs stories key =
     (case foldl (\<lambda>m s. m(ss_key s \<mapsto> ss_needs s)) Map.empty stories key of
        None \<Rightarrow> [] | Some ns \<Rightarrow> ns)"

fun push_needs :: "string list \<Rightarrow> string list \<Rightarrow> string list \<times> string list \<Rightarrow> string list \<times> string list" where
  "push_needs keys [] (queue, seen) = (queue, seen)"
| "push_needs keys (need # ns) (queue, seen) =
     (if List.member keys need \<and> \<not> List.member seen need
      then push_needs keys ns (queue @ [need], need # seen)
      else push_needs keys ns (queue, seen))"

lemma push_needs_measure:
  "push_needs keys ns (queue, seen) = (queue', seen') \<Longrightarrow>
     length queue' + card (set keys - set seen') = length queue + card (set keys - set seen)"
proof (induction ns arbitrary: queue seen)
  case (Cons n ns)
  show ?case
  proof (cases "n \<in> set keys \<and> n \<notin> set seen")
    case True
    then have "set keys - set (n # seen) = set keys - set seen - {n}" "n \<in> set keys - set seen"
      by auto
    then have "card (set keys - set seen) = Suc (card (set keys - set (n # seen)))"
      using card_Suc_Diff1 [of "set keys - set seen" n] by simp
    moreover have "length queue' + card (set keys - set seen') =
        length (queue @ [n]) + card (set keys - set (n # seen))"
      by (rule Cons.IH) (use Cons.prems True in simp)
    ultimately show ?thesis by simp
  next
    case False
    then show ?thesis using Cons.IH [of queue seen] Cons.prems by auto
  qed
qed simp

lemma push_needs_sum:
  "(case push_needs keys ns (queue, seen) of (q, s) \<Rightarrow> length q + card (set keys - set s)) =
     length queue + card (set keys - set seen)"
  by (cases "push_needs keys ns (queue, seen)") (simp add: push_needs_measure)

function waits_loop ::
  "story_shape list \<Rightarrow> string list \<Rightarrow> string list \<Rightarrow> string list \<Rightarrow> string list"
where
  "waits_loop stories keys [] seen = seen"
| "waits_loop stories keys (next # queue) seen =
     (case push_needs keys (shape_needs stories next) (queue, seen) of
        (queue', seen') \<Rightarrow> waits_loop stories keys queue' seen')"
  by pat_completeness auto
termination
  by (relation "measure (\<lambda>(_, keys, queue, seen). length queue + card (set keys - set seen))")
    (auto simp: push_needs_sum)

definition waits_on_keys :: "story_shape list \<Rightarrow> string list \<Rightarrow> string \<Rightarrow> string list" where
  "waits_on_keys stories keys key = waits_loop stories keys [key] []"

subsection \<open>The last story\<close>

datatype last_story_why =
    NoStoryCarries
  | ClosestWaitsNot "string list"

definition carries :: "string \<Rightarrow> story_shape \<Rightarrow> bool" where
  "carries label s \<longleftrightarrow>
     list_ex (\<lambda>have. equal_fold (trim_space have) (trim_space label)) (ss_labels s)"

definition missing_stories :: "story_shape list \<Rightarrow> string list \<Rightarrow> story_shape \<Rightarrow> string list" where
  "missing_stories stories keys carrier =
     (let waited = waits_on_keys stories keys (ss_key carrier)
      in map ss_key (filter (\<lambda>s. ss_key s \<noteq> ss_key carrier \<and> \<not> List.member waited (ss_key s) \<and>
           (ss_closed carrier \<or> \<not> ss_closed s)) stories))"

text \<open>The loop over the carriers: \<open>best\<close> is \<open>None\<close> before the first.\<close>

fun closest_carrier ::
  "story_shape list \<Rightarrow> string list \<Rightarrow> story_shape list \<Rightarrow> string list option \<Rightarrow> string list option"
where
  "closest_carrier stories keys [] best = best"
| "closest_carrier stories keys (c # cs) best =
     (let missing = missing_stories stories keys c
      in if length missing = 0 then None
         else closest_carrier stories keys cs
           (case best of
              None \<Rightarrow> Some missing
            | Some b \<Rightarrow> if length missing < length b then Some missing else Some b))"

definition last_story_problem :: "story_shape list \<Rightarrow> string \<Rightarrow> last_story_why option" where
  "last_story_problem stories label =
     (let keys = map ss_key stories;
          carriers = filter (carries label) stories
      in if length carriers = 0 then Some NoStoryCarries
         else map_option (\<lambda>best. ClosestWaitsNot (sort best))
                (closest_carrier stories keys carriers None))"

datatype shortfall =
    SectionLack string
  | LastStoryLack string last_story_why

definition check_epic :: "requirements \<Rightarrow> epic_shape \<Rightarrow> shortfall list" where
  "check_epic r epic =
     map SectionLack (filter (\<lambda>name. \<not> has_section (es_description epic) name) (r_sections r)) @
     List.map_filter (\<lambda>label. map_option (LastStoryLack label)
       (last_story_problem (es_stories epic) label)) (r_last_labels r)"

subsection \<open>Waivers\<close>

definition match_requirement :: "requirements \<Rightarrow> string \<Rightarrow> bool \<times> bool" where
  "match_requirement r name =
     (list_ex (\<lambda>have. have = name) (r_sections r), list_ex (\<lambda>have. have = name) (r_last_labels r))"

definition WaiverLabelPrefix :: string where "WaiverLabelPrefix = ''epic-waiver:''"

definition waiver_label :: "bool \<Rightarrow> string \<Rightarrow> string" where
  "waiver_label is_section name =
     WaiverLabelPrefix @ (if is_section then ''section:'' else ''story:'') @
     to_lower (join ''-'' (str_fields name))"

fun lack_label :: "shortfall \<Rightarrow> string" where
  "lack_label (SectionLack name) = waiver_label True name"
| "lack_label (LastStoryLack name _) = waiver_label False name"

definition waives :: "string list \<Rightarrow> shortfall \<Rightarrow> bool" where
  "waives labels lack \<longleftrightarrow>
     (let want = lack_label lack in list_ex (\<lambda>label. equal_fold (trim_space label) want) labels)"

subsection \<open>Waiting on is reaching\<close>

definition sibling_needs :: "story_shape list \<Rightarrow> string \<Rightarrow> string list" where
  "sibling_needs stories key =
     filter (\<lambda>need. need \<in> ss_key ` set stories) (shape_needs stories key)"

text \<open>A story waits on another, directly or through the stories it waits on.\<close>

abbreviation waits_through :: "story_shape list \<Rightarrow> string \<Rightarrow> string \<Rightarrow> bool" where
  "waits_through stories \<equiv> (edge (sibling_needs stories))\<^sup>+\<^sup>+"

lemma push_needs_sets:
  "push_needs keys ns (queue, seen) = (queue', seen') \<Longrightarrow>
     set seen' = set seen \<union> (set ns \<inter> set keys) \<and>
     set queue' = set queue \<union> (set ns \<inter> set keys - set seen)"
proof (induction ns arbitrary: queue seen)
  case (Cons n ns)
  show ?case
  proof (cases "n \<in> set keys \<and> n \<notin> set seen")
    case True
    then show ?thesis using Cons.IH [of "queue @ [n]" "n # seen"] Cons.prems by auto
  next
    case False
    then show ?thesis using Cons.IH [of queue seen] Cons.prems by auto
  qed
qed simp

definition waits_inv :: "story_shape list \<Rightarrow> string \<Rightarrow> string list \<Rightarrow> string list \<Rightarrow> bool" where
  "waits_inv stories key queue seen \<longleftrightarrow>
     set seen \<subseteq> {y. waits_through stories key y} \<and> set queue \<subseteq> insert key (set seen) \<and>
     (\<forall>v \<in> insert key (set seen) - set queue. set (sibling_needs stories v) \<subseteq> set seen)"

lemma waits_inv_step:
  assumes inv: "waits_inv stories key (x # queue) seen"
    and push: "push_needs (map ss_key stories) (shape_needs stories x) (queue, seen) = (queue', seen')"
  shows "waits_inv stories key queue' seen'"
proof -
  have succs: "set (sibling_needs stories x) = set (shape_needs stories x) \<inter> set (map ss_key stories)"
    by (auto simp: sibling_needs_def)
  have sets: "set seen' = set seen \<union> set (sibling_needs stories x)"
    "set queue' = set queue \<union> (set (sibling_needs stories x) - set seen)"
    using push_needs_sets [OF push] succs by auto
  have x: "x = key \<or> waits_through stories key x"
    using inv by (auto simp: waits_inv_def)
  have "waits_through stories key y" if "y \<in> set (sibling_needs stories x)" for y
    using x that by (auto simp: edge_def intro: tranclp.trancl_into_trancl)
  then have "set seen' \<subseteq> {y. waits_through stories key y}"
    using inv by (auto simp: sets waits_inv_def)
  moreover have "set (sibling_needs stories v) \<subseteq> set seen'"
    if "v \<in> insert key (set seen') - set queue'" for v
    using that inv by (cases "v = x") (auto simp: sets waits_inv_def)
  moreover have "set queue' \<subseteq> insert key (set seen')"
    using inv by (auto simp: sets waits_inv_def)
  ultimately show ?thesis by (simp add: waits_inv_def)
qed

lemma waits_loop_reach:
  "waits_inv stories key queue seen \<Longrightarrow>
     set (waits_loop stories (map ss_key stories) queue seen) = {y. waits_through stories key y}"
proof (induction stories "map ss_key stories" queue seen rule: waits_loop.induct)
  case (1 stories seen)
  have "y \<in> set seen" if "waits_through stories key y" for y
    using that 1 by (induction rule: tranclp_induct) (auto simp: waits_inv_def edge_def)
  then show ?case using 1 by (auto simp: waits_inv_def)
next
  case (2 stories x queue seen)
  obtain q s where push: "push_needs (map ss_key stories) (shape_needs stories x) (queue, seen) = (q, s)"
    by (cases "push_needs (map ss_key stories) (shape_needs stories x) (queue, seen)")
  then show ?case using 2 waits_inv_step [OF "2.prems" push] by simp
qed

lemma waits_on_keys_reach:
  "set (waits_on_keys stories (map ss_key stories) key) = {y. waits_through stories key y}"
  unfolding waits_on_keys_def by (rule waits_loop_reach) (simp add: waits_inv_def)

text \<open>C24. The stories a story is found to wait on are exactly those it reaches through the
  needs of the epic's own stories, in one step or more, loops included.\<close>

theorem waits_on_is_reaching:
  "set (waits_on_keys stories (map ss_key stories) key) =
     {y. (edge (sibling_needs stories))\<^sup>+\<^sup>+ key y}"
  by (rule waits_on_keys_reach)

subsection \<open>Holding an epic to its requirements\<close>

definition is_last_story :: "story_shape list \<Rightarrow> string \<Rightarrow> story_shape \<Rightarrow> bool" where
  "is_last_story stories label c \<longleftrightarrow> c \<in> set stories \<and> carries label c \<and>
     (\<forall>s \<in> set stories. ss_key s \<noteq> ss_key c \<longrightarrow> ss_closed s \<and> \<not> ss_closed c \<or>
        waits_through stories (ss_key c) (ss_key s))"

lemma missing_stories_nil:
  "missing_stories stories (map ss_key stories) c = [] \<longleftrightarrow>
     (\<forall>s \<in> set stories. ss_key s \<noteq> ss_key c \<longrightarrow> ss_closed s \<and> \<not> ss_closed c \<or>
        waits_through stories (ss_key c) (ss_key s))"
  by (auto simp: missing_stories_def filter_empty_conv waits_on_keys_reach)

lemma closest_carrier_None:
  "closest_carrier stories keys cs best = None \<longleftrightarrow>
     (\<exists>c \<in> set cs. missing_stories stories keys c = []) \<or> cs = [] \<and> best = None"
  by (induction stories keys cs best rule: closest_carrier.induct)
    (auto simp: Let_def split: option.splits)

lemma last_story_problem_None:
  "last_story_problem stories label = None \<longleftrightarrow> (\<exists>c. is_last_story stories label c)"
  by (auto simp: last_story_problem_def Let_def closest_carrier_None filter_empty_conv
      missing_stories_nil is_last_story_def)

text \<open>C25. An epic falls short of nothing exactly when its description has every section the rig
  requires and, for each label, some story carrying it waits, directly or through others, on
  every other story of the epic, but for the closed ones when it is itself still open.\<close>

theorem check_passes_iff:
  "check_epic r epic = [] \<longleftrightarrow>
     list_all (has_section (es_description epic)) (r_sections r) \<and>
     list_all (\<lambda>label. \<exists>c. is_last_story (es_stories epic) label c) (r_last_labels r)"
proof -
  have "List.map_filter f xs = [] \<longleftrightarrow> (\<forall>x \<in> set xs. f x = None)"
    for f :: "string \<Rightarrow> shortfall option" and xs
    by (induction xs) (auto simp: List.map_filter_simps split: option.splits)
  then show ?thesis
    by (auto simp: check_epic_def filter_empty_conv list_all_iff last_story_problem_None)
qed

subsection \<open>Landing settings\<close>

lemma landing_settings_fields:
  "l_mode (landing_settings r) = (if l_mode (r_landing r) = [] then LandingEach else l_mode (r_landing r))"
  "l_batch_every (landing_settings r) =
     (if l_batch_every (r_landing r) \<le> 0 then DefaultBatchEvery else l_batch_every (r_landing r))"
  "l_batch_min (landing_settings r) =
     (if l_batch_min (r_landing r) \<le> 0 then DefaultBatchMin else l_batch_min (r_landing r))"
  "l_batch_max (landing_settings r) =
     (if l_batch_max (r_landing r) \<le> 0 then DefaultBatchMax else l_batch_max (r_landing r))"
  "l_fixer_model (landing_settings r) =
     (if l_fixer_model (r_landing r) = [] then DefaultFixerModel else l_fixer_model (r_landing r))"
  "l_fixer_effort (landing_settings r) =
     (if l_fixer_effort (r_landing r) = [] then DefaultFixerEffort else l_fixer_effort (r_landing r))"
  "l_fixer_turns (landing_settings r) =
     (if l_fixer_turns (r_landing r) \<le> 0 then DefaultFixerTurns else l_fixer_turns (r_landing r))"
  by (simp_all add: landing_settings_def Let_def)

lemma landing_settings_whole:
  "l_mode (landing_settings r) \<noteq> [] \<and> 0 < l_batch_every (landing_settings r) \<and>
   0 < l_batch_min (landing_settings r) \<and> 0 < l_batch_max (landing_settings r) \<and>
   l_fixer_model (landing_settings r) \<noteq> [] \<and> l_fixer_effort (landing_settings r) \<noteq> [] \<and>
   0 < l_fixer_turns (landing_settings r) \<and>
   landing_settings (r\<lparr>r_landing := landing_settings r\<rparr>) = landing_settings r"
proof -
  have "landing_settings (r\<lparr>r_landing := landing_settings r\<rparr>) = landing_settings r"
    by (rule landing.equality)
      (simp_all add: landing_settings_fields DefaultBatchEvery_def minute_def second_def
        DefaultBatchMin_def DefaultBatchMax_def DefaultFixerModel_def DefaultFixerEffort_def
        DefaultFixerTurns_def)
  then show ?thesis
    by (simp add: landing_settings_fields DefaultBatchEvery_def minute_def second_def
        DefaultBatchMin_def DefaultBatchMax_def DefaultFixerModel_def DefaultFixerEffort_def
        DefaultFixerTurns_def)
qed

text \<open>
  The fewest of a batch are not held against the most of one: a file that writes a
  \<open>batch_min\<close> above its \<open>batch_max\<close> keeps both.
\<close>

lemma batch_min_above_max:
  "l_batch_max (landing_settings r) < l_batch_min (landing_settings r)"
  if "l_batch_min (r_landing r) = 9" "l_batch_max (r_landing r) = 3"
  using that by (simp add: landing_settings_fields)

subsection \<open>Waivers name one requirement\<close>

definition slug :: "string \<Rightarrow> string" where
  "slug name = to_lower (join ''-'' (str_fields name))"

fun lack_of_section :: "shortfall \<Rightarrow> bool" where
  "lack_of_section (SectionLack name) \<longleftrightarrow> True"
| "lack_of_section (LastStoryLack name _) \<longleftrightarrow> False"

fun lack_name :: "shortfall \<Rightarrow> string" where
  "lack_name (SectionLack name) = name"
| "lack_name (LastStoryLack name _) = name"

abbreviation kind_words :: "bool \<Rightarrow> string" where
  "kind_words b \<equiv> WaiverLabelPrefix @ (if b then ''section:'' else ''story:'')"

lemma lack_label_slug: "lack_label lack = waiver_label (lack_of_section lack) (lack_name lack)"
  by (cases lack) simp_all

lemma waiver_label_slug: "waiver_label b name = kind_words b @ slug name"
  by (simp add: waiver_label_def slug_def)

lemma kind_words_plain: "list_all plain (kind_words b)"
  by (simp add: WaiverLabelPrefix_def plain_def ascii_space_def byte_def)

lemma str_fields_no_space: "list_all no_space (str_fields s)"
proof (induction s rule: str_fields.induct)
  case (1 s)
  show ?case
    by (subst str_fields.simps)
      (use 1 span_word_no_space [of "trim_left_space s"] in \<open>auto simp: Let_def\<close>)
qed

lemma no_space_waiver_label: "no_space (waiver_label b name)"
  unfolding waiver_label_slug slug_def
  by (intro no_space_plain_append kind_words_plain no_space_to_lower no_space_join
      str_fields_no_space) (simp add: plain_def ascii_space_def byte_def)

lemma fold_kind_words: "fold_case (kind_words b @ s) = kind_words b @ fold_case s"
proof -
  have "list_all (\<lambda>c. byte c < 128) (kind_words b)"
    using kind_words_plain [of b] by (auto simp: list_all_iff plain_def)
  moreover have "map lower_byte (kind_words b) = kind_words b"
    by (simp add: WaiverLabelPrefix_def lower_byte_def is_upper_def byte_def)
  ultimately show ?thesis by (simp only: fold_case_ascii)
qed

lemma kind_words_apart: "kind_words b @ s = kind_words c @ t \<longleftrightarrow> b = c \<and> s = t"
  by (cases b; cases c) (simp_all add: WaiverLabelPrefix_def)

lemma waiver_label_fold:
  "equal_fold (waiver_label b n) (waiver_label c m) \<longleftrightarrow> b = c \<and> equal_fold (slug n) (slug m)"
  by (simp only: equal_fold_def waiver_label_slug fold_kind_words kind_words_apart)

text \<open>The label a waiver is recorded by waives the requirement it was recorded for,
  whatever other labels the epic carries, and it waives a shortfall only of the kind, section
  or last story, it names, and of a name that is the same but for case and spacing.\<close>

theorem waiver_names_one_requirement:
  "waives (before @ [lack_label lack] @ after) lack \<and>
   (waives [waiver_label b name] lack \<longleftrightarrow>
      b = lack_of_section lack \<and> equal_fold (slug name) (slug (lack_name lack)))"
  using no_space_waiver_label
  by (simp add: waives_def Let_def lack_label_slug no_space_trim waiver_label_fold)

end
