(* ===== verification/GoPath.thy ===== *)
theory GoPath
  imports Utf8
begin

text \<open>
  The two functions of the Go package \<open>path\<close> the program calls.  \<open>path.Match\<close> reads
  its pattern chunk by chunk, a chunk being what stands between two stars: a chunk matches
  at the first place it can, and no choice is taken back.  A pattern that is not well formed
  matches nothing, for every caller drops the error.  \<open>path.Clean\<close> is lexical.
\<close>

subsection \<open>path.Match\<close>

datatype glob_token =
    GLit char
  | GAny
  | GClass bool "(nat \<times> nat) list"

text \<open>\<open>utf8.DecodeRuneInString\<close> of a text that is not empty: the rune and its width.\<close>

definition decode_rune :: "string \<Rightarrow> nat \<times> nat" where
  "decode_rune s = (if rune_width s = 0 then (0xFFFD, 1) else (rune_value s (rune_width s), rune_width s))"

lemma decode_rune_width: "s \<noteq> [] \<Longrightarrow> 0 < snd (decode_rune s) \<and> snd (decode_rune s) \<le> length s"
  using rune_width_le [of s] by (cases s) (auto simp: decode_rune_def)

text \<open>\<open>getEsc\<close>: one character of a class, escaped or not; something must follow it.\<close>

definition get_esc :: "string \<Rightarrow> (nat \<times> string) option" where
  "get_esc chunk =
     (let chunk' = (if chunk \<noteq> [] \<and> hd chunk = CHR 0x5C then tl chunk else chunk)
      in if chunk = [] \<or> hd chunk = CHR ''-'' \<or> hd chunk = CHR '']'' \<or> chunk' = [] then None
         else if rune_width chunk' = 0 then None
         else let rest = drop (rune_width chunk') chunk'
              in if rest = [] then None else Some (rune_value chunk' (rune_width chunk'), rest))"

lemma get_esc_shorter: "get_esc s = Some (r, t) \<Longrightarrow> length t < length s"
  by (cases s) (auto simp: get_esc_def Let_def split: if_splits)

text \<open>The ranges of a class, up to the bracket that closes it.\<close>

function class_ranges :: "string \<Rightarrow> (nat \<times> nat) list \<Rightarrow> ((nat \<times> nat) list \<times> string) option" where
  "class_ranges chunk acc =
     (if chunk \<noteq> [] \<and> hd chunk = CHR '']'' \<and> acc \<noteq> [] then Some (acc, tl chunk)
      else (case get_esc chunk of
              None \<Rightarrow> None
            | Some (lo, rest) \<Rightarrow>
                if hd rest = CHR ''-''
                then (case get_esc (tl rest) of
                        None \<Rightarrow> None
                      | Some (h, rest') \<Rightarrow> class_ranges rest' (acc @ [(lo, h)]))
                else class_ranges rest (acc @ [(lo, lo)])))"
  by pat_completeness auto
termination
  by (relation "measure (\<lambda>(s, _). length s)") (fastforce dest: get_esc_shorter)+

declare class_ranges.simps [simp del]

lemma class_ranges_shorter: "class_ranges s acc = Some (rs, t) \<Longrightarrow> length t < length s"
proof (induction s acc rule: class_ranges.induct)
  case (1 s acc)
  show ?case
  proof (cases "s \<noteq> [] \<and> hd s = CHR '']'' \<and> acc \<noteq> []")
    case True
    with "1.prems" show ?thesis by (auto simp: class_ranges.simps [of s])
  next
    case False
    then obtain lo rest where e: "get_esc s = Some (lo, rest)"
      using "1.prems" by (auto simp: class_ranges.simps [of s] split: option.splits)
    note shorter = get_esc_shorter [OF e]
    show ?thesis
    proof (cases "hd rest = CHR ''-''")
      case True
      then obtain h rest' where e': "get_esc (tl rest) = Some (h, rest')"
        using "1.prems" False e by (auto simp: class_ranges.simps [of s] split: option.splits)
      then have "class_ranges rest' (acc @ [(lo, h)]) = Some (rs, t)"
        using "1.prems" False e True by (auto simp: class_ranges.simps [of s])
      then show ?thesis
        using "1.IH"(1) [OF False e refl True e' refl] get_esc_shorter [OF e'] shorter by simp
    next
      case dash: False
      then have "class_ranges rest (acc @ [(lo, lo)]) = Some (rs, t)"
        using "1.prems" False e by (auto simp: class_ranges.simps [of s])
      then show ?thesis using "1.IH"(2) [OF False e refl dash] shorter by simp
    qed
  qed
qed

definition glob_class :: "string \<Rightarrow> (glob_token \<times> string) option" where
  "glob_class s =
     (let negated = (s \<noteq> [] \<and> hd s = CHR ''^'');
          s' = (if negated then tl s else s)
      in map_option (\<lambda>(ranges, rest). (GClass negated ranges, rest)) (class_ranges s' []))"

lemma glob_class_shorter: "glob_class s = Some (t, r) \<Longrightarrow> length r < length s"
  by (cases s) (auto simp: glob_class_def Let_def dest!: class_ranges_shorter split: if_splits)

text \<open>The tokens of a chunk and what follows it: \<open>scanChunk\<close> and the reading half of
  \<open>matchChunk\<close>.\<close>

function glob_chunk :: "string \<Rightarrow> (glob_token list \<times> string) option" where
  "glob_chunk [] = Some ([], [])"
| "glob_chunk (c # s) =
     (if c = CHR ''*'' then Some ([], c # s)
      else if c = CHR ''['' then
        (case glob_class s of
           None \<Rightarrow> None
         | Some (t, r) \<Rightarrow> map_option (\<lambda>(ts, q). (t # ts, q)) (glob_chunk r))
      else if c = CHR ''?'' then map_option (\<lambda>(ts, q). (GAny # ts, q)) (glob_chunk s)
      else if c = CHR 0x5C then
        (case s of
           [] \<Rightarrow> None
         | d # s' \<Rightarrow> map_option (\<lambda>(ts, q). (GLit d # ts, q)) (glob_chunk s'))
      else map_option (\<lambda>(ts, q). (GLit c # ts, q)) (glob_chunk s))"
  by pat_completeness auto
termination
  by (relation "measure length") (auto dest: glob_class_shorter)

lemma glob_chunk_shorter: "glob_chunk s = Some (ts, r) \<Longrightarrow> length r \<le> length s"
  by (induction s arbitrary: ts r rule: glob_chunk.induct)
    (fastforce split: if_splits option.splits list.splits dest: glob_class_shorter)+

text \<open>A pattern: its chunks, each with whether a star stands before it.\<close>

function glob_chunks :: "string \<Rightarrow> (bool \<times> glob_token list) list option" where
  "glob_chunks s =
     (if s = [] then Some []
      else (let star = (hd s = CHR ''*'')
            in case glob_chunk (dropWhile (\<lambda>c. c = CHR ''*'') s) of
                 None \<Rightarrow> None
               | Some (ts, r) \<Rightarrow>
                   if length r < length s then map_option (\<lambda>cs. (star, ts) # cs) (glob_chunks r)
                   else None))"
  by pat_completeness auto
termination
  by (relation "measure length") auto

declare glob_chunks.simps [simp del]

text \<open>The matching half of \<open>matchChunk\<close>: what of the name is left.\<close>

fun chunk_match :: "glob_token list \<Rightarrow> string \<Rightarrow> string option" where
  "chunk_match [] s = Some s"
| "chunk_match (t # ts) [] = None"
| "chunk_match (GLit c # ts) (b # s) = (if b = c then chunk_match ts s else None)"
| "chunk_match (GAny # ts) (b # s) =
     (if b = CHR ''/'' then None
      else chunk_match ts (drop (snd (decode_rune (b # s))) (b # s)))"
| "chunk_match (GClass negated ranges # ts) (b # s) =
     (let (r, n) = decode_rune (b # s)
      in if list_ex (\<lambda>(lo, h). lo \<le> r \<and> r \<le> h) ranges = negated then None
         else chunk_match ts (drop n (b # s)))"

text \<open>After a star: the first place past here where the chunk matches.\<close>

fun skip_match :: "glob_token list \<Rightarrow> bool \<Rightarrow> string \<Rightarrow> string option" where
  "skip_match ts is_last [] = None"
| "skip_match ts is_last (c # s) =
     (if c = CHR ''/'' then None
      else (case chunk_match ts s of
              Some t \<Rightarrow> if is_last \<and> t \<noteq> [] then skip_match ts is_last s else Some t
            | None \<Rightarrow> skip_match ts is_last s))"

fun match_chunks :: "(bool \<times> glob_token list) list \<Rightarrow> string \<Rightarrow> bool" where
  "match_chunks [] name \<longleftrightarrow> name = []"
| "match_chunks ((star, ts) # cs) name \<longleftrightarrow>
     (if star \<and> ts = [] then CHR ''/'' \<notin> set name
      else (case chunk_match ts name of
              Some t \<Rightarrow>
                if t = [] \<or> cs \<noteq> [] then match_chunks cs t
                else if star
                then (case skip_match ts (cs = []) name of
                        Some t' \<Rightarrow> match_chunks cs t' | None \<Rightarrow> False)
                else False
            | None \<Rightarrow>
                if star
                then (case skip_match ts (cs = []) name of
                        Some t' \<Rightarrow> match_chunks cs t' | None \<Rightarrow> False)
                else False))"

definition path_match :: "string \<Rightarrow> string \<Rightarrow> bool" where
  "path_match pattern name =
     (case glob_chunks pattern of None \<Rightarrow> False | Some cs \<Rightarrow> match_chunks cs name)"

text \<open>A name with no character a glob gives a meaning to matches itself alone.\<close>

definition glob_free :: "string \<Rightarrow> bool" where
  "glob_free s \<longleftrightarrow> list_all (\<lambda>c. c \<notin> set ''*?['' \<and> c \<noteq> CHR 0x5C) s"

lemma glob_chunk_free: "glob_free s \<Longrightarrow> glob_chunk s = Some (map GLit s, [])"
  by (induction s) (auto simp: glob_free_def)

lemma chunk_match_lits: "chunk_match (map GLit p) s = (if has_prefix s p then Some (drop (length p) s) else None)"
proof (induction p arbitrary: s)
  case (Cons c p)
  then show ?case by (cases s) (auto simp: has_prefix_def)
qed (simp add: has_prefix_def)

lemma path_match_free:
  assumes "glob_free p"
  shows "path_match p name \<longleftrightarrow> name = p"
proof (cases p)
  case Nil
  then show ?thesis by (simp add: path_match_def glob_chunks.simps)
next
  case (Cons c q)
  then have "c \<noteq> CHR ''*''" using assms by (simp add: glob_free_def)
  then have "dropWhile (\<lambda>c. c = CHR ''*'') p = p" "hd p \<noteq> CHR ''*''" by (simp_all add: Cons)
  then have "glob_chunks p = Some [(False, map GLit p)]"
    using glob_chunk_free [OF assms] Cons
    by (subst glob_chunks.simps) (simp add: glob_chunks.simps [of "[]"])
  then show ?thesis
    by (auto simp: path_match_def chunk_match_lits has_prefix_iff)
qed

lemma path_match_star: "path_match ''*'' name \<longleftrightarrow> CHR ''/'' \<notin> set name"
  by (simp add: path_match_def glob_chunks.simps)

subsection \<open>path.Clean\<close>

text \<open>One element at a time, the ones kept in reverse.\<close>

fun clean_parts :: "bool \<Rightarrow> string list \<Rightarrow> string list \<Rightarrow> string list" where
  "clean_parts rooted kept [] = rev kept"
| "clean_parts rooted kept (e # es) =
     (if e = [] \<or> e = ''.'' then clean_parts rooted kept es
      else if e = ''..'' then
        (case kept of
           [] \<Rightarrow> clean_parts rooted (if rooted then [] else [e]) es
         | k # ks \<Rightarrow>
             if k = ''..'' then clean_parts rooted (e # kept) es else clean_parts rooted ks es)
      else clean_parts rooted (e # kept) es)"

definition path_clean :: "string \<Rightarrow> string" where
  "path_clean p =
     (if p = [] then ''.''
      else let rooted = has_prefix p ''/'';
               out = join ''/'' (clean_parts rooted [] (split_on (CHR ''/'') p))
           in if rooted then CHR ''/'' # out else if out = [] then ''.'' else out)"

end
