(* ===== verification/FilesKey.thy ===== *)
theory FilesKey
  imports GoPath
begin

text \<open>
  \<^verbatim>\<open>domain/files.go\<close>: a story's files key read as the repo paths and globs it
  names, and whether two stories' keys name a file in common.  The slices \<open>pat[1:]\<close> and
  \<open>parts[i:]\<close> of \<open>globMatch\<close> are tails of lists.
\<close>

abbreviation slash :: char where "slash \<equiv> CHR ''/''"

definition file_list :: "string \<Rightarrow> string list" where
  "file_list files =
     filter (\<lambda>name. name \<noteq> [])
       (map (\<lambda>name. trim_set (trim_prefix (trim_space name) ''./'') [slash])
          (split_on (CHR '','') files))"

subsection \<open>Covering\<close>

fun glob_match :: "string list \<Rightarrow> string list \<Rightarrow> bool" where
  "glob_match [] parts \<longleftrightarrow> parts = []"
| "glob_match (p # pat) parts \<longleftrightarrow>
     (if p = ''**'' then list_ex (\<lambda>i. glob_match pat (drop i parts)) [0..<Suc (length parts)]
      else (case parts of [] \<Rightarrow> False | x # xs \<Rightarrow> path_match p x \<and> glob_match pat xs))"

definition covers :: "string \<Rightarrow> string \<Rightarrow> bool" where
  "covers pattern name \<longleftrightarrow>
     (if pattern = name then True
      else let pat = split_on slash pattern; parts = split_on slash name
           in list_ex (\<lambda>n. glob_match pat (take n parts)) [1..<Suc (length parts)])"

fun shared_with :: "string \<Rightarrow> string list \<Rightarrow> string option" where
  "shared_with a [] = None"
| "shared_with a (b # theirs) =
     (if covers a b then Some b
      else if covers b a then Some a
      else shared_with a theirs)"

fun shared_file :: "string list \<Rightarrow> string list \<Rightarrow> string option" where
  "shared_file [] theirs = None"
| "shared_file (a # ours) theirs =
     (case shared_with a theirs of Some f \<Rightarrow> Some f | None \<Rightarrow> shared_file ours theirs)"

subsection \<open>Directories, globs and plain files\<close>

record named_directory =
  nd_written :: string
  nd_dir :: string
  nd_whole :: bool

record named_glob =
  ng_written :: string
  ng_pattern :: string
  ng_bare_wildcard :: bool

definition glob_chars :: string where "glob_chars = ''*?[''"

text \<open>The loop that takes the last elements off, each of which makes the directory whole:
  the parts are given last first.\<close>

fun drop_wild :: "string list \<Rightarrow> bool \<Rightarrow> string list \<times> bool" where
  "drop_wild [] whole = ([], whole)"
| "drop_wild (p # rparts) whole =
     (if p = ''*'' \<or> p = ''**'' \<or> p = ''.'' then drop_wild rparts True
      else (p # rparts, whole))"

definition directory_of :: "string \<Rightarrow> (string \<times> bool) option" where
  "directory_of written =
     (let name = trim_prefix written ''./''
      in if name = [] then None
         else let whole = (has_suffix name ''/'' \<or> name = ''.'');
                  (rparts, whole) = drop_wild (rev (split_on slash (trim_set name [slash]))) whole;
                  dir = join ''/'' (rev rparts)
              in if contains_any dir glob_chars then None else Some (dir, whole))"

definition directory_named :: "string \<Rightarrow> named_directory option" where
  "directory_named written =
     map_option (\<lambda>(dir, whole). \<lparr>nd_written = written, nd_dir = dir, nd_whole = whole\<rparr>)
       (directory_of written)"

definition directories :: "string \<Rightarrow> named_directory list" where
  "directories files =
     List.map_filter (\<lambda>w. directory_named (trim_space w)) (split_on (CHR '','') files)"

definition last_segment :: "string \<Rightarrow> string" where
  "last_segment pattern =
     (case last_index_byte pattern slash of None \<Rightarrow> pattern | Some i \<Rightarrow> drop (Suc i) pattern)"

definition glob_named :: "string \<Rightarrow> named_glob option" where
  "glob_named written =
     (if directory_of written \<noteq> None \<or> written = [] then None
      else let pattern = trim_set (trim_prefix written ''./'') [slash]
           in Some \<lparr>ng_written = written, ng_pattern = pattern,
                ng_bare_wildcard = contains_any (last_segment pattern) glob_chars\<rparr>)"

definition globs :: "string \<Rightarrow> named_glob list" where
  "globs files = List.map_filter (\<lambda>w. glob_named (trim_space w)) (split_on (CHR '','') files)"

text \<open>\<open>named\<close> and the set \<open>seen\<close> of \<open>CallerFiles\<close> hold the same names.\<close>

definition add_caller_file :: "string list \<Rightarrow> string \<Rightarrow> string list" where
  "add_caller_file named written =
     (let name = trim_prefix (trim_space written) ''./''
      in if name = [] \<or> name = ''.'' \<or> has_suffix name ''/'' \<or> contains_any name glob_chars
         then named
         else let name = path_clean name
              in if name \<in> set named then named else named @ [name])"

definition caller_files :: "string \<Rightarrow> string list" where
  "caller_files files = foldl add_caller_file [] (split_on (CHR '','') files)"

subsection \<open>What covering means\<close>

text \<open>The matching of a pattern's elements against a path's, as a relation.\<close>

inductive glob_rel :: "string list \<Rightarrow> string list \<Rightarrow> bool" where
  nil: "glob_rel [] []"
| stars: "glob_rel pat ys \<Longrightarrow> glob_rel (''**'' # pat) (xs @ ys)"
| one: "p \<noteq> ''**'' \<Longrightarrow> path_match p x \<Longrightarrow> glob_rel pat xs \<Longrightarrow> glob_rel (p # pat) (x # xs)"

inductive_simps glob_rel_nil: "glob_rel [] parts"
inductive_simps glob_rel_cons: "glob_rel (p # pat) parts"

lemma glob_match_rel: "glob_match pat parts \<longleftrightarrow> glob_rel pat parts"
proof
  show "glob_match pat parts \<Longrightarrow> glob_rel pat parts"
  proof (induction pat parts rule: glob_match.induct)
    case (2 p pat parts)
    show ?case
    proof (cases "p = ''**''")
      case True
      then obtain i where "i \<le> length parts" "glob_match pat (drop i parts)"
        using "2.prems" by (auto simp: list_ex_iff less_Suc_eq_le simp del: upt_Suc)
      then have "glob_rel pat (drop i parts)"
        using "2.IH"(1) [OF True, of i] by (simp del: upt_Suc add: list_ex_iff)
      then show ?thesis using glob_rel.stars [of pat "drop i parts" "take i parts"] True by simp
    next
      case False
      then show ?thesis
        using 2 by (auto split: list.splits intro: glob_rel.one)
    qed
  qed (auto intro: glob_rel.nil)
next
  show "glob_rel pat parts \<Longrightarrow> glob_match pat parts"
  proof (induction rule: glob_rel.induct)
    case (stars pat ys xs)
    then have "\<exists>i \<in> set [0..<Suc (length (xs @ ys))]. glob_match pat (drop i (xs @ ys))"
      by (intro bexI [of _ "length xs"]) auto
    then show ?case by (simp add: list_ex_iff del: upt_Suc)
  qed auto
qed

lemma covers_iff:
  "covers pattern name \<longleftrightarrow> pattern = name \<or>
     (\<exists>ys zs. split_on slash name = ys @ zs \<and> ys \<noteq> [] \<and> glob_rel (split_on slash pattern) ys)"
proof -
  have "list_ex (\<lambda>n. glob_match pat (take n parts)) [1..<Suc (length parts)] \<longleftrightarrow>
      (\<exists>ys zs. parts = ys @ zs \<and> ys \<noteq> [] \<and> glob_rel pat ys)" for pat parts
  proof
    assume "list_ex (\<lambda>n. glob_match pat (take n parts)) [1..<Suc (length parts)]"
    then obtain n where n: "1 \<le> n" "n \<le> length parts" "glob_match pat (take n parts)"
      by (auto simp: list_ex_iff simp del: upt_Suc)
    then show "\<exists>ys zs. parts = ys @ zs \<and> ys \<noteq> [] \<and> glob_rel pat ys"
      by (intro exI [of _ "take n parts"] exI [of _ "drop n parts"]) (auto simp: glob_match_rel)
  next
    assume "\<exists>ys zs. parts = ys @ zs \<and> ys \<noteq> [] \<and> glob_rel pat ys"
    then obtain ys zs where y: "parts = ys @ zs" "ys \<noteq> []" "glob_rel pat ys" by blast
    then have "length ys \<in> set [1..<Suc (length parts)] \<and> glob_match pat (take (length ys) parts)"
      by (auto simp: glob_match_rel Suc_le_eq simp del: upt_Suc)
    then show "list_ex (\<lambda>n. glob_match pat (take n parts)) [1..<Suc (length parts)]"
      unfolding list_ex_iff by blast
  qed
  then show ?thesis by (simp add: covers_def Let_def)
qed

text \<open>A pattern covers a path exactly when it is the path or its elements match, one
  directory at a time and a double star for any number of them, the elements of the path or
  of a directory the path is in.\<close>

theorem covers_matches_a_prefix:
  "covers pattern name \<longleftrightarrow> pattern = name \<or>
     (\<exists>ys zs. split_on slash name = ys @ zs \<and> ys \<noteq> [] \<and> glob_rel (split_on slash pattern) ys)"
  by (rule covers_iff)

lemma glob_rel_free:
  "list_all glob_free pat \<Longrightarrow> glob_rel pat parts \<longleftrightarrow> parts = pat"
proof (induction pat arbitrary: parts)
  case Nil
  then show ?case by (auto simp: glob_rel_nil)
next
  case (Cons p pat)
  have "\<not> glob_free ''**''" by (simp add: glob_free_def)
  with Cons.prems have "glob_free p" "p \<noteq> ''**''" by auto
  then show ?case using Cons by (auto simp: glob_rel_cons path_match_free)
qed

lemma glob_free_parts: "glob_free s \<Longrightarrow> list_all glob_free (split_on slash s)"
  using set_split_on_sub [of _ slash s] by (auto simp: list_all_iff glob_free_def)

lemma split_on_inj: "split_on c s = split_on c t \<Longrightarrow> s = t"
  by (metis join_split_on)

lemma split_on_prefix:
  "split_on c name = split_on c p @ zs \<longleftrightarrow>
     (if zs = [] then name = p else \<exists>r. name = p @ c # r \<and> zs = split_on c r)"
proof (cases "zs = []")
  case True
  then show ?thesis by (auto dest: split_on_inj)
next
  case False
  have "\<exists>r. name = p @ c # r \<and> zs = split_on c r" if e: "split_on c name = split_on c p @ zs"
  proof -
    have zs: "split_on c (join [c] zs) = zs"
      using False e split_on_no_sep [of _ c name] by (intro split_on_join) auto
    have "split_on c (p @ c # join [c] zs) = split_on c name"
      using e zs by (simp add: split_on_lines)
    then show ?thesis using zs by (metis split_on_inj)
  qed
  then show ?thesis using False by (auto simp: split_on_lines)
qed

lemma covers_free:
  assumes "glob_free p"
  shows "covers p name \<longleftrightarrow> name = p \<or> has_prefix name (p @ [slash])"
proof -
  have "covers p name \<longleftrightarrow> p = name \<or> (\<exists>zs. split_on slash name = split_on slash p @ zs)"
    by (simp add: covers_iff glob_rel_free [OF glob_free_parts [OF assms]])
  moreover have "(\<exists>zs. split_on slash name = split_on slash p @ zs) \<longleftrightarrow>
      name = p \<or> (\<exists>r. name = p @ slash # r)"
    unfolding split_on_prefix by (metis split_on_nonempty)
  ultimately show ?thesis by (auto simp: has_prefix_iff)
qed

text \<open>A name with no wildcard in it covers itself and whatever is under it, and nothing
  else: \<open>src/chat\<close> does not cover \<open>src/chatter\<close>.\<close>

theorem plain_name_covers:
  assumes "glob_free p"
  shows "covers p name \<longleftrightarrow> name = p \<or> has_prefix name (p @ [slash])"
  by (rule covers_free [OF assms])

lemma plain_name_covers_witness:
  "covers ''src/chat'' ''src/chat/Talk.tsx'' \<and> \<not> covers ''src/chat'' ''src/chatter''"
  using plain_name_covers [of "''src/chat''" "''src/chat/Talk.tsx''"]
    plain_name_covers [of "''src/chat''" "''src/chatter''"]
  by (simp add: glob_free_def has_prefix_def)

lemma covers_refl [simp]: "covers a a"
  by (simp add: covers_def)

lemma shared_with_Some:
  "shared_with a theirs = Some f \<Longrightarrow>
     covers a f \<and> (\<exists>b \<in> set theirs. covers b f \<and> (f = a \<or> f = b))"
  by (induction a theirs rule: shared_with.induct) (auto split: if_splits)

lemma shared_with_None:
  "shared_with a theirs = None \<longleftrightarrow> (\<forall>b \<in> set theirs. \<not> covers a b \<and> \<not> covers b a)"
  by (induction a theirs rule: shared_with.induct) auto

lemma shared_file_Some:
  "shared_file ours theirs = Some f \<Longrightarrow>
     \<exists>a \<in> set ours. \<exists>b \<in> set theirs. covers a f \<and> covers b f \<and> (f = a \<or> f = b)"
  by (induction ours theirs rule: shared_file.induct)
    (auto split: option.splits dest: shared_with_Some)

lemma shared_file_None:
  "shared_file ours theirs = None \<longleftrightarrow>
     (\<forall>a \<in> set ours. \<forall>b \<in> set theirs. \<not> covers a b \<and> \<not> covers b a)"
proof (induction ours)
  case (Cons a ours)
  then show ?case
    using shared_with_None [of a theirs] by (cases "shared_with a theirs") auto
qed simp

text \<open>C38. Two stories' files meet or do not whichever of them is asked, they do exactly when a
  name of the one covers a name of the other, and the path said is one of the names and
  covered by both.\<close>

theorem shared_file_symmetric:
  "(shared_file ours theirs = None \<longleftrightarrow> shared_file theirs ours = None) \<and>
   (shared_file ours theirs = None \<longleftrightarrow>
      (\<nexists>a b. List.member ours a \<and> List.member theirs b \<and> (covers a b \<or> covers b a))) \<and>
   (case shared_file ours theirs of None \<Rightarrow> True
    | Some f \<Rightarrow> (\<exists>a b. List.member ours a \<and> List.member theirs b \<and> covers a f \<and> covers b f \<and>
        (f = a \<or> f = b)))"
proof -
  have "case shared_file ours theirs of None \<Rightarrow> True
    | Some f \<Rightarrow> (\<exists>a b. List.member ours a \<and> List.member theirs b \<and> covers a f \<and> covers b f \<and>
        (f = a \<or> f = b))"
    using shared_file_Some [of ours theirs]
    by (cases "shared_file ours theirs") (simp_all, blast)
  then show ?thesis by (simp only: shared_file_None) auto
qed

subsection \<open>Every name is read one way\<close>

lemma named_one_way:
  "written \<noteq> [] \<Longrightarrow> (directory_named written = None) \<noteq> (glob_named written = None)"
  by (cases "directory_of written") (auto simp: directory_named_def glob_named_def Let_def)

lemma named_blank: "directory_named [] = None" "glob_named [] = None"
  by (simp_all add: directory_named_def directory_of_def trim_prefix_def glob_named_def)

lemma named_written:
  "directory_named w = Some d \<Longrightarrow> nd_written d = w" "glob_named w = Some g \<Longrightarrow> ng_written g = w"
  by (auto simp: directory_named_def glob_named_def Let_def split: if_splits)

definition written_names :: "string \<Rightarrow> string list" where
  "written_names files = filter (\<lambda>w. w \<noteq> []) (map trim_space (split_on (CHR '','') files))"

lemma partition_names:
  "mset (map nd_written (List.map_filter (\<lambda>w. directory_named (trim_space w)) ws)) +
   mset (map ng_written (List.map_filter (\<lambda>w. glob_named (trim_space w)) ws)) =
   mset (filter (\<lambda>w. w \<noteq> []) (map trim_space ws))"
proof (induction ws)
  case (Cons w ws)
  have "(directory_named (trim_space w) = None) \<noteq> (glob_named (trim_space w) = None)"
    if "trim_space w \<noteq> []" using named_one_way [OF that] .
  then show ?case
    using Cons named_written [of "trim_space w"] named_blank
    by (cases "trim_space w = []"; cases "directory_named (trim_space w)";
        cases "glob_named (trim_space w)") (auto simp: List.map_filter_simps)
qed (simp add: List.map_filter_def)

text \<open>Each name a files key has written is read once: as a directory or plain name, or as
  a glob, never as both and never dropped, unless it is blank.\<close>

theorem names_read_one_way:
  "mset (map nd_written (directories files)) + mset (map ng_written (globs files)) =
     mset (written_names files)"
  unfolding directories_def globs_def written_names_def by (rule partition_names)

text \<open>
  The whole rig written \<open>./\<close> is read as a glob with an empty pattern, though \<open>.\<close> is
  read as the whole rig.
\<close>

lemma whole_rig_read_as_glob:
  "directories ''./'' = [] \<and>
   globs ''./'' = [\<lparr>ng_written = ''./'', ng_pattern = [], ng_bare_wildcard = False\<rparr>] \<and>
   directories ''.'' = [\<lparr>nd_written = ''.'', nd_dir = [], nd_whole = True\<rparr>]"
  by code_simp

lemma caller_files_distinct: "distinct (caller_files files)"
proof -
  have "distinct named \<Longrightarrow> distinct (foldl add_caller_file named ws)" for named ws
    by (induction ws arbitrary: named) (auto simp: add_caller_file_def Let_def)
  then show ?thesis by (simp add: caller_files_def)
qed

lemma last_dropWhile_not: "rev (dropWhile P (rev s)) \<noteq> [] \<Longrightarrow> \<not> P (last (rev (dropWhile P (rev s))))"
  using hd_dropWhile_not [of P "rev s"] by (simp add: last_rev)

end
