(* ===== verification/Hands.thy ===== *)
theory Hands
  imports GoNumbers "HOL-Library.Word"
begin

text \<open>
  \<^verbatim>\<open>domain/hands.go\<close>: a step only the Governor's hands could take, the bytes an
  approval of it binds, and how old an approval may be.  An approval's stamp is a Go
  \<open>int64\<close>, and \<open>time.Unix\<close> adds the seconds from the year 1 to 1970 to it in 64 bits.
\<close>

record hands_step =
  hs_id :: string
  hs_host :: string
  hs_as :: string
  hs_run :: string
  hs_way_back :: string

abbreviation HandsAsUser :: string where "HandsAsUser \<equiv> ''user''"
abbreviation HandsAsRoot :: string where "HandsAsRoot \<equiv> ''root''"

definition HandsApprovalMaxAge :: duration where "HandsApprovalMaxAge = 5 * minute"
definition HandsApprovalMaxAhead :: duration where "HandsApprovalMaxAhead = 2 * minute"

subsection \<open>What a step may be\<close>

definition alnum :: "char \<Rightarrow> bool" where
  "alnum c \<longleftrightarrow> is_upper c \<or> is_lower c \<or> is_digit c"

text \<open>\<open>^[A-Za-z0-9][A-Za-z0-9._-]{0,63}$\<close>.\<close>

definition hands_name :: "string \<Rightarrow> bool" where
  "hands_name s \<longleftrightarrow>
     (case s of
        [] \<Rightarrow> False
      | c # r \<Rightarrow> alnum c \<and> length r \<le> 63 \<and>
          list_all (\<lambda>d. alnum d \<or> d = CHR ''.'' \<or> d = CHR ''_'' \<or> d = CHR ''-'') r)"

datatype hands_error =
    NotABeadId string
  | NotAStepId string
  | NotAHost string
  | RunsAs string
  | RunsNothing string
  | ApprovalOld duration
  | ApprovalAhead duration

definition validate_hands_step :: "string \<Rightarrow> hands_step \<Rightarrow> hands_error option" where
  "validate_hands_step bead step =
     (if \<not> hands_name bead then Some (NotABeadId bead)
      else if \<not> hands_name (hs_id step) then Some (NotAStepId (hs_id step))
      else if \<not> hands_name (hs_host step) then Some (NotAHost (hs_host step))
      else if hs_as step \<noteq> HandsAsUser \<and> hs_as step \<noteq> HandsAsRoot then Some (RunsAs (hs_as step))
      else if trim_space (hs_run step) = [] then Some (RunsNothing (hs_id step))
      else None)"

subsection \<open>What an approval binds\<close>

definition hands_field :: "string \<Rightarrow> string" where
  "hands_field field = nat_str (length field) @ [CHR '':''] @ field @ newline"

definition hands_canonical :: "string \<Rightarrow> hands_step \<Rightarrow> string" where
  "hands_canonical bead step =
     ''hands/v1'' @ newline @
     concat (map hands_field
       [bead, hs_id step, hs_host step, hs_as step, hs_run step, hs_way_back step])"

definition hands_approval_message :: "string \<Rightarrow> 64 word \<Rightarrow> string" where
  "hands_approval_message sha256_hex approved_at =
     ''hands-approve/v1'' @ newline @ sha256_hex @ newline @ itoa (sint approved_at) @ newline"

definition hands_approval_id :: "string \<Rightarrow> 64 word \<Rightarrow> string" where
  "hands_approval_id sha256_hex approved_at = to_lower sha256_hex @ ''.'' @ itoa (sint approved_at)"

record hands_request =
  hr_bead :: string
  hr_id :: string
  hr_host :: string
  hr_as :: string
  hr_run :: string
  hr_way_back :: string
  hr_sha256 :: string
  hr_approved_at :: "64 word"
  hr_sig :: string

definition request_step :: "hands_request \<Rightarrow> hands_step" where
  "request_step r = \<lparr>hs_id = hr_id r, hs_host = hr_host r, hs_as = hr_as r, hs_run = hr_run r,
     hs_way_back = hr_way_back r\<rparr>"

definition approval_id :: "hands_request \<Rightarrow> string" where
  "approval_id r = hands_approval_id (hr_sha256 r) (hr_approved_at r)"

subsection \<open>How old an approval may be\<close>

text \<open>The seconds from the first of January of the year 1 to that of 1970.\<close>

definition unix_to_internal :: int where "unix_to_internal = 62135596800"

definition time_unix :: "64 word \<Rightarrow> gotime" where
  "time_unix s = sint (s + word_of_int unix_to_internal) * second"

definition check_hands_approval_age :: "64 word \<Rightarrow> gotime \<Rightarrow> hands_error option" where
  "check_hands_approval_age approved_at now =
     (let approved = time_unix approved_at;
          age = time_sub now approved;
          ahead = time_sub approved now
      in if age > HandsApprovalMaxAge then Some (ApprovalOld age)
         else if ahead > HandsApprovalMaxAhead then Some (ApprovalAhead ahead)
         else None)"

subsection \<open>The canonical bytes bind the step\<close>

lemma takeWhile_number:
  assumes "\<not> is_digit c"
  shows "takeWhile is_digit (nat_str n @ c # s) = nat_str n"
    "dropWhile is_digit (nat_str n @ c # s) = c # s"
  using nat_str_digits [of n] assms
  by (simp_all add: list_all_iff takeWhile_append dropWhile_append)

lemma number_prefix:
  assumes "nat_str m @ c # s = nat_str n @ c # t" "\<not> is_digit c"
  shows "m = n \<and> s = t"
  using arg_cong [OF assms(1), of "takeWhile is_digit"] arg_cong [OF assms(1), of "dropWhile is_digit"]
  by (simp add: takeWhile_number [OF assms(2)])

lemma hands_field_inj: "hands_field a @ s = hands_field b @ t \<Longrightarrow> a = b \<and> s = t"
proof -
  assume eq: "hands_field a @ s = hands_field b @ t"
  then have "length a = length b \<and> a @ newline @ s = b @ newline @ t"
    using number_prefix [of "length a" "CHR '':''" "a @ newline @ s" "length b" "b @ newline @ t"]
    by (simp add: hands_field_def is_digit_def byte_def)
  then show ?thesis by (auto simp: newline_def append_eq_append_conv)
qed

text \<open>C39. The bytes an approval binds are of one step on one bead and no other: two that read
  alike are the same in every field, whatever the fields hold.\<close>

theorem hands_canonical_binds:
  "hands_canonical bead step = hands_canonical bead' step' \<longleftrightarrow> bead = bead' \<and> step = step'"
proof
  assume "hands_canonical bead step = hands_canonical bead' step'"
  then have "bead = bead' \<and> hs_id step = hs_id step' \<and> hs_host step = hs_host step' \<and>
      hs_as step = hs_as step' \<and> hs_run step = hs_run step' \<and> hs_way_back step = hs_way_back step'"
    using hands_field_inj [of "hs_way_back step" "[]" "hs_way_back step'" "[]"]
    by (auto simp: hands_canonical_def dest!: hands_field_inj)
  then show "bead = bead' \<and> step = step'" by (cases step; cases step') simp
qed simp

text \<open>A hash that is hex, and the time, are read back from what the Governor signs.\<close>

lemma approval_message_binds:
  assumes "CHR 0x0A \<notin> set h" "CHR 0x0A \<notin> set h'"
    and "hands_approval_message h t = hands_approval_message h' t'"
  shows "h = h' \<and> itoa (sint t) = itoa (sint t')"
proof -
  have eq: "h @ CHR 0x0A # itoa (sint t) @ newline = h' @ CHR 0x0A # itoa (sint t') @ newline"
    using assms(3) by (simp add: hands_approval_message_def newline_def)
  have "takeWhile (\<lambda>c. c \<noteq> CHR 0x0A) (k @ CHR 0x0A # r) = k" if "CHR 0x0A \<notin> set k" for k r
    using that by (auto simp: takeWhile_append)
  from this [OF assms(1)] this [OF assms(2)] eq have "h = h'" by metis
  then show ?thesis using eq by (simp add: newline_def)
qed

subsection \<open>The window of an approval\<close>

lemma sint_plus_offset:
  fixes s :: "64 word"
  shows "sint (s + word_of_int unix_to_internal) =
     (if sint s + unix_to_internal < 2 ^ 63 then sint s + unix_to_internal
      else sint s + unix_to_internal - 2 ^ 64)"
proof -
  have s: "- (2 ^ 63) \<le> sint s" "sint s < 2 ^ 63" using sint_ge [of s] sint_lt [of s] by simp_all
  have "sint (s + word_of_int unix_to_internal) = signed_take_bit 63 (sint s + unix_to_internal)"
    by (simp add: unix_to_internal_def sint_word_ariths(1) signed_take_bit_add)
  moreover have "signed_take_bit 63 x = x" if "- (2 ^ 63) \<le> x" "x < 2 ^ 63" for x :: int
    using that by (simp add: signed_take_bit_int_eq_self)
  moreover have "signed_take_bit 63 x = x - 2 ^ 64" if "2 ^ 63 \<le> x" "x < 2 ^ 63 + 2 ^ 36" for x :: int
  proof -
    have "signed_take_bit 63 (x - 2 ^ 64) = x - 2 ^ 64"
      using that by (simp add: signed_take_bit_int_eq_self)
    moreover have "(x - 9223372036854775808) mod 18446744073709551616 =
        (x + 9223372036854775808) mod 18446744073709551616"
      using mod_add_self2 [of "x - 9223372036854775808" "18446744073709551616"]
      by (simp add: add.commute)
    then have "signed_take_bit 63 (x - 2 ^ 64) = signed_take_bit 63 x"
      by (simp add: signed_take_bit_int_eq_self_iff signed_take_bit_eq_take_bit_shift take_bit_eq_mod mod_diff_eq)
    ultimately show ?thesis by simp
  qed
  ultimately show ?thesis using s by (simp add: unix_to_internal_def)
qed

lemma check_age_None:
  "check_hands_approval_age approved now = None \<longleftrightarrow>
     now - time_unix approved \<le> HandsApprovalMaxAge \<and> time_unix approved - now \<le> HandsApprovalMaxAhead"
  using time_sub_greater [of HandsApprovalMaxAge now "time_unix approved"]
    time_sub_greater [of HandsApprovalMaxAhead "time_unix approved" now]
  by (auto simp: check_hands_approval_age_def Let_def HandsApprovalMaxAge_def
      HandsApprovalMaxAhead_def minute_def second_def duration_max_def)

text \<open>On a clock that shows a time after the year 1 and before the Go clock's end, an
  approval can run exactly when its stamp, read as the seconds it says, is at most five
  minutes past and at most two ahead: no stamp wraps round into the window.\<close>

theorem approval_window:
  assumes "HandsApprovalMaxAge < now" and "now + HandsApprovalMaxAhead < 2 ^ 63 * second"
  shows "check_hands_approval_age approved now = None \<longleftrightarrow>
     now - HandsApprovalMaxAge \<le> (sint approved + unix_to_internal) * second \<and>
     (sint approved + unix_to_internal) * second \<le> now + HandsApprovalMaxAhead"
proof -
  have s: "- (2 ^ 63) \<le> sint approved" "sint approved < 2 ^ 63"
    using sint_ge [of approved] sint_lt [of approved] by simp_all
  show ?thesis
  proof (cases "sint approved + unix_to_internal < 2 ^ 63")
    case True
    then show ?thesis by (auto simp: check_age_None time_unix_def sint_plus_offset)
  next
    case False
    have "time_unix approved < 0"
      unfolding time_unix_def sint_plus_offset
      using s False by (simp add: unix_to_internal_def second_def)
    then have "check_hands_approval_age approved now \<noteq> None"
      using assms(1) by (simp add: check_age_None)
    moreover have "now + HandsApprovalMaxAhead < (sint approved + unix_to_internal) * second"
      using False assms(2) by (simp add: second_def)
    ultimately show ?thesis by auto
  qed
qed

lemma approval_window_witness:
  "check_hands_approval_age 0 (unix_to_internal * second + 3 * minute) = None"
  using approval_window [of "unix_to_internal * second + 3 * minute" 0]
  by (simp add: HandsApprovalMaxAge_def HandsApprovalMaxAhead_def unix_to_internal_def
      minute_def second_def)

end
