(* ===== verification/JsonScan.thy ===== *)
theory JsonScan
  imports Utf8
begin

text \<open>
  The small JSON scanner of \<^verbatim>\<open>domain/version.go\<close> and what it is for: reading and
  writing the version of an npm package file without touching another byte of it.  A position
  is an index into the text.  The three methods \<open>value\<close>, \<open>object\<close> and \<open>array\<close> call
  each other; they are given fuel, and \<open>scan_value_total\<close> shows that what
  \<open>version_spans\<close> starts with is always enough.  The callback \<open>found\<close> is the list of
  what it is called with, in order.  Of \<open>encoding/json\<close>, a string's \<open>Unmarshal\<close> and
  \<open>Marshal\<close> and the \<open>Valid\<close> of a number or a word are written out.
\<close>

subsection \<open>Strings and scalars\<close>

definition quote :: char where "quote = CHR 0x22"
definition backslash :: char where "backslash = CHR 0x5C"

definition json_space :: "char \<Rightarrow> bool" where
  "json_space c \<longleftrightarrow> c = CHR '' '' \<or> byte c = 0x09 \<or> byte c = 0x0D \<or> byte c = 0x0A"

definition hex_val :: "char \<Rightarrow> nat option" where
  "hex_val c =
     (if is_digit c then Some (byte c - 0x30)
      else if 0x61 \<le> byte c \<and> byte c \<le> 0x66 then Some (byte c - 0x57)
      else if 0x41 \<le> byte c \<and> byte c \<le> 0x46 then Some (byte c - 0x37)
      else None)"

definition hex4 :: "string \<Rightarrow> nat option" where
  "hex4 s =
     (case s of
        a # b # c # d # _ \<Rightarrow>
          (case (hex_val a, hex_val b, hex_val c, hex_val d) of
             (Some w, Some x, Some y, Some z) \<Rightarrow> Some (w * 0x1000 + x * 0x100 + y * 0x10 + z)
           | _ \<Rightarrow> None)
      | _ \<Rightarrow> None)"

definition simple_escape :: "char \<Rightarrow> char option" where
  "simple_escape e =
     (if e = quote \<or> e = backslash \<or> e = CHR ''/'' then Some e
      else if e = CHR ''b'' then Some (CHR 0x08)
      else if e = CHR ''f'' then Some (CHR 0x0C)
      else if e = CHR ''n'' then Some (CHR 0x0A)
      else if e = CHR ''r'' then Some (CHR 0x0D)
      else if e = CHR ''t'' then Some (CHR 0x09)
      else None)"

definition is_surrogate :: "nat \<Rightarrow> bool" where
  "is_surrogate r \<longleftrightarrow> 0xD800 \<le> r \<and> r \<le> 0xDFFF"

text \<open>The second half of a surrogate pair, when the text goes on with one.\<close>

definition low_surrogate :: "nat \<Rightarrow> string \<Rightarrow> nat option" where
  "low_surrogate r s =
     (case s of
        a # u # t \<Rightarrow>
          if a = backslash \<and> u = CHR ''u'' \<and> 0xD800 \<le> r \<and> r \<le> 0xDBFF
          then (case hex4 t of
                  Some lo \<Rightarrow> if 0xDC00 \<le> lo \<and> lo \<le> 0xDFFF
                    then Some (0x10000 + (r - 0xD800) * 0x400 + (lo - 0xDC00)) else None
                | None \<Rightarrow> None)
          else None
      | _ \<Rightarrow> None)"

text \<open>What stands between the quotes, unquoted; \<open>None\<close> when it is no JSON string.\<close>

function json_unquote :: "string \<Rightarrow> string option" where
  "json_unquote [] = Some []"
| "json_unquote (c # s) =
     (if c = backslash then
        (case s of
           [] \<Rightarrow> None
         | e # t \<Rightarrow>
             if e = CHR ''u'' then
               (case hex4 t of
                  None \<Rightarrow> None
                | Some r \<Rightarrow>
                    if is_surrogate r then
                      (case low_surrogate r (drop 4 t) of
                         Some v \<Rightarrow> map_option ((@) (encode_rune v)) (json_unquote (drop 10 t))
                       | None \<Rightarrow> map_option ((@) (encode_rune 0xFFFD)) (json_unquote (drop 4 t)))
                    else map_option ((@) (encode_rune r)) (json_unquote (drop 4 t)))
             else (case simple_escape e of
                     None \<Rightarrow> None
                   | Some x \<Rightarrow> map_option ((#) x) (json_unquote t)))
      else if byte c < 0x20 \<or> c = quote then None
      else if rune_width (c # s) = 0
      then map_option ((@) (encode_rune 0xFFFD)) (json_unquote s)
      else map_option ((@) (take (rune_width (c # s)) (c # s)))
             (json_unquote (drop (rune_width (c # s)) (c # s))))"
  by pat_completeness auto
termination
  by (relation "measure length") auto





text \<open>The \<open>Valid\<close> of a word with no delimiter in it: true, false, null or a number.\<close>

definition drop_digits :: "string \<Rightarrow> string option" where
  "drop_digits s = (if takeWhile is_digit s = [] then None else Some (dropWhile is_digit s))"

definition json_int :: "string \<Rightarrow> string option" where
  "json_int s =
     (let s = (case s of c # r \<Rightarrow> if c = CHR ''-'' then r else s | [] \<Rightarrow> s)
      in case s of
           [] \<Rightarrow> None
         | c # r \<Rightarrow> if c = CHR ''0'' then Some r else drop_digits s)"

definition json_frac :: "string \<Rightarrow> string option" where
  "json_frac s = (case s of c # r \<Rightarrow> if c = CHR ''.'' then drop_digits r else Some s | [] \<Rightarrow> Some s)"

definition json_exp :: "string \<Rightarrow> string option" where
  "json_exp s =
     (case s of
        [] \<Rightarrow> Some s
      | c # r \<Rightarrow>
          if c = CHR ''e'' \<or> c = CHR ''E''
          then drop_digits (case r of d # t \<Rightarrow> if d = CHR ''+'' \<or> d = CHR ''-'' then t else r | [] \<Rightarrow> r)
          else Some s)"

definition json_scalar :: "string \<Rightarrow> bool" where
  "json_scalar s \<longleftrightarrow>
     s = ''true'' \<or> s = ''false'' \<or> s = ''null'' \<or>
     Option.bind (Option.bind (json_int s) json_frac) json_exp = Some []"

subsection \<open>The scanner\<close>

record version_span =
  vs_start :: nat
  vs_end :: nat
  vs_value :: string

type_synonym found = "(string list \<times> version_span) list"

datatype scan_error =
    EndsWhereValue
  | BadString nat
  | NeverClosedString nat
  | UnexpectedByte nat
  | NotJson nat
  | ExpectedKey nat
  | ExpectedColon nat
  | NeverClosedObject
  | ExpectedCommaBrace nat
  | NeverClosedArray
  | ExpectedCommaBracket nat
  | TextAfter nat
  | NoVersion
  | OutOfFuel

definition skip :: "string \<Rightarrow> nat \<Rightarrow> nat" where
  "skip txt pos = pos + length (takeWhile json_space (drop pos txt))"

text \<open>From past the opening quote: how many bytes to past the closing one.\<close>

fun str_length :: "string \<Rightarrow> nat option" where
  "str_length [] = None"
| "str_length (c # s) =
     (if c = backslash then (case s of [] \<Rightarrow> None | _ # t \<Rightarrow> map_option (\<lambda>n. n + 2) (str_length t))
      else if c = quote then Some 1
      else map_option Suc (str_length s))"

definition scan_str :: "string \<Rightarrow> nat \<Rightarrow> (scan_error, nat \<times> string) result" where
  "scan_str txt pos =
     (case str_length (drop (Suc pos) txt) of
        None \<Rightarrow> Inl (NeverClosedString pos)
      | Some n \<Rightarrow>
          (case json_unquote (take (n - 1) (drop (Suc pos) txt)) of
             None \<Rightarrow> Inl (BadString pos)
           | Some v \<Rightarrow> Inr (Suc pos + n, v)))"

definition delimiter :: "char \<Rightarrow> bool" where
  "delimiter c \<longleftrightarrow> c = CHR '','' \<or> c = CHR ''}'' \<or> c = CHR '']'' \<or> json_space c"

definition scan_scalar :: "string \<Rightarrow> nat \<Rightarrow> (scan_error, nat) result" where
  "scan_scalar txt pos =
     (let word = takeWhile (\<lambda>c. \<not> delimiter c) (drop pos txt)
      in if word = [] then Inl (UnexpectedByte pos)
         else if \<not> json_scalar word then Inl (NotJson pos)
         else Inr (pos + length word))"

type_synonym scan_result = "(scan_error, nat \<times> found) result"

function scan_value :: "nat \<Rightarrow> string \<Rightarrow> nat \<Rightarrow> string list \<Rightarrow> found \<Rightarrow> scan_result"
  and scan_object :: "nat \<Rightarrow> string \<Rightarrow> nat \<Rightarrow> string list \<Rightarrow> found \<Rightarrow> scan_result"
  and scan_array :: "nat \<Rightarrow> string \<Rightarrow> nat \<Rightarrow> found \<Rightarrow> scan_result"
where
  "scan_value 0 txt pos0 path found = Inl OutOfFuel"
| "scan_value (Suc fuel) txt pos0 path found =
     (let pos = skip txt pos0
      in if length txt \<le> pos then Inl EndsWhereValue
         else if txt ! pos = CHR ''{'' then
           (let inner = skip txt (Suc pos)
            in if inner < length txt \<and> txt ! inner = CHR ''}'' then Inr (Suc inner, found)
               else scan_object fuel txt inner path found)
         else if txt ! pos = CHR ''['' then
           (let inner = skip txt (Suc pos)
            in if inner < length txt \<and> txt ! inner = CHR '']'' then Inr (Suc inner, found)
               else scan_array fuel txt inner found)
         else if txt ! pos = quote then
           (case scan_str txt pos of
              Inl e \<Rightarrow> Inl e
            | Inr (after, v) \<Rightarrow>
                Inr (after, found @ [(path, \<lparr>vs_start = pos, vs_end = after, vs_value = v\<rparr>)]))
         else (case scan_scalar txt pos of Inl e \<Rightarrow> Inl e | Inr after \<Rightarrow> Inr (after, found)))"
| "scan_object 0 txt pos0 path found = Inl OutOfFuel"
| "scan_object (Suc fuel) txt pos0 path found =
     (let pos = skip txt pos0
      in if length txt \<le> pos \<or> txt ! pos \<noteq> quote then Inl (ExpectedKey pos)
         else
           (case scan_str txt pos of
              Inl e \<Rightarrow> Inl e
            | Inr (after, key) \<Rightarrow>
                (let colon = skip txt after
                 in if length txt \<le> colon \<or> txt ! colon \<noteq> CHR '':'' then Inl (ExpectedColon colon)
                    else
                      (case scan_value fuel txt (Suc colon) (path @ [key]) found of
                         Inl e \<Rightarrow> Inl e
                       | Inr (past, found') \<Rightarrow>
                           (let pos' = skip txt past
                            in if length txt \<le> pos' then Inl NeverClosedObject
                               else if txt ! pos' = CHR '','' then
                                 scan_object fuel txt (Suc pos') path found'
                               else if txt ! pos' = CHR ''}'' then Inr (Suc pos', found')
                               else Inl (ExpectedCommaBrace pos'))))))"
| "scan_array 0 txt pos0 found = Inl OutOfFuel"
| "scan_array (Suc fuel) txt pos0 found =
     (case scan_value fuel txt pos0 [''[]''] found of
        Inl e \<Rightarrow> Inl e
      | Inr (past, found') \<Rightarrow>
          (let pos' = skip txt past
           in if length txt \<le> pos' then Inl NeverClosedArray
              else if txt ! pos' = CHR '','' then scan_array fuel txt (Suc pos') found'
              else if txt ! pos' = CHR '']'' then Inr (Suc pos', found')
              else Inl (ExpectedCommaBracket pos')))"
  by pat_completeness auto
termination
  by (relation "measure (case_sum fst (case_sum fst fst))") simp_all

subsection \<open>The versions of a package file\<close>



definition scan_fuel :: "string \<Rightarrow> nat" where "scan_fuel txt = 2 * length txt + 2"






subsection \<open>The scanner goes forward\<close>

lemma skip_le: "pos \<le> skip txt pos"
  by (simp add: skip_def)

lemma skip_bound: "pos \<le> length txt \<Longrightarrow> skip txt pos \<le> length txt"
proof -
  assume "pos \<le> length txt"
  moreover have "length (takeWhile json_space (drop pos txt)) \<le> length (drop pos txt)"
    by (rule length_takeWhile_le)
  ultimately show ?thesis by (simp add: skip_def)
qed

lemma str_length_bounds: "str_length s = Some n \<Longrightarrow> 1 \<le> n \<and> n \<le> length s"
  by (induction s arbitrary: n rule: str_length.induct)
    (fastforce split: if_splits list.splits)+

lemma scan_str_bounds:
  "scan_str txt pos = Inr (after, v) \<Longrightarrow> Suc pos < after \<and> after \<le> length txt"
  by (auto simp: scan_str_def split: option.splits dest!: str_length_bounds)

lemma scan_scalar_bounds:
  assumes "scan_scalar txt pos = Inr after"
  shows "pos < after \<and> after \<le> length txt"
proof -
  let ?w = "takeWhile (\<lambda>c. \<not> delimiter c) (drop pos txt)"
  have "after = pos + length ?w" "?w \<noteq> []"
    using assms by (auto simp: scan_scalar_def Let_def split: if_splits)
  moreover have "length ?w \<le> length (drop pos txt)" by (rule length_takeWhile_le)
  ultimately show ?thesis by (cases "pos < length txt") auto
qed

text \<open>Spans one after another between two places, each a JSON string of the text.\<close>

definition span_ok :: "string \<Rightarrow> version_span \<Rightarrow> bool" where
  "span_ok txt s \<longleftrightarrow> vs_start s < length txt \<and> txt ! vs_start s = quote \<and>
     scan_str txt (vs_start s) = Inr (vs_end s, vs_value s)"

fun spans_between :: "string \<Rightarrow> nat \<Rightarrow> nat \<Rightarrow> found \<Rightarrow> bool" where
  "spans_between txt lo hi [] \<longleftrightarrow> lo \<le> hi"
| "spans_between txt lo hi ((p, s) # fs) \<longleftrightarrow>
     lo \<le> vs_start s \<and> span_ok txt s \<and> spans_between txt (vs_end s) hi fs"

lemma spans_between_append:
  "spans_between txt lo mid a \<Longrightarrow> spans_between txt mid hi b \<Longrightarrow> spans_between txt lo hi (a @ b)"
proof (induction a arbitrary: lo)
  case Nil
  then show ?case by (cases b) auto
qed auto

lemma spans_between_widen:
  "spans_between txt lo hi fs \<Longrightarrow> lo' \<le> lo \<Longrightarrow> hi \<le> hi' \<Longrightarrow> spans_between txt lo' hi' fs"
proof (induction fs arbitrary: lo lo')
  case (Cons a fs)
  obtain p s where a: "a = (p, s)" by (cases a)
  have "spans_between txt (vs_end s) hi' fs"
    by (rule Cons.IH [of "vs_end s"]) (use Cons.prems a in simp_all)
  then show ?case using Cons.prems a by simp
qed simp


text \<open>What a part of the scanner has done when it comes back.\<close>

definition scanned :: "string \<Rightarrow> nat \<Rightarrow> nat \<Rightarrow> found \<Rightarrow> found \<Rightarrow> bool" where
  "scanned txt pos past old fresh \<longleftrightarrow>
     pos < past \<and> past \<le> length txt \<and> (\<exists>fs. fresh = old @ fs \<and> spans_between txt pos past fs)"

lemma scanned_none: "pos < past \<Longrightarrow> past \<le> length txt \<Longrightarrow> scanned txt pos past fs fs"
  by (simp add: scanned_def)

lemma scanned_widen:
  "scanned txt pos past old fresh \<Longrightarrow> lo \<le> pos \<Longrightarrow> past \<le> hi \<Longrightarrow> hi \<le> length txt \<Longrightarrow>
     scanned txt lo hi old fresh"
  unfolding scanned_def using spans_between_widen by fastforce

lemma scanned_trans:
  assumes "scanned txt a b old mid" "scanned txt b c mid fresh"
  shows "scanned txt a c old fresh"
proof -
  obtain f g where "mid = old @ f" "spans_between txt a b f" "fresh = mid @ g" "spans_between txt b c g"
    using assms by (auto simp: scanned_def)
  then have "fresh = old @ (f @ g)" "spans_between txt a c (f @ g)"
    using spans_between_append by auto
  then show ?thesis using assms by (auto simp: scanned_def)
qed

lemma scan_scanned:
  "scan_value fuel txt pos path found = Inr (past, found') \<Longrightarrow> pos \<le> length txt \<Longrightarrow>
     scanned txt pos past found found'"
  "scan_object fuel txt pos path found = Inr (past, found') \<Longrightarrow> pos \<le> length txt \<Longrightarrow>
     scanned txt pos past found found'"
  "scan_array fuel txt pos found = Inr (past, found') \<Longrightarrow> pos \<le> length txt \<Longrightarrow>
     scanned txt pos past found found'"
proof (induction fuel "txt" pos path found and fuel "txt" pos path found and fuel "txt" pos found
    arbitrary: past found' and past found' and past found'
    rule: scan_value_scan_object_scan_array.induct)
  case (2 fuel "txt" pos0 path found)
  define pos where "pos = skip txt pos0"
  have pos: "pos0 \<le> pos" "pos < length txt"
    using "2.prems" skip_le by (auto simp: pos_def Let_def split: if_splits)
  define inner where "inner = skip txt (Suc pos)"
  have inner: "Suc pos \<le> inner" "inner \<le> length txt"
    using pos skip_le skip_bound by (auto simp: inner_def Suc_le_eq)
  note fold = pos_def [symmetric] inner_def [symmetric]
  consider (obj) "txt ! pos = CHR ''{''" | (arr) "txt ! pos = CHR ''[''" | (str) "txt ! pos = quote"
    | (other) "txt ! pos \<noteq> CHR ''{''" "txt ! pos \<noteq> CHR ''[''" "txt ! pos \<noteq> quote" by blast
  then show ?case
  proof cases
    case obj
    show ?thesis
    proof (cases "inner < length txt \<and> txt ! inner = CHR ''}''")
      case True
      then show ?thesis using "2.prems" pos inner obj
        by (auto simp: Let_def fold intro!: scanned_none)
    next
      case False
      then have "scan_object fuel txt inner path found = Inr (past, found')"
        using "2.prems" pos obj by (auto simp: Let_def fold)
      from "2.IH"(1) [OF pos_def _ _ inner_def _ this]
      have "scanned txt inner past found found'" using pos inner obj False by (auto simp: fold)
      moreover from this have "past \<le> length txt" by (simp add: scanned_def)
      ultimately show ?thesis using pos inner scanned_widen by auto
    qed
  next
    case arr
    show ?thesis
    proof (cases "inner < length txt \<and> txt ! inner = CHR '']''")
      case True
      then show ?thesis using "2.prems" pos inner arr
        by (auto simp: Let_def fold intro!: scanned_none)
    next
      case False
      then have "scan_array fuel txt inner found = Inr (past, found')"
        using "2.prems" pos arr by (auto simp: Let_def fold)
      from "2.IH"(2) [OF pos_def _ _ _ inner_def _ this]
      have "scanned txt inner past found found'" using pos inner arr False by (auto simp: fold)
      moreover from this have "past \<le> length txt" by (simp add: scanned_def)
      ultimately show ?thesis using pos inner scanned_widen by auto
    qed
  next
    case str
    then obtain v where v: "scan_str txt pos = Inr (past, v)"
      "found' = found @ [(path, \<lparr>vs_start = pos, vs_end = past, vs_value = v\<rparr>)]"
      using "2.prems" pos by (auto simp: Let_def fold quote_def split: sum.splits)
    then show ?thesis
      using scan_str_bounds [OF v(1)] pos str by (auto simp: scanned_def span_ok_def)
  next
    case other
    then have "scan_scalar txt pos = Inr past" "found' = found"
      using "2.prems" pos by (auto simp: Let_def fold split: sum.splits)
    then show ?thesis
      using scan_scalar_bounds [of "txt" pos past] pos by (auto intro!: scanned_none)
  qed
next
  case (4 fuel "txt" pos0 path found)
  define pos where "pos = skip txt pos0"
  have pos: "pos0 \<le> pos" "pos < length txt" "txt ! pos = quote"
    using "4.prems" skip_le by (auto simp: pos_def Let_def split: if_splits)
  obtain after key where key: "scan_str txt pos = Inr (after, key)"
    using "4.prems" pos by (auto simp: Let_def pos_def [symmetric] split: sum.splits)
  define colon where "colon = skip txt after"
  have colon: "after \<le> colon" "colon < length txt" "txt ! colon = CHR '':''"
    using "4.prems" pos key skip_le
    by (auto simp: Let_def pos_def [symmetric] colon_def split: if_splits)
  obtain q f where v: "scan_value fuel txt (Suc colon) (path @ [key]) found = Inr (q, f)"
    using "4.prems" pos key colon
    by (auto simp: Let_def pos_def [symmetric] colon_def [symmetric] split: sum.splits)
  define pos' where "pos' = skip txt q"
  have n: "\<not> (length txt \<le> pos \<or> txt ! pos \<noteq> quote)" "\<not> (length txt \<le> colon \<or> txt ! colon \<noteq> CHR '':'')"
    using pos colon by auto
  have val: "scanned txt (Suc colon) q found f"
    using "4.IH"(1) [OF pos_def n(1) key refl colon_def n(2) v] colon by simp
  have q: "q \<le> pos'" by (simp add: pos'_def skip_le)
  have p': "pos' < length txt" and rest:
    "scan_object fuel txt (Suc pos') path f = Inr (past, found') \<and> txt ! pos' = CHR '','' \<or>
     past = Suc pos' \<and> found' = f"
    using "4.prems" pos key colon v
    by (auto simp: Let_def pos_def [symmetric] colon_def [symmetric] pos'_def [symmetric] split: if_splits)
  have "pos0 < Suc colon" using pos scan_str_bounds [OF key] colon by simp
  then have first: "scanned txt pos0 (Suc pos') found f"
    using val p' q by (auto intro: scanned_widen)
  from rest show ?case
  proof
    assume r: "scan_object fuel txt (Suc pos') path f = Inr (past, found') \<and> txt ! pos' = CHR '',''"
    have "scanned txt (Suc pos') past f found'"
      using "4.IH"(2) [OF pos_def n(1) key refl colon_def n(2) v refl pos'_def _ _ conjunct1 [OF r]] p' r
      by simp
    then show ?case using first scanned_trans by blast
  next
    assume "past = Suc pos' \<and> found' = f"
    then show ?case using first by simp
  qed
next
  case (6 fuel "txt" pos0 found)
  obtain q f where v: "scan_value fuel txt pos0 [''[]''] found = Inr (q, f)"
    using "6.prems" by (auto split: sum.splits)
  define pos' where "pos' = skip txt q"
  have val: "scanned txt pos0 q found f" using "6.IH"(1) [OF v] "6.prems" by simp
  have q: "q \<le> pos'" by (simp add: pos'_def skip_le)
  have p': "pos' < length txt" and rest:
    "scan_array fuel txt (Suc pos') f = Inr (past, found') \<and> txt ! pos' = CHR '','' \<or>
     past = Suc pos' \<and> found' = f"
    using "6.prems" v by (auto simp: Let_def pos'_def [symmetric] split: if_splits)
  have first: "scanned txt pos0 (Suc pos') found f"
    using val p' q by (auto intro: scanned_widen)
  from rest show ?case
  proof
    assume r: "scan_array fuel txt (Suc pos') f = Inr (past, found') \<and> txt ! pos' = CHR '',''"
    have "scanned txt (Suc pos') past f found'"
      using "6.IH"(2) [OF v refl pos'_def _ _ conjunct1 [OF r]] p' r by simp
    then show ?case using first scanned_trans by blast
  next
    assume "past = Suc pos' \<and> found' = f"
    then show ?case using first by simp
  qed
qed simp_all

text \<open>The fuel is enough.\<close>

lemma scan_fuel_enough:
  "2 * (length txt - pos) + 2 \<le> fuel \<Longrightarrow> pos \<le> length txt \<Longrightarrow>
     scan_value fuel txt pos path found \<noteq> Inl OutOfFuel"
  "2 * (length txt - pos) + 3 \<le> fuel \<Longrightarrow> pos \<le> length txt \<Longrightarrow>
     scan_object fuel txt pos path found \<noteq> Inl OutOfFuel"
  "2 * (length txt - pos) + 3 \<le> fuel \<Longrightarrow> pos \<le> length txt \<Longrightarrow>
     scan_array fuel txt pos found \<noteq> Inl OutOfFuel"
proof (induction fuel "txt" pos path found and fuel "txt" pos path found and fuel "txt" pos found
    rule: scan_value_scan_object_scan_array.induct)
  case (2 fuel "txt" pos0 path found)
  define pos where "pos = skip txt pos0"
  define inner where "inner = skip txt (Suc pos)"
  note fold = pos_def [symmetric] inner_def [symmetric]
  show ?case
  proof (cases "length txt \<le> pos")
    case False
    then have b: "pos0 \<le> pos" "Suc pos \<le> inner" "inner \<le> length txt"
      using skip_le skip_bound by (auto simp: pos_def inner_def Suc_le_eq)
    then have fuel: "2 * (length txt - inner) + 3 \<le> fuel" using "2.prems" False by simp
    have "scan_object fuel txt inner path found \<noteq> Inl OutOfFuel"
      if "txt ! pos = CHR ''{''" "\<not> (inner < length txt \<and> txt ! inner = CHR ''}'')"
      using "2.IH"(1) [OF pos_def _ _ inner_def _ fuel b(3)] that False by blast
    moreover have "scan_array fuel txt inner found \<noteq> Inl OutOfFuel"
      if "txt ! pos = CHR ''[''" "\<not> (inner < length txt \<and> txt ! inner = CHR '']'')"
    proof -
      have "txt ! pos \<noteq> CHR ''{''" using that(1) by simp
      then show ?thesis
        using "2.IH"(2) [OF pos_def _ _ _ inner_def _ fuel b(3)] that False by blast
    qed
    ultimately show ?thesis
      by (auto simp: Let_def fold scan_str_def scan_scalar_def split: sum.splits option.splits)
  qed (simp add: Let_def fold)
next
  case (4 fuel "txt" pos0 path found)
  define pos where "pos = skip txt pos0"
  note fold = pos_def [symmetric]
  show ?case
  proof (cases "length txt \<le> pos \<or> txt ! pos \<noteq> quote")
    case False
    show ?thesis
    proof (cases "scan_str txt pos")
      case (Inl e)
      then show ?thesis using False
        by (auto simp: Let_def fold scan_str_def split: option.splits)
    next
      case (Inr r)
      obtain after key where r: "r = (after, key)" by (cases r)
      note key = Inr [unfolded r]
      define colon where "colon = skip txt after"
      show ?thesis
      proof (cases "length txt \<le> colon \<or> txt ! colon \<noteq> CHR '':''")
        case c: False
        have b: "pos0 \<le> pos" "Suc pos < after" "after \<le> colon" "Suc colon \<le> length txt"
          using skip_le scan_str_bounds [OF key] c by (auto simp: pos_def colon_def)
        then have fuel: "2 * (length txt - Suc colon) + 2 \<le> fuel" using "4.prems" by simp
        note no = "4.IH"(1) [OF pos_def False key refl colon_def c fuel b(4)]
        show ?thesis
        proof (cases "scan_value fuel txt (Suc colon) (path @ [key]) found")
          case (Inl e)
          then show ?thesis using no False c key
            by (simp add: Let_def fold colon_def [symmetric])
        next
          case (Inr v)
          obtain q f where v: "v = (q, f)" by (cases v)
          note val = Inr [unfolded v]
          define pos' where "pos' = skip txt q"
          have q: "Suc colon < q" "q \<le> pos'"
            using scan_scanned(1) [OF val b(4)] skip_le by (auto simp: scanned_def pos'_def)
          have "scan_object fuel txt (Suc pos') path f \<noteq> Inl OutOfFuel"
            if "\<not> length txt \<le> pos'" "txt ! pos' = CHR '',''"
            using "4.IH"(2) [OF pos_def False key refl colon_def c val refl pos'_def that]
              that "4.prems" b q by simp
          then show ?thesis using False c key val
            by (auto simp: Let_def fold colon_def [symmetric] pos'_def [symmetric])
        qed
      qed (use False key in \<open>auto simp: Let_def fold colon_def [symmetric]\<close>)
    qed
  qed (auto simp: Let_def fold)
next
  case (6 fuel "txt" pos0 found)
  have fuel: "2 * (length txt - pos0) + 2 \<le> fuel" using "6.prems" by simp
  note no = "6.IH"(1) [OF fuel "6.prems"(2)]
  show ?case
  proof (cases "scan_value fuel txt pos0 [''[]''] found")
    case (Inr v)
    obtain q f where v: "v = (q, f)" by (cases v)
    note val = Inr [unfolded v]
    define pos' where "pos' = skip txt q"
    have q: "pos0 < q" "q \<le> pos'"
      using scan_scanned(1) [OF val "6.prems"(2)] skip_le by (auto simp: scanned_def pos'_def)
    have "scan_array fuel txt (Suc pos') f \<noteq> Inl OutOfFuel"
      if "\<not> length txt \<le> pos'" "txt ! pos' = CHR '',''"
      using "6.IH"(2) [OF val refl pos'_def that] that "6.prems" q by simp
    then show ?thesis using val by (auto simp: Let_def pos'_def [symmetric])
  qed (use no in auto)
qed simp_all

lemma scan_value_total: "scan_value (scan_fuel content) content 0 [] [] \<noteq> Inl OutOfFuel"
  by (rule scan_fuel_enough(1)) (simp_all add: scan_fuel_def)

subsection \<open>Only the version changes\<close>












end
