(* ===== verification/PlanOrder.thy ===== *)
theory PlanOrder
  imports PlanModel
begin

text \<open>
  What \<open>Order\<close> and \<open>Validate\<close> of \<^verbatim>\<open>domain/plan.go\<close> promise together: an order
  that comes back files each story once and after all it waits on, the stories that wait on
  nothing in the Mayor's own order, and a plan \<open>Validate\<close> has no reason against always has
  one.
\<close>

definition needs_before :: "plan_story list \<Rightarrow> bool" where
  "needs_before order \<longleftrightarrow>
     (\<forall>a s b. order = a @ s # b \<longrightarrow> set (ps_needs s) \<subseteq> ps_key ` set a)"

definition order_inv :: "plan_story list \<Rightarrow> string list \<Rightarrow> plan_story list \<Rightarrow> bool" where
  "order_inv stories filed order \<longleftrightarrow>
     set filed = ps_key ` set order \<and> distinct (map ps_key order) \<and> set order \<subseteq> set stories \<and>
     needs_before order"

lemma needs_before_nil [simp]: "needs_before []"
  by (simp add: needs_before_def)

lemma needs_before_snoc:
  "needs_before order \<Longrightarrow> set (ps_needs s) \<subseteq> ps_key ` set order \<Longrightarrow> needs_before (order @ [s])"
  unfolding needs_before_def by (fastforce simp: append_eq_append_conv2 append_eq_Cons_conv Cons_eq_append_conv)

lemma can_be_filed_iff: "can_be_filed s filed \<longleftrightarrow> set (ps_needs s) \<subseteq> set filed"
  by (auto simp: can_be_filed_def list_all_iff)

lemma order_pass_inv:
  "order_pass ss (filed, order, placed) = (filed', order', placed') \<Longrightarrow> set ss \<subseteq> set stories \<Longrightarrow>
     order_inv stories filed order \<Longrightarrow> order_inv stories filed' order'"
proof (induction ss arbitrary: filed order placed)
  case (Cons s ss)
  show ?case
  proof (cases "ps_key s \<in> set filed \<or> \<not> can_be_filed s filed")
    case True
    with Cons show ?thesis by simp
  next
    case False
    then have "order_inv stories (ps_key s # filed) (order @ [s])"
      using Cons.prems(2,3)
      by (auto simp: order_inv_def can_be_filed_iff intro: needs_before_snoc)
    with Cons False show ?thesis by simp
  qed
qed simp

lemma order_pass_extends:
  "order_pass ss (filed, order, placed) = (filed', order', placed') \<Longrightarrow> \<exists>ext. order' = order @ ext"
  by (induction ss arbitrary: filed order placed) (fastforce split: if_splits)+

lemma order_pass_placed:
  "order_pass ss (filed, order, True) = (filed', order', placed') \<Longrightarrow> placed'"
  by (induction ss arbitrary: filed order) (auto split: if_splits)

lemma order_pass_stuck:
  "order_pass ss (filed, order, False) = (filed', order', False) \<Longrightarrow>
     filed' = filed \<and> order' = order \<and>
     (\<forall>s \<in> set ss. ps_key s \<in> set filed \<or> \<not> can_be_filed s filed)"
  by (induction ss) (auto split: if_splits dest: order_pass_placed)

lemma order_loop_inv:
  "order_loop stories filed order = Inr res \<Longrightarrow> order_inv stories filed order \<Longrightarrow>
     (\<exists>filed'. order_inv stories filed' res) \<and> length stories \<le> length res \<and> (\<exists>ext. res = order @ ext)"
proof (induction stories filed order rule: order_loop.induct)
  case (1 stories filed order)
  show ?case
  proof (cases "length order < length stories")
    case True
    obtain f o' pl where pass: "order_pass stories (filed, order, False) = (f, o', pl)"
      by (cases "order_pass stories (filed, order, False)")
    then have pl: pl
      using "1.prems"(1) True by (auto simp: order_loop.simps [of stories filed] Let_def split: if_splits)
    have "order_loop stories f o' = Inr res"
      using "1.prems"(1) True pass pl by (simp add: order_loop.simps [of stories filed])
    moreover have "order_inv stories f o'" using order_pass_inv [OF pass] "1.prems"(2) by simp
    ultimately have "(\<exists>filed'. order_inv stories filed' res) \<and> length stories \<le> length res \<and>
        (\<exists>ext. res = o' @ ext)"
      using "1.IH" [OF True pass [symmetric] refl pl] by blast
    then show ?thesis using order_pass_extends [OF pass] by auto
  next
    case False
    then have "res = order" using "1.prems"(1) by (simp add: order_loop.simps [of stories filed])
    then show ?thesis using False "1.prems"(2) by auto
  qed
qed

lemma order_inv_start: "order_inv stories [] []"
  by (simp add: order_inv_def)

lemma order_inv_whole:
  assumes "order_inv stories filed order" "length stories \<le> length order"
  shows "mset order = mset stories"
proof -
  have o: "distinct order" "set order \<subseteq> set stories"
    using assms(1) by (auto simp: order_inv_def distinct_map)
  then have "card (set order) = length order" by (simp add: distinct_card)
  moreover have "card (set order) \<le> card (set stories)" using o(2) by (simp add: card_mono)
  moreover have "card (set stories) \<le> length stories" by (rule card_length)
  ultimately have "card (set stories) = length stories" "card (set order) = card (set stories)"
    using assms(2) by simp_all
  then have "distinct stories" "set order = set stories"
    using o(2) by (auto simp: card_distinct card_subset_eq)
  then show ?thesis using o(1) by (simp add: set_eq_iff_mset_eq_distinct [symmetric])
qed

lemma plan_order_sound:
  assumes "plan_order p = Inr ord"
  shows "mset ord = mset (pl_stories p)" "distinct (map ps_key (pl_stories p))" "needs_before ord"
proof -
  obtain filed where inv: "order_inv (pl_stories p) filed ord" "length (pl_stories p) \<le> length ord"
    using order_loop_inv [OF assms [unfolded plan_order_def] order_inv_start] by blast
  show m: "mset ord = mset (pl_stories p)" by (rule order_inv_whole [OF inv])
  show "needs_before ord" using inv(1) by (simp add: order_inv_def)
  have "mset (map ps_key ord) = mset (map ps_key (pl_stories p))" using m by simp
  moreover have "distinct (map ps_key ord)" using inv(1) by (simp add: order_inv_def)
  ultimately show "distinct (map ps_key (pl_stories p))" using mset_eq_imp_distinct_iff by blast
qed

subsection \<open>The Mayor's order among the stories that wait on nothing\<close>

abbreviation waits_on_nothing :: "plan_story \<Rightarrow> bool" where
  "waits_on_nothing s \<equiv> ps_needs s = []"

lemma order_pass_first:
  "order_pass ss (filed, order, placed) = (filed', order', placed') \<Longrightarrow>
     distinct (map ps_key ss) \<Longrightarrow> set filed \<inter> ps_key ` set ss = {} \<Longrightarrow>
     filter waits_on_nothing order' = filter waits_on_nothing order @ filter waits_on_nothing ss"
proof (induction ss arbitrary: filed order placed)
  case (Cons s ss)
  show ?case
  proof (cases "can_be_filed s filed")
    case True
    then have "order_pass ss (ps_key s # filed, order @ [s], True) = (filed', order', placed')"
      using Cons.prems by simp
    from Cons.IH [OF this] show ?thesis using Cons.prems by auto
  next
    case False
    then have "order_pass ss (filed, order, placed) = (filed', order', placed')"
      "\<not> waits_on_nothing s"
      using Cons.prems by (auto simp: can_be_filed_def)
    with Cons.IH [OF this(1)] show ?thesis using Cons.prems by auto
  qed
qed simp

lemma plan_order_stable:
  assumes "plan_order p = Inr ord"
  shows "filter waits_on_nothing ord = filter waits_on_nothing (pl_stories p)"
proof (cases "pl_stories p = []")
  case True
  then show ?thesis using assms by (simp add: plan_order_def order_loop.simps)
next
  case False
  obtain f o1 pl where pass: "order_pass (pl_stories p) ([], [], False) = (f, o1, pl)"
    by (cases "order_pass (pl_stories p) ([], [], False)")
  have pl: pl
    using assms False pass
    by (auto simp: plan_order_def order_loop.simps [of _ "[]"] Let_def split: if_splits)
  have next_pass: "order_loop (pl_stories p) f o1 = Inr ord"
    using assms False pass pl by (simp add: plan_order_def order_loop.simps [of _ "[]"])
  have "order_inv (pl_stories p) f o1" using order_pass_inv [OF pass] order_inv_start by blast
  then obtain ext where ext: "ord = o1 @ ext" using order_loop_inv [OF next_pass] by blast
  have o1: "filter waits_on_nothing o1 = filter waits_on_nothing (pl_stories p)"
    using order_pass_first [OF pass plan_order_sound(2) [OF assms]] by simp
  have "mset (filter waits_on_nothing ord) = mset (filter waits_on_nothing (pl_stories p))"
    using plan_order_sound(1) [OF assms] by simp
  then have "filter waits_on_nothing ext = []" by (simp add: ext o1)
  then show ?thesis by (simp add: ext o1)
qed

text \<open>C11. An order that comes back is the plan's stories, each once, no two under one key and
  none before a story it waits on; the stories that wait on nothing keep the order the Mayor
  wrote them in.\<close>

theorem filing_order_topological:
  assumes "plan_order p = Inr ord"
  shows "mset ord = mset (pl_stories p) \<and> distinct (map ps_key ord) \<and>
     (\<forall>a s b. ord = a @ s # b \<longrightarrow> set (ps_needs s) \<subseteq> ps_key ` set a) \<and>
     filter (\<lambda>s. ps_needs s = []) ord = filter (\<lambda>s. ps_needs s = []) (pl_stories p)"
proof -
  have "mset (map ps_key ord) = mset (map ps_key (pl_stories p))"
    using plan_order_sound(1) [OF assms] by simp
  then have "distinct (map ps_key ord)"
    using plan_order_sound(2) [OF assms] mset_eq_imp_distinct_iff by blast
  then show ?thesis
    using plan_order_sound [OF assms] plan_order_stable [OF assms]
    by (simp add: needs_before_def)
qed

definition sample_story :: "string \<Rightarrow> string list \<Rightarrow> plan_story" where
  "sample_story key needs = \<lparr>ps_key = key, ps_title = ''Do '' @ key, ps_priority = 0, ps_estimate = 0,
     ps_description = [], ps_acceptance = ''Done.'', ps_overrides = empty_path, ps_needs = needs,
     ps_files = [], ps_labels = [], ps_callers_ok = []\<rparr>"

definition sample_plan :: "plan_story list \<Rightarrow> plan" where
  "sample_plan stories = \<lparr>pl_epic = \<lparr>pe_key = ''e'', pe_title = ''Epic'', pe_priority = 0,
     pe_description = [], pe_success = [],
     pe_defaults = empty_path\<lparr>p_rig := ''rig'', p_branch := ''main'', p_harness := ''claude'',
        p_model := ''opus'', p_effort := ''high''\<rparr>\<rparr>, pl_stories = stories\<rparr>"

abbreviation three_stories :: "plan_story list" where
  "three_stories \<equiv> [sample_story ''a'' [''b''], sample_story ''b'' [''c''], sample_story ''c'' []]"

lemma three_stories_order: "plan_order (sample_plan three_stories) = Inr (rev three_stories)"
  by code_simp

lemma filing_order_topological_witness:
  "mset (rev three_stories) = mset (pl_stories (sample_plan three_stories))"
  using filing_order_topological [OF three_stories_order] by (rule conjunct1)

subsection \<open>A plan with nothing wrong has an order\<close>

lemma needs_of_distinct:
  assumes "distinct (map ps_key stories)" "s \<in> set stories"
  shows "needs_of stories (ps_key s) = Some (ps_needs s)"
proof -
  have "foldl (\<lambda>m s. m(ps_key s \<mapsto> ps_needs s)) m ss k =
      (if k \<in> ps_key ` set ss then foldl (\<lambda>m s. m(ps_key s \<mapsto> ps_needs s)) Map.empty ss k else m k)"
    for m :: needs_map and ss k
  proof (induction ss arbitrary: m rule: rev_induct)
    case (snoc x xs)
    then show ?case by (cases "k = ps_key x") auto
  qed simp
  note other = this
  from assms show ?thesis unfolding needs_of_def
  proof (induction stories)
    case (Cons x xs)
    show ?case
    proof (cases "s \<in> set xs")
      case True
      then show ?thesis
        using Cons other [of "[ps_key x \<mapsto> ps_needs x]" xs] by (auto simp del: fun_upd_apply)
    next
      case False
      then have "s = x" "ps_key s \<notin> ps_key ` set xs" using Cons.prems by auto
      then show ?thesis
        using other [of "[ps_key x \<mapsto> ps_needs x]" xs "ps_key x"]
        by (simp del: fun_upd_apply) simp
    qed
  qed simp
qed

lemma order_pass_not_stuck:
  assumes acyc: "cycle_of stories = []" and dist: "distinct (map ps_key stories)"
    and known: "\<And>s. s \<in> set stories \<Longrightarrow> set (ps_needs s) \<subseteq> ps_key ` set stories"
    and inv: "order_inv stories filed order" and short: "length order < length stories"
  shows "\<not> (\<forall>s \<in> set stories. ps_key s \<in> set filed \<or> \<not> can_be_filed s filed)"
proof
  assume stuck: "\<forall>s \<in> set stories. ps_key s \<in> set filed \<or> \<not> can_be_filed s filed"
  let ?R = "waits (needs_of stories)"
  define U where "U = {s \<in> set stories. ps_key s \<notin> set filed}"
  have "?R \<subseteq> dom (needs_of stories) \<times> dom (needs_of stories)" by (auto simp: waits_def)
  then have "finite ?R" by (rule finite_subset) (simp add: dom_needs_of)
  then have wf: "wf (?R\<inverse>)"
    using no_cycle_acyclic [OF acyc] by (simp add: finite_acyclic_wf_converse)
  have "U \<noteq> {}"
  proof
    assume "U = {}"
    then have "ps_key ` set stories \<subseteq> ps_key ` set order" using inv by (auto simp: U_def order_inv_def)
    then have "card (set (map ps_key stories)) \<le> card (set (map ps_key order))"
      by (intro card_mono) auto
    moreover have "card (set (map ps_key stories)) = length stories"
      using distinct_card [OF dist] by simp
    moreover have "card (set (map ps_key order)) \<le> length order"
      using card_length [of "map ps_key order"] by simp
    ultimately show False using short by simp
  qed
  then obtain k where "k \<in> ps_key ` U" "\<And>n. (n, k) \<in> ?R\<inverse> \<Longrightarrow> n \<notin> ps_key ` U"
    using wfE_min [OF wf, of _ "ps_key ` U"] by blast
  then obtain s where s: "s \<in> U" "\<And>n. (ps_key s, n) \<in> ?R \<Longrightarrow> n \<notin> ps_key ` U" by auto
  then have "s \<in> set stories" "\<not> can_be_filed s filed" using stuck by (auto simp: U_def)
  then obtain n where n: "n \<in> set (ps_needs s)" "n \<notin> set filed" by (auto simp: can_be_filed_iff)
  then have "n \<in> ps_key ` set stories" using known \<open>s \<in> set stories\<close> by blast
  then have "n \<in> dom (needs_of stories)" "n \<in> ps_key ` U"
    using n(2) by (auto simp: dom_needs_of U_def)
  then have "(ps_key s, n) \<in> ?R" "n \<in> ps_key ` U"
    using n(1) needs_of_distinct [OF dist \<open>s \<in> set stories\<close>] by (auto simp: waits_def)
  with s(2) show False by blast
qed

lemma order_loop_complete:
  assumes "cycle_of stories = []" "distinct (map ps_key stories)"
    and "\<And>s. s \<in> set stories \<Longrightarrow> set (ps_needs s) \<subseteq> ps_key ` set stories"
    and "order_inv stories filed order"
  shows "\<exists>res. order_loop stories filed order = Inr res"
  using assms
proof (induction stories filed order rule: order_loop.induct)
  case (1 stories filed order)
  show ?case
  proof (cases "length order < length stories")
    case True
    obtain f o' pl where pass: "order_pass stories (filed, order, False) = (f, o', pl)"
      by (cases "order_pass stories (filed, order, False)")
    have pl: pl
      using order_pass_not_stuck [OF "1.prems" True] order_pass_stuck [of stories filed order f o'] pass
      by (cases pl) auto
    have "order_inv stories f o'" using order_pass_inv [OF pass] "1.prems"(4) by simp
    then have "\<exists>res. order_loop stories f o' = Inr res"
      using "1.IH" [OF True pass [symmetric] refl pl "1.prems"(1-3)] by blast
    then show ?thesis using True pass pl by (simp add: order_loop.simps [of stories filed])
  next
    case False
    then show ?thesis by (simp add: order_loop.simps)
  qed
qed

lemma stories_reasons_keys:
  "stories_reasons defaults seen i ss = [] \<Longrightarrow>
     distinct (map ps_key ss) \<and> set seen \<inter> ps_key ` set ss = {}"
  by (induction defaults seen i ss rule: stories_reasons.induct)
    (auto simp: story_reasons_def Let_def split: if_splits)

lemma need_reasons_nil: "need_reasons seen name key need = [] \<longleftrightarrow> need \<noteq> key \<and> need \<in> set seen"
  by (simp add: need_reasons_def)

lemma needs_reasons_known:
  "needs_reasons seen i ss = [] \<Longrightarrow> s \<in> set ss \<Longrightarrow> set (ps_needs s) \<subseteq> set seen - {ps_key s}"
  by (induction seen i ss rule: needs_reasons.induct)
    (auto simp: need_reasons_nil)

lemma validate_plan_None: "validate_plan p = None \<longleftrightarrow> plan_reasons p = []"
  by (simp add: validate_plan_def Let_def)

lemma valid_plan_facts:
  assumes "validate_plan p = None"
  shows "distinct (map ps_key (pl_stories p))" "cycle_of (pl_stories p) = []"
    "s \<in> set (pl_stories p) \<Longrightarrow> set (ps_needs s) \<subseteq> ps_key ` set (pl_stories p) - {ps_key s}"
  using assms stories_reasons_keys needs_reasons_known
  unfolding validate_plan_None plan_reasons_def
  by (fastforce simp: Let_def split: if_splits)+

text \<open>C12. A plan no reason is found against can be filed: \<open>Order\<close> never fails on it, every
  need of a story is a story of the plan other than itself, and none waits on itself.\<close>

theorem valid_plan_has_order:
  assumes "validate_plan p = None"
  shows "(\<exists>ord. plan_order p = Inr ord \<and> mset ord = mset (pl_stories p)) \<and>
     (\<forall>s. s \<in> set (pl_stories p) \<longrightarrow>
        set (ps_needs s) \<subseteq> ps_key ` set (pl_stories p) - {ps_key s}) \<and>
     acyclic (waits (needs_of (pl_stories p)))"
proof -
  note facts = valid_plan_facts [OF assms]
  have "\<exists>ord. plan_order p = Inr ord"
    unfolding plan_order_def
    by (rule order_loop_complete [OF facts(2,1) _ order_inv_start]) (use facts(3) in blast)
  then show ?thesis using facts plan_order_sound(1) by (auto simp: cycle_empty_iff)
qed

lemma three_stories_valid: "validate_plan (sample_plan three_stories) = None"
  by code_simp

lemma valid_plan_has_order_witness:
  "\<exists>ord. plan_order (sample_plan three_stories) = Inr ord"
  using valid_plan_has_order [OF three_stories_valid] by blast

lemma stories_reasons_each:
  "stories_reasons defaults seen i ss = [] \<Longrightarrow> s \<in> set ss \<Longrightarrow> \<exists>seen i. story_reasons defaults seen i s = []"
  by (induction defaults seen i ss rule: stories_reasons.induct) auto

lemma story_reasons_nil:
  assumes "story_reasons defaults seen i s = []"
  shows "trim_space (ps_key s) \<noteq> []" "trim_space (ps_title s) \<noteq> []"
    "length (ps_title s) \<le> MaxTitleLength" "trim_space (ps_acceptance s) \<noteq> []"
    "ok (plan_story_path s defaults)"
    "\<not> is_bug [] (ps_title s) (ps_labels s) \<or>
       passes (sweep_of_story (ps_acceptance s) (ps_description s))"
    "\<not> owes_an_expect (story_rig s defaults) \<or> ok (parse_expect (ps_acceptance s))"
  using assms
  by (auto simp: story_reasons_def Let_def ok_def split: if_splits sum.splits)

text \<open>Each story of a plan no reason is found against is ready to be worked: it has a title
  the tracker takes, an acceptance, a whole path, a sweep when it is a bug and an Expect line
  when it is the factory's own.\<close>

theorem valid_plan_stories_ready:
  assumes "validate_plan p = None" and "s \<in> set (pl_stories p)"
  shows "trim_space (ps_title s) \<noteq> [] \<and> length (ps_title s) \<le> MaxTitleLength \<and>
     trim_space (ps_acceptance s) \<noteq> [] \<and>
     (\<exists>q. plan_story_path s (pe_defaults (pl_epic p)) = Inr q \<and> path_validate q = None) \<and>
     (\<not> is_bug [] (ps_title s) (ps_labels s) \<or> sweep_of (ps_acceptance s) = SweepGiven) \<and>
     (\<not> owes_an_expect (story_rig s (pe_defaults (pl_epic p))) \<or>
        (\<exists>e. parse_expect (ps_acceptance s) = Inr e))"
proof -
  have "stories_reasons (pe_defaults (pl_epic p)) [] 0 (pl_stories p) = []"
    using assms(1) by (simp add: validate_plan_None plan_reasons_def)
  then obtain seen i where r: "story_reasons (pe_defaults (pl_epic p)) seen i s = []"
    using stories_reasons_each assms(2) by blast
  have "path_validate q = None" if "plan_story_path s d = Inr q" for d q
    using that by (auto simp: plan_story_path_def story_path_from_def Let_def split: option.splits)
  moreover have "passes (sweep_of_story a d) \<longleftrightarrow> sweep_of a = SweepGiven" for a d
    by (simp add: passes_def sweep_of_story_def Let_def)
  ultimately show ?thesis using story_reasons_nil [OF r] by (auto simp: ok_iff)
qed

lemma valid_plan_stories_ready_witness:
  "length (ps_title (sample_story ''a'' [''b''])) \<le> MaxTitleLength"
  using valid_plan_stories_ready [OF three_stories_valid, of "sample_story ''a'' [''b'']"]
  by (simp add: sample_plan_def)

subsection \<open>Titles cut to fit\<close>

lemma cut_back_le: "cut_back title n \<le> n"
  by (induction n) auto

lemma rune_width_start: "rune_width s \<noteq> 0 \<Longrightarrow> rune_start (hd s)"
  by (cases s) (auto simp: Let_def rune_start_def cont_byte_def split: if_splits)

lemma rune_inner_cont:
  assumes "0 < i" "i < rune_width s"
  shows "\<not> rune_start (s ! i)"
proof -
  obtain a b r where s: "s = a # b # r"
    using assms by (cases s rule: list.exhaust; cases "tl s") (auto simp: Let_def split: if_splits)
  have "i < 4" using assms(2) rune_width_le4 [of s] by simp
  then consider "i = 1" | "i = 2" | "i = 3" using assms(1) by linarith
  then show ?thesis
    using assms(2) unfolding s
    by cases (auto simp: Let_def rune_start_def cont_byte_def second_ok_def
        numeral_2_eq_2 numeral_3_eq_3 split: if_splits list.splits)
qed

lemma cut_back_inner:
  "(\<And>i. 0 < i \<Longrightarrow> i \<le> n \<Longrightarrow> \<not> rune_start (s ! i)) \<Longrightarrow> cut_back s n = 0"
  by (induction n) auto

lemma cut_back_shift:
  assumes "0 < w" "w \<le> length s" "rune_start (s ! w)"
  shows "cut_back s (w + k) = w + cut_back (drop w s) k"
proof (induction k)
  case 0
  then show ?case using assms by (cases w) auto
next
  case (Suc k)
  then show ?case using assms by (simp add: nth_drop)
qed

lemma cut_back_valid:
  "valid_utf8 s \<Longrightarrow> n < length s \<Longrightarrow> valid_utf8 (take (cut_back s n) s) \<and> n \<le> cut_back s n + 3"
proof (induction s arbitrary: n rule: valid_utf8.induct)
  case (1 s)
  let ?w = "rune_width s"
  have ne: "s \<noteq> []" using "1.prems"(2) by auto
  then have w: "?w \<noteq> 0" "valid_utf8 (drop ?w s)"
    using "1.prems"(1) valid_utf8.simps [of s] by (auto split: if_splits)
  show ?case
  proof (cases "n < ?w")
    case True
    then have "cut_back s n = 0" by (intro cut_back_inner rune_inner_cont) auto
    moreover have "n \<le> 3" using True rune_width_le4 [of s] by simp
    ultimately show ?thesis by simp
  next
    case False
    then obtain k where n: "n = ?w + k" by (metis le_add_diff_inverse not_less)
    then have k: "k < length (drop ?w s)" using "1.prems"(2) by simp
    have "rune_start (hd (drop ?w s))"
      using w(2) k valid_utf8.simps [of "drop ?w s"] rune_width_start by (auto split: if_splits)
    then have "rune_start (s ! ?w)" using k by (simp add: hd_drop_conv_nth)
    then have c: "cut_back s n = ?w + cut_back (drop ?w s) k"
      unfolding n using w(1) rune_width_le [of s] by (intro cut_back_shift) auto
    have IH: "valid_utf8 (take (cut_back (drop ?w s) k) (drop ?w s))"
      "k \<le> cut_back (drop ?w s) k + 3"
      using "1.IH" [OF ne w(1,2) k] by auto
    have "rune_width (take (cut_back s n) s) = ?w" using rune_width_take [OF w(1)] c by simp
    moreover have "drop ?w (take (cut_back s n) s) = take (cut_back (drop ?w s) k) (drop ?w s)"
      by (simp add: c drop_take)
    ultimately have "valid_utf8 (take (cut_back s n) s)"
      using IH(1) w(1) by (subst valid_utf8.simps) simp
    then show ?thesis using IH(2) c n by simp
  qed
qed

lemma Ellipsis_valid: "valid_utf8 Ellipsis"
  by code_simp

text \<open>A title fitted to a formula's steps never makes a step's title too long for the
  tracker, stays UTF-8, is left alone when it fits already, and is otherwise cut as late as a
  character and the ellipsis allow.\<close>

theorem fitted_title_fits:
  assumes "fit_overhead story_id steps + length Ellipsis \<le> MaxTitleLength" and "valid_utf8 title"
  shows "length (fit_title_to_steps title story_id steps) + fit_overhead story_id steps
       \<le> MaxTitleLength \<and>
     valid_utf8 (fit_title_to_steps title story_id steps) \<and>
     (fit_title_to_steps title story_id steps = title \<or>
        MaxTitleLength < length title + fit_overhead story_id steps \<and>
        (\<exists>n. fit_title_to_steps title story_id steps = take n title @ Ellipsis \<and>
           MaxTitleLength \<le> n + length Ellipsis + 3 + fit_overhead story_id steps))"
proof (cases "length title + fit_overhead story_id steps \<le> MaxTitleLength")
  case True
  then show ?thesis using assms(2) by (simp add: fit_title_to_steps_def Let_def)
next
  case False
  define n where "n = MaxTitleLength - fit_overhead story_id steps - length Ellipsis"
  have n: "n < length title" "n + length Ellipsis + fit_overhead story_id steps = MaxTitleLength"
    using False assms(1) by (simp_all add: n_def)
  have eq: "fit_title_to_steps title story_id steps = take (cut_back title n) title @ Ellipsis"
  proof -
    have "nat (int MaxTitleLength - int (fit_overhead story_id steps) - int (length Ellipsis)) = n"
      using assms(1) by (simp add: n_def)
    then show ?thesis using False assms(1) by (simp add: fit_title_to_steps_def Let_def)
  qed
  note cut = cut_back_valid [OF assms(2) n(1)]
  have "length (fit_title_to_steps title story_id steps) \<le> n + length Ellipsis"
    using cut_back_le [of title n] by (simp add: eq)
  moreover have "valid_utf8 (fit_title_to_steps title story_id steps)"
    unfolding eq by (rule valid_utf8_append [OF conjunct1 [OF cut] Ellipsis_valid])
  ultimately show ?thesis using False n(2) cut eq by auto
qed

lemma fitted_title_fits_witness:
  "length (fit_title_to_steps ''A title'' ''mw-1'' [''Build {{story}}: {{title}}'']) + 12
     \<le> MaxTitleLength"
proof -
  have "fit_overhead ''mw-1'' [''Build {{story}}: {{title}}''] = 12" by code_simp
  moreover have "valid_utf8 ''A title''" by code_simp
  ultimately show ?thesis
    using fitted_title_fits [of "''mw-1''" "[''Build {{story}}: {{title}}'']" "''A title''"]
    by (simp add: MaxTitleLength_def Ellipsis_def)
qed

end
