(* ===== verification/GoLower.thy ===== *)
theory GoLower
  imports Utf8
begin

text \<open>
  \<^verbatim>\<open>strings.ToLower\<close> of a text that may hold more than ASCII.  The table \<^verbatim>\<open>unicode.ToLower\<close>
  is the parameter \<open>lower\<close>.
\<close>

definition ascii :: "char \<Rightarrow> bool" where
  "ascii c \<longleftrightarrow> byte c < 0x80"

text \<open>A text that is not all ASCII goes rune by rune, a byte that begins none as U+FFFD.\<close>

definition go_lower :: "(nat \<Rightarrow> nat) \<Rightarrow> string \<Rightarrow> string" where
  "go_lower lower s =
     (if list_all ascii s then map lower_byte s else encode_runes (map lower (decode_runes s)))"

lemma encode_ascii: "list_all ascii s \<Longrightarrow> encode_runes (map byte s) = s"
  by (induction s) (simp_all add: encode_runes_def encode_rune_def ascii_def)

end
