(* ===== verification/RigProposals.thy ===== *)
theory RigProposals
  imports Acceptance GoLower ShellWords
begin

text \<open>
  \<^verbatim>\<open>application/rigproposals.go\<close>: the section of a Builder's closing comment that proposes
  what the rig's memory keeps, and the \<^verbatim>\<open>mw memory\<close> lines a mail says to paste; with it the
  section for common errors (\<^verbatim>\<open>application/errors.go\<close>), read the same way.  The regular
  expressions are written out as recognisers.  \<^verbatim>\<open>unicode.ToLower\<close> is the parameter
  \<open>lower\<close>.  A slice past the end of a line, which stops the Go program, is \<open>PastLine\<close>.
\<close>

subsection \<open>A section of a comment\<close>

definition RigMemoryMarker :: string where "RigMemoryMarker = ''For the rig memory:''"
definition CommonErrorsMarker :: string where "CommonErrorsMarker = ''For common errors:''"

datatype section_panic = PastLine string

text \<open>What a line says after a heading, when it has it.\<close>

definition after_heading :: "(nat \<Rightarrow> nat) \<Rightarrow> string \<Rightarrow> string \<Rightarrow> (section_panic, string option) result" where
  "after_heading lower marker line =
     (case index_of (go_lower lower line) (go_lower lower marker) of
        None \<Rightarrow> Inr None
      | Some at \<Rightarrow>
          if length line < at + length marker then Inl (PastLine line)
          else Inr (Some (drop (at + length marker) line)))"

text \<open>The text after the last heading, and the lines after its line.\<close>

fun last_section :: "(nat \<Rightarrow> nat) \<Rightarrow> string \<Rightarrow> string list \<Rightarrow> (section_panic, string list option) result" where
  "last_section lower marker [] = Inr None"
| "last_section lower marker (line # lines) =
     (case after_heading lower marker line of
        Inl e \<Rightarrow> Inl e
      | Inr here \<Rightarrow>
          (case last_section lower marker lines of
             Inl e \<Rightarrow> Inl e
           | Inr (Some found) \<Rightarrow> Inr (Some found)
           | Inr None \<Rightarrow> Inr (map_option (\<lambda>first. first # lines) here)))"

definition comment_lines :: "string \<Rightarrow> string list" where
  "comment_lines comment = split_on CHR 0x0A (replace_all comment [CHR 0x0D, CHR 0x0A] [CHR 0x0A])"

definition has_heading :: "(nat \<Rightarrow> nat) \<Rightarrow> string \<Rightarrow> string \<Rightarrow> bool" where
  "has_heading lower marker line \<longleftrightarrow> contains (go_lower lower line) (go_lower lower marker)"

text \<open>The lines of a section, up to the other's heading.\<close>

definition section_of :: "(nat \<Rightarrow> nat) \<Rightarrow> string \<Rightarrow> string \<Rightarrow> string \<Rightarrow> (section_panic, string list option) result" where
  "section_of lower marker other comment =
     (case last_section lower marker (comment_lines comment) of
        Inl e \<Rightarrow> Inl e
      | Inr found \<Rightarrow> Inr (map_option (takeWhile (\<lambda>raw. \<not> has_heading lower other raw)) found))"

definition line_text :: "string \<Rightarrow> string" where
  "line_text raw = trim_space (trim_list_marker raw)"

definition says_nothing :: "string \<Rightarrow> bool" where
  "says_nothing s \<longleftrightarrow> equal_fold (trim_set s '' .*_`'') ''nothing''"

definition one_line :: "string \<Rightarrow> string" where
  "one_line s = join '' '' (str_fields s)"

subsection \<open>Proposals\<close>

datatype proposal_verb =
    ProposeGotcha | ProposeDecision | ProposeSupersede | ProposeRetire | ProposeRecheck | ProposeNothing

fun verb_word :: "proposal_verb \<Rightarrow> string" where
  "verb_word ProposeGotcha = ''gotcha''"
| "verb_word ProposeDecision = ''decision''"
| "verb_word ProposeSupersede = ''supersede''"
| "verb_word ProposeRetire = ''retire''"
| "verb_word ProposeRecheck = ''recheck''"
| "verb_word ProposeNothing = ''nothing''"

record fact_proposal =
  fp_verb :: proposal_verb
  fp_subject :: string
  fp_slug :: string
  fp_new_slug :: string
  fp_sentence :: string

datatype proposal_line = Proposal fact_proposal | Malformed string

definition no_proposal :: fact_proposal where
  "no_proposal = \<lparr>fp_verb = ProposeNothing, fp_subject = [], fp_slug = [], fp_new_slug = [], fp_sentence = []\<rparr>"

text \<open>\<open>[a-z0-9][a-z0-9-]*\<close>.\<close>

definition slug_char :: "char \<Rightarrow> bool" where
  "slug_char c \<longleftrightarrow> is_lower c \<or> is_digit c \<or> c = CHR ''-''"

definition slug_word :: "string \<Rightarrow> bool" where
  "slug_word s \<longleftrightarrow> s \<noteq> [] \<and> hd s \<noteq> CHR ''-'' \<and> list_all slug_char s"

text \<open>What follows one of some words and a space, with the word's verb.\<close>

fun after_verb :: "proposal_verb list \<Rightarrow> string \<Rightarrow> (proposal_verb \<times> string) option" where
  "after_verb [] s = None"
| "after_verb (v # vs) s =
     (case cut_prefix s (verb_word v @ '' '') of Some r \<Rightarrow> Some (v, r) | None \<Rightarrow> after_verb vs s)"

text \<open>\<open>^(gotcha|decision) \[([^\]]*)\]:(.*)$\<close>.\<close>

definition subject_form :: "string \<Rightarrow> (proposal_verb \<times> string \<times> string) option" where
  "subject_form s =
     (case after_verb [ProposeGotcha, ProposeDecision] s of
        None \<Rightarrow> None
      | Some (v, r) \<Rightarrow>
          (case cut_prefix r ''['' of
             None \<Rightarrow> None
           | Some b \<Rightarrow>
               (case cut_prefix (dropWhile (\<lambda>c. c \<noteq> CHR '']'') b) '']:'' of
                  None \<Rightarrow> None
                | Some t \<Rightarrow> if CHR 0x0A \<in> set t then None else Some (v, takeWhile (\<lambda>c. c \<noteq> CHR '']'') b, t))))"

text \<open>A slug, a colon and what follows; and \<open>^(supersede|retire|recheck) <slug>:(.*)$\<close>.\<close>

definition slug_colon :: "string \<Rightarrow> (string \<times> string) option" where
  "slug_colon s =
     (let slug = takeWhile slug_char s
      in if slug_word slug then map_option (Pair slug) (cut_prefix (dropWhile slug_char s) '':'') else None)"

definition slug_form :: "string \<Rightarrow> (proposal_verb \<times> string \<times> string) option" where
  "slug_form s =
     (case after_verb [ProposeSupersede, ProposeRetire, ProposeRecheck] s of
        None \<Rightarrow> None
      | Some (v, r) \<Rightarrow>
          (case slug_colon r of
             None \<Rightarrow> None
           | Some (slug, t) \<Rightarrow> if CHR 0x0A \<in> set t then None else Some (v, slug, t)))"

subsection \<open>The command form\<close>

definition memory_command_prefix :: string where "memory_command_prefix = ''mw memory ''"

text \<open>How many positional words a verb takes, and which flags.\<close>

definition memory_command_shape :: "(string \<times> nat \<times> string list) list" where
  "memory_command_shape =
     [(''add'', 2, [''kind'', ''subject'', ''source'', ''slug'']),
      (''supersede'', 3, [''source'', ''slug'']),
      (''retire'', 2, [''reason'']),
      (''recheck'', 2, [''why''])]"

fun read_flags :: "string list \<Rightarrow> string list \<Rightarrow> (string \<rightharpoonup> string) \<Rightarrow> string list \<Rightarrow> (string list \<times> (string \<rightharpoonup> string)) option" where
  "read_flags known pos flags [] = Some (pos, flags)"
| "read_flags known pos flags (w # rest) =
     (if \<not> has_prefix w ''--'' then read_flags known (pos @ [w]) flags rest
      else (case cut (trim_prefix w ''--'') ''='' of
              (name, val, joined) \<Rightarrow>
                if \<not> List.member known name then None
                else if joined then read_flags known pos (flags(name \<mapsto> val)) rest
                else (case rest of [] \<Rightarrow> None | v # rest' \<Rightarrow> read_flags known pos (flags(name \<mapsto> v)) rest')))"

definition flag :: "(string \<rightharpoonup> string) \<Rightarrow> string \<Rightarrow> string" where
  "flag flags name = (case flags name of None \<Rightarrow> [] | Some v \<Rightarrow> v)"

definition added_fact :: "(string \<rightharpoonup> string) \<Rightarrow> string list \<Rightarrow> fact_proposal option" where
  "added_fact flags pos =
     (let kind = flag flags ''kind''; subject = one_line (flag flags ''subject''); sentence = one_line (pos ! 1)
      in if subject = [] \<or> sentence = [] then None
         else map_option (\<lambda>v. \<lparr>fp_verb = v, fp_subject = subject, fp_slug = [], fp_new_slug = flag flags ''slug'', fp_sentence = sentence\<rparr>)
                (find (\<lambda>v. verb_word v = kind) [ProposeGotcha, ProposeDecision]))"

definition named_fact :: "proposal_verb \<Rightarrow> string \<Rightarrow> string \<Rightarrow> string \<Rightarrow> fact_proposal option" where
  "named_fact v slug new_slug said =
     (let sentence = one_line said
      in if \<not> slug_word slug \<or> sentence = [] then None
         else Some \<lparr>fp_verb = v, fp_subject = [], fp_slug = slug, fp_new_slug = new_slug, fp_sentence = sentence\<rparr>)"

definition command_fact :: "string \<Rightarrow> string list \<Rightarrow> (string \<rightharpoonup> string) \<Rightarrow> fact_proposal option" where
  "command_fact verb pos flags =
     (if flag flags ''slug'' \<noteq> [] \<and> \<not> slug_word (flag flags ''slug'') then None
      else if verb = ''add'' then added_fact flags pos
      else if verb = ''supersede'' then named_fact ProposeSupersede (pos ! 1) (flag flags ''slug'') (pos ! 2)
      else if verb = ''recheck'' then named_fact ProposeRecheck (pos ! 1) [] (flag flags ''why'')
      else named_fact ProposeRetire (pos ! 1) [] (flag flags ''reason''))"

definition parse_memory_command :: "string \<Rightarrow> fact_proposal option" where
  "parse_memory_command s =
     (case shell_words (trim_prefix s memory_command_prefix) of
        None \<Rightarrow> None
      | Some [] \<Rightarrow> None
      | Some (verb # words) \<Rightarrow>
          (case map_of memory_command_shape verb of
             None \<Rightarrow> None
           | Some (positionals, known) \<Rightarrow>
               (case read_flags known [] Map.empty words of
                  None \<Rightarrow> None
                | Some (pos, flags) \<Rightarrow> if length pos \<noteq> positionals then None else command_fact verb pos flags)))"

definition parse_fact_proposal :: "string \<Rightarrow> fact_proposal option" where
  "parse_fact_proposal s =
     (if says_nothing s then Some no_proposal
      else if has_prefix s memory_command_prefix then parse_memory_command s
      else (case subject_form s of
              Some (v, subject, t) \<Rightarrow>
                (let subject = trim_space subject; sentence = one_line t
                 in if subject = [] \<or> sentence = [] then None
                    else Some \<lparr>fp_verb = v, fp_subject = subject, fp_slug = [], fp_new_slug = [], fp_sentence = sentence\<rparr>)
            | None \<Rightarrow>
                (case slug_form s of
                   Some (v, slug, t) \<Rightarrow>
                     (if one_line t = [] then None
                      else Some \<lparr>fp_verb = v, fp_subject = [], fp_slug = slug, fp_new_slug = [], fp_sentence = one_line t\<rparr>)
                 | None \<Rightarrow> None)))"

definition answer_line :: "string \<Rightarrow> proposal_line option" where
  "answer_line raw =
     (if line_text raw = [] then None
      else Some (case parse_fact_proposal (line_text raw) of
                   Some p \<Rightarrow> Proposal p
                 | None \<Rightarrow> Malformed (trim_space raw)))"

text \<open>The section's lines answered, or \<open>None\<close> when the comment has no such section.\<close>

definition parse_fact_proposals :: "(nat \<Rightarrow> nat) \<Rightarrow> string \<Rightarrow> (section_panic, proposal_line list option) result" where
  "parse_fact_proposals lower comment =
     (case section_of lower RigMemoryMarker CommonErrorsMarker comment of
        Inl e \<Rightarrow> Inl e
      | Inr found \<Rightarrow> Inr (map_option (List.map_filter answer_line) found))"

subsection \<open>What the mail says\<close>

definition slug_flag :: "fact_proposal \<Rightarrow> string" where
  "slug_flag p = (if fp_new_slug p = [] then [] else '' --slug '' @ fp_new_slug p)"

definition memory_command :: "fact_proposal \<Rightarrow> string \<Rightarrow> string \<Rightarrow> string" where
  "memory_command p rig story =
     (case fp_verb p of
        ProposeSupersede \<Rightarrow>
          ''mw memory supersede '' @ rig @ '' '' @ fp_slug p @ slug_flag p @ '' --source '' @ story @ '' '' @ shell_quoted (fp_sentence p)
      | ProposeRetire \<Rightarrow> ''mw memory retire '' @ rig @ '' '' @ fp_slug p @ '' --reason '' @ shell_quoted (fp_sentence p)
      | ProposeRecheck \<Rightarrow> ''mw memory recheck '' @ rig @ '' '' @ fp_slug p @ '' --why '' @ shell_quoted (fp_sentence p)
      | ProposeNothing \<Rightarrow> ''nothing''
      | v \<Rightarrow>
          ''mw memory add '' @ rig @ '' --kind '' @ verb_word v @ '' --subject '' @ shell_quoted (fp_subject p) @ slug_flag p @
          '' --source '' @ story @ '' '' @ shell_quoted (fp_sentence p))"

definition flat_file_line :: "fact_proposal \<Rightarrow> string \<Rightarrow> string \<Rightarrow> string" where
  "flat_file_line p flat_file story =
     (let said = '': '' @ fp_sentence p @ '' ('' @ story @ '')''
      in case fp_verb p of
           ProposeNothing \<Rightarrow> ''nothing''
         | v \<Rightarrow>
             if v = ProposeGotcha \<or> v = ProposeDecision
             then ''place by hand in '' @ flat_file @ '': '' @ verb_word v @ '' ['' @ fp_subject p @ '']'' @ said
             else ''edit by hand in '' @ flat_file @ '': '' @ verb_word v @ '' '' @ fp_slug p @ said)"

definition block_line :: "string \<Rightarrow> string \<Rightarrow> string \<Rightarrow> proposal_line \<Rightarrow> string" where
  "block_line rig story flat_file l =
     (case l of
        Malformed raw \<Rightarrow> ''MALFORMED: '' @ raw
      | Proposal p \<Rightarrow> if flat_file \<noteq> [] then flat_file_line p flat_file story else memory_command p rig story)"

definition rig_memory_block :: "proposal_line list option \<Rightarrow> string \<Rightarrow> string \<Rightarrow> string \<Rightarrow> string" where
  "rig_memory_block found rig story flat_file =
     (case found of
        None \<Rightarrow> []
      | Some lines \<Rightarrow>
          join newline ((''For the rig memory ('' @ rig @ ''):'') #
            (if lines = [] then [''MALFORMED: the section is empty''] else map (block_line rig story flat_file) lines)))"

subsection \<open>Common errors\<close>

datatype common_error_line = ClassNamed string string | NoClass | NotRead string

text \<open>\<open>^([a-z0-9][a-z0-9-]*):\s*(.+)$\<close>, of a line with no white space at its end.\<close>

definition common_error_form :: "string \<Rightarrow> (string \<times> string) option" where
  "common_error_form s =
     (case slug_colon s of
        None \<Rightarrow> None
      | Some (slug, t) \<Rightarrow> if t = [] \<or> CHR 0x0A \<in> set t then None else Some (slug, t))"

definition answer_error_line :: "string \<Rightarrow> common_error_line option" where
  "answer_error_line raw =
     (let s = line_text raw
      in if s = [] then None
         else if says_nothing s then Some NoClass
         else (case common_error_form s of
                 Some (slug, t) \<Rightarrow> Some (ClassNamed slug (one_line t))
               | None \<Rightarrow> Some (NotRead (trim_space raw))))"

definition parse_common_errors :: "(nat \<Rightarrow> nat) \<Rightarrow> string \<Rightarrow> (section_panic, common_error_line list option) result" where
  "parse_common_errors lower comment =
     (case section_of lower CommonErrorsMarker RigMemoryMarker comment of
        Inl e \<Rightarrow> Inl e
      | Inr found \<Rightarrow> Inr (map_option (List.map_filter answer_error_line) found))"

definition UnknownKinds :: string where "UnknownKinds = ''<the kinds of rig it can occur in>''"

definition error_block_line :: "string \<Rightarrow> string \<Rightarrow> string list \<Rightarrow> string \<Rightarrow> common_error_line \<Rightarrow> string" where
  "error_block_line rig story known kinds l =
     (case l of
        NotRead raw \<Rightarrow> ''MALFORMED: '' @ raw
      | NoClass \<Rightarrow> ''nothing''
      | ClassNamed slug said \<Rightarrow>
          if List.member known slug then ''mw errors checked '' @ slug @ '' '' @ rig @ '' found:'' @ story
          else ''mw errors add '' @ slug @ '' --found '' @ rig @ '':'' @ story @ '' --kinds '' @ kinds @ '' --symptom '' @ shell_quoted said)"

definition common_errors_block ::
  "common_error_line list option \<Rightarrow> string \<Rightarrow> string \<Rightarrow> bool \<Rightarrow> string list \<Rightarrow> string list \<Rightarrow> string"
where
  "common_errors_block found rig story bug known rig_kinds =
     (let head = ''For common errors ('' @ rig @ ''):'';
          kinds = (if rig_kinds = [] then shell_quoted UnknownKinds else join '','' rig_kinds)
      in case found of
           None \<Rightarrow> if bug then head @ '' not given: a bug'' @ [CHR 0x27] @ ''s closing comment names the class of its fault, or says nothing'' else []
         | Some lines \<Rightarrow>
             join newline (head #
               (if lines = [] then [''MALFORMED: the section is empty'']
                else map (error_block_line rig story known kinds) lines)))"

subsection \<open>Texts put on one line\<close>

lemma str_fields_join: "list_all word ws \<Longrightarrow> str_fields (join '' '' ws) = ws"
proof (induction ws)
  case (Cons w ws)
  have "ascii_space CHR '' ''" by (simp add: ascii_space_def byte_def)
  with Cons show ?case by (cases "ws = []") (simp_all add: str_fields_word join_Cons str_fields_word_space)
qed simp

lemma one_line_idem [simp]: "one_line (one_line s) = one_line s"
proof -
  have "list_all word (str_fields s)" by (simp add: list_all_iff str_fields_word_mem)
  then show ?thesis by (simp add: one_line_def str_fields_join)
qed

subsection \<open>Proposals well formed\<close>

definition new_slug_ok :: "fact_proposal \<Rightarrow> bool" where
  "new_slug_ok p \<longleftrightarrow> fp_new_slug p = [] \<or> slug_word (fp_new_slug p)"

definition says_one_line :: "fact_proposal \<Rightarrow> bool" where
  "says_one_line p \<longleftrightarrow> fp_sentence p \<noteq> [] \<and> one_line (fp_sentence p) = fp_sentence p"

definition proposal_ok :: "fact_proposal \<Rightarrow> bool" where
  "proposal_ok p \<longleftrightarrow>
     (case fp_verb p of
        ProposeNothing \<Rightarrow> p = no_proposal
      | ProposeSupersede \<Rightarrow> fp_subject p = [] \<and> slug_word (fp_slug p) \<and> new_slug_ok p \<and> says_one_line p
      | ProposeRetire \<Rightarrow> fp_subject p = [] \<and> slug_word (fp_slug p) \<and> fp_new_slug p = [] \<and> says_one_line p
      | ProposeRecheck \<Rightarrow> fp_subject p = [] \<and> slug_word (fp_slug p) \<and> fp_new_slug p = [] \<and> says_one_line p
      | _ \<Rightarrow> fp_subject p \<noteq> [] \<and> fp_slug p = [] \<and> new_slug_ok p \<and> says_one_line p)"

lemmas proposal_ok_defs = proposal_ok_def says_one_line_def new_slug_ok_def

lemma command_fact_ok: "command_fact verb pos flags = Some p \<Longrightarrow> proposal_ok p"
  by (auto simp: command_fact_def added_fact_def named_fact_def proposal_ok_defs Let_def split: if_splits)

lemma parse_memory_command_ok: "parse_memory_command s = Some p \<Longrightarrow> proposal_ok p"
  by (auto simp: parse_memory_command_def command_fact_ok split: option.splits list.splits if_splits)

lemma after_verb_mem: "after_verb vs s = Some (v, r) \<Longrightarrow> v \<in> set vs"
  by (induction vs) (auto split: option.splits)

lemma subject_form_verb: "subject_form s = Some (v, subject, t) \<Longrightarrow> v = ProposeGotcha \<or> v = ProposeDecision"
  by (auto simp: subject_form_def dest!: after_verb_mem split: option.splits if_splits)

lemma slug_form_verb:
  "slug_form s = Some (v, slug, t) \<Longrightarrow> (v = ProposeSupersede \<or> v = ProposeRetire \<or> v = ProposeRecheck) \<and> slug_word slug"
  by (auto simp: slug_form_def slug_colon_def Let_def dest!: after_verb_mem split: option.splits if_splits)

lemma parsed_proposal_ok:
  assumes "parse_fact_proposal s = Some p"
  shows "proposal_ok p"
proof (cases "says_nothing s \<or> has_prefix s memory_command_prefix")
  case True
  then show ?thesis using assms parse_memory_command_ok
    by (auto simp: parse_fact_proposal_def proposal_ok_def no_proposal_def split: if_splits)
next
  case False
  show ?thesis
  proof (cases "subject_form s")
    case None
    with False assms show ?thesis
      by (auto simp: parse_fact_proposal_def proposal_ok_defs Let_def dest!: slug_form_verb split: option.splits if_splits)
  next
    case (Some form)
    obtain v subject t where form: "form = (v, subject, t)" by (cases form)
    have "v = ProposeGotcha \<or> v = ProposeDecision" using Some by (auto simp: form dest: subject_form_verb)
    with False assms Some show ?thesis
      by (auto simp: parse_fact_proposal_def proposal_ok_defs form Let_def split: if_splits)
  qed
qed

text \<open>A line of the section that is read as a proposal gives one that is well formed: the parts its
  verb takes are there and no others, a slug is a slug, and the sentence is on one line.\<close>

theorem parsed_proposal_well_formed: "parse_fact_proposal s = Some p \<Longrightarrow> proposal_ok p"
  by (rule parsed_proposal_ok)

theorem parsed_proposal_well_formed_witness:
  "proposal_ok \<lparr>fp_verb = ProposeGotcha, fp_subject = ''git'', fp_slug = [], fp_new_slug = [], fp_sentence = ''fetch first''\<rparr>"
  by (rule parsed_proposal_well_formed [of "''gotcha [git ]:  fetch   first''"]) code_simp

subsection \<open>The command read back\<close>

lemma has_dashes: "has_prefix (c # d # s) ''--'' \<longleftrightarrow> c = CHR ''-'' \<and> d = CHR ''-''" "\<not> has_prefix [c] ''--''" "\<not> has_prefix [] ''--''"
  by (simp_all add: has_prefix_def numeral_2_eq_2)

lemma read_word: "\<not> has_prefix w ''--'' \<Longrightarrow> read_flags known pos flags (w # rest) = read_flags known (pos @ [w]) flags rest"
  by simp

lemma read_flag:
  assumes "CHR ''='' \<notin> set name" "List.member known name"
  shows "read_flags known pos flags ((CHR ''-'' # CHR ''-'' # name) # v # rest) = read_flags known pos (flags(name \<mapsto> v)) rest"
proof -
  have "index_of name [CHR ''=''] = None"
    using assms(1) by (induction name) (auto simp: has_prefix_def)
  then have "cut name ''='' = (name, [], False)" by (simp add: cut_def)
  with assms(2) show ?thesis by (simp add: has_dashes trim_prefix_def numeral_2_eq_2)
qed

declare read_flags.simps(2) [simp del]

lemmas read_named_flag =
  read_flag [of "''kind''", simplified] read_flag [of "''subject''", simplified] read_flag [of "''source''", simplified]
  read_flag [of "''slug''", simplified] read_flag [of "''reason''", simplified] read_flag [of "''why''", simplified]

lemma safe_one:
  assumes "s \<noteq> []" "list_all (\<lambda>c. safe_rune (byte c)) s"
  shows "one_word s s"
proof -
  have "byte c < 0x80" if "safe_rune (byte c)" for c using that by (auto simp: safe_rune_def byte_def)
  then have "decode_runes s = map byte s" using assms(2)
    by (induction s) (simp_all add: decode_one decode_runes.simps [of "[]"])
  then show ?thesis using assms by (intro shell_safe_one) (simp add: shell_safe_def list_all_iff)
qed

lemma slug_one: "slug_word s \<Longrightarrow> one_word s s"
proof (rule safe_one)
  have "safe_rune (byte c)" if "slug_char c" for c
    using that by (auto simp: slug_char_def safe_rune_def is_lower_def is_digit_def)
  then show "slug_word s \<Longrightarrow> list_all (\<lambda>c. safe_rune (byte c)) s" by (auto simp: slug_word_def list_all_iff)
qed (simp add: slug_word_def)

lemma command_words_one:
  "one_word ''add'' ''add''" "one_word ''supersede'' ''supersede''" "one_word ''retire'' ''retire''"
  "one_word ''recheck'' ''recheck''" "one_word ''gotcha'' ''gotcha''" "one_word ''decision'' ''decision''"
  "one_word ''--kind'' ''--kind''" "one_word ''--subject'' ''--subject''" "one_word ''--slug'' ''--slug''"
  "one_word ''--source'' ''--source''" "one_word ''--reason'' ''--reason''" "one_word ''--why'' ''--why''"
  by (rule safe_one; code_simp)+

lemma slug_word_no_flag: "slug_word s \<Longrightarrow> \<not> has_prefix s ''--''"
  by (cases s) (auto simp: slug_word_def has_prefix_def numeral_2_eq_2)

lemma fold_case_low: "byte a < 0x80 \<Longrightarrow> hd (fold_case (a # v)) = lower_byte a"
proof (cases v)
  case (Cons b w)
  then show "byte a < 0x80 \<Longrightarrow> ?thesis" by (cases w) auto
qed simp

lemma command_not_nothing: "\<not> says_nothing (memory_command_prefix @ s)"
proof
  assume said: "says_nothing (memory_command_prefix @ s)"
  define u where "u = tl memory_command_prefix @ s"
  have u: "memory_command_prefix @ s = CHR ''m'' # u" by (simp add: memory_command_prefix_def u_def)
  have same: "fold_case (trim_set (CHR ''m'' # u) '' .*_`'') = fold_case ''nothing''"
    using said unfolding says_nothing_def equal_fold_def u .
  have "trim_set (CHR ''m'' # u) '' .*_`'' = CHR ''m'' # trim_right_set u '' .*_`''"
    by (simp add: trim_set_def trim_left_set_def trim_right_set_def dropWhile_append3)
  with same have "fold_case (CHR ''m'' # trim_right_set u '' .*_`'') = fold_case ''nothing''" by (rule subst [rotated])
  then have "hd (fold_case (CHR ''m'' # trim_right_set u '' .*_`'')) = hd (fold_case ''nothing'')" by (rule arg_cong)
  moreover have "hd (fold_case ''nothing'') = CHR ''n''" by code_simp
  moreover have "hd (fold_case (CHR ''m'' # v)) = CHR ''m''" for v
  proof -
    have m: "byte CHR ''m'' = 109" by (simp add: byte_def)
    show ?thesis by (subst fold_case_low) (simp_all add: m lower_byte_def is_upper_def)
  qed
  ultimately show False by simp
qed

text \<open>A command put together of words is read as those words are.\<close>

lemma command_read:
  assumes "list_all2 one_word toks (verb # ws)" "map_of memory_command_shape verb = Some (n, known)"
    "read_flags known [] Map.empty ws = Some (pos, flags)" "length pos = n"
  shows "parse_fact_proposal (''mw memory '' @ join '' '' toks) = command_fact verb pos flags"
proof -
  have "parse_fact_proposal (''mw memory '' @ join '' '' toks) = parse_memory_command (memory_command_prefix @ join '' '' toks)"
    using command_not_nothing [of "join '' '' toks"] has_prefix_append [of memory_command_prefix "join '' '' toks"]
    unfolding parse_fact_proposal_def memory_command_prefix_def by (simp only: if_False if_True)
  also have "\<dots> = command_fact verb pos flags"
    using shell_words_join [OF assms(1)] assms(2-4) by (simp add: parse_memory_command_def trim_prefix_def)
  finally show ?thesis .
qed

lemma added_reads_back:
  assumes p: "v = ProposeGotcha \<or> v = ProposeDecision" "subject \<noteq> []" "new_slug = [] \<or> slug_word new_slug" "sentence \<noteq> []"
    and lines: "one_line subject = subject" "one_line sentence = sentence" "\<not> has_prefix sentence ''--''"
    and utf8: "valid_utf8 subject" "valid_utf8 sentence"
    and rig: "shell_safe rig" "\<not> has_prefix rig ''--''" and story: "shell_safe story"
  defines "p \<equiv> \<lparr>fp_verb = v, fp_subject = subject, fp_slug = [], fp_new_slug = new_slug, fp_sentence = sentence\<rparr>"
  shows "parse_fact_proposal (memory_command p rig story) = Some p"
proof -
  define slugs where "slugs = (if new_slug = [] then [] else [''--slug'', new_slug])"
  define toks where "toks = [''add'', rig, ''--kind'', verb_word v, ''--subject'', shell_quoted subject] @ slugs @
    [''--source'', story, shell_quoted sentence]"
  define flags where "flags = ((Map.empty(''kind'' \<mapsto> verb_word v, ''subject'' \<mapsto> subject))(''source'' \<mapsto> story) :: string \<rightharpoonup> string)"
  define all_flags where "all_flags = (if new_slug = [] then flags else flags(''slug'' \<mapsto> new_slug))"
  have "one_word (verb_word v) (verb_word v)" using p(1) command_words_one by auto
  then have words: "list_all2 one_word toks (''add'' # [rig, ''--kind'', verb_word v, ''--subject'', subject] @ slugs @ [''--source'', story, sentence])"
    using p(3) utf8 rig(1) story by (auto simp: toks_def slugs_def command_words_one shell_safe_one shell_quoted_one slug_one)
  have shape: "map_of memory_command_shape ''add'' = Some (2, [''kind'', ''subject'', ''source'', ''slug''])"
    by (simp add: memory_command_shape_def)
  have flags: "read_flags [''kind'', ''subject'', ''source'', ''slug''] [] Map.empty
      ([rig, ''--kind'', verb_word v, ''--subject'', subject] @ slugs @ [''--source'', story, sentence]) = Some ([rig, sentence], all_flags)"
    using rig(2) lines(3) by (auto simp: slugs_def all_flags_def flags_def read_named_flag read_word)
  have fact: "command_fact ''add'' [rig, sentence] all_flags = Some p"
    using p lines(1,2) by (auto simp: command_fact_def added_fact_def all_flags_def flags_def flag_def p_def Let_def)
  have cmd: "memory_command p rig story = ''mw memory '' @ join '' '' toks"
    using p(1) by (auto simp: p_def memory_command_def slug_flag_def toks_def slugs_def)
  show ?thesis unfolding cmd by (subst command_read [OF words shape flags]) (simp_all add: fact)
qed

lemma superseded_reads_back:
  assumes p: "slug_word slug" "new_slug = [] \<or> slug_word new_slug" "sentence \<noteq> []"
    and lines: "one_line sentence = sentence" "\<not> has_prefix sentence ''--''" and utf8: "valid_utf8 sentence"
    and rig: "shell_safe rig" "\<not> has_prefix rig ''--''" and story: "shell_safe story"
  defines "p \<equiv> \<lparr>fp_verb = ProposeSupersede, fp_subject = [], fp_slug = slug, fp_new_slug = new_slug, fp_sentence = sentence\<rparr>"
  shows "parse_fact_proposal (memory_command p rig story) = Some p"
proof -
  define slugs where "slugs = (if new_slug = [] then [] else [''--slug'', new_slug])"
  define toks where "toks = [''supersede'', rig, slug] @ slugs @ [''--source'', story, shell_quoted sentence]"
  define flags where "flags = (Map.empty(''source'' \<mapsto> story) :: string \<rightharpoonup> string)"
  define all_flags where "all_flags = (if new_slug = [] then flags else flags(''slug'' \<mapsto> new_slug))"
  have words: "list_all2 one_word toks (''supersede'' # [rig, slug] @ slugs @ [''--source'', story, sentence])"
    using p utf8 rig(1) story by (auto simp: toks_def slugs_def command_words_one shell_safe_one shell_quoted_one slug_one)
  have shape: "map_of memory_command_shape ''supersede'' = Some (3, [''source'', ''slug''])"
    by (simp add: memory_command_shape_def)
  have flags: "read_flags [''source'', ''slug''] [] Map.empty ([rig, slug] @ slugs @ [''--source'', story, sentence]) =
      Some ([rig, slug, sentence], all_flags)"
    using rig(2) lines(2) slug_word_no_flag [OF p(1)] by (auto simp: slugs_def all_flags_def flags_def read_named_flag read_word)
  have fact: "command_fact ''supersede'' [rig, slug, sentence] all_flags = Some p"
    using p lines(1) by (auto simp: command_fact_def named_fact_def all_flags_def flags_def flag_def p_def Let_def)
  have cmd: "memory_command p rig story = ''mw memory '' @ join '' '' toks"
    by (auto simp: p_def memory_command_def slug_flag_def toks_def slugs_def)
  show ?thesis unfolding cmd by (subst command_read [OF words shape flags]) (simp_all add: fact)
qed

lemma retired_reads_back:
  assumes p: "slug_word slug" "sentence \<noteq> []" "one_line sentence = sentence" and utf8: "valid_utf8 sentence"
    and rig: "shell_safe rig" "\<not> has_prefix rig ''--''" and v: "v = ProposeRetire \<or> v = ProposeRecheck"
  defines "p \<equiv> \<lparr>fp_verb = v, fp_subject = [], fp_slug = slug, fp_new_slug = [], fp_sentence = sentence\<rparr>"
  shows "parse_fact_proposal (memory_command p rig story) = Some p"
proof -
  define name where "name = (if v = ProposeRetire then ''reason'' else ''why'')"
  define toks where "toks = [verb_word v, rig, slug, ''--'' @ name, shell_quoted sentence]"
  have "one_word (verb_word v) (verb_word v)" "one_word (''--'' @ name) (''--'' @ name)"
    using v command_words_one by (auto simp: name_def)
  then have words: "list_all2 one_word toks (verb_word v # [rig, slug, ''--'' @ name, sentence])"
    using p utf8 rig(1) by (simp add: toks_def shell_safe_one shell_quoted_one slug_one)
  have shape: "map_of memory_command_shape (verb_word v) = Some (2, [name])"
    using v by (auto simp: memory_command_shape_def name_def)
  have flags: "read_flags [name] [] Map.empty [rig, slug, ''--'' @ name, sentence] = Some ([rig, slug], [name \<mapsto> sentence])"
    using rig(2) slug_word_no_flag [OF p(1)] read_flag [of name "[name]" "[rig, slug]" Map.empty sentence "[]"]
    by (auto simp: name_def read_word)
  have fact: "command_fact (verb_word v) [rig, slug] [name \<mapsto> sentence] = Some p"
    using p v by (auto simp: command_fact_def named_fact_def flag_def p_def name_def Let_def)
  have cmd: "memory_command p rig story = ''mw memory '' @ join '' '' toks"
    using v by (auto simp: p_def memory_command_def toks_def name_def)
  show ?thesis unfolding cmd by (subst command_read [OF words shape flags]) (simp_all add: fact)
qed

text \<open>C13. A proposal read from a comment and printed as the \<^verbatim>\<open>mw memory\<close> line to paste reads back as the
  same proposal, whatever its words hold of quotes, spaces and letters, for a rig and a story that
  are plain words; but for a sentence that begins as a flag does, and a subject not on one line.\<close>

theorem proposal_pastes_back:
  assumes read: "parse_fact_proposal s = Some p" and utf8: "valid_utf8 (fp_subject p)" "valid_utf8 (fp_sentence p)"
    and subject: "one_line (fp_subject p) = fp_subject p"
    and sentence: "fp_verb p = ProposeRetire \<or> fp_verb p = ProposeRecheck \<or> \<not> has_prefix (fp_sentence p) ''--''"
    and rig: "shell_safe rig" "\<not> has_prefix rig ''--''" and story: "shell_safe story"
  shows "parse_fact_proposal (memory_command p rig story) = Some p"
proof -
  have ok: "proposal_ok p" by (rule parsed_proposal_ok [OF read])
  obtain v subject slug new_slug sentence where p: "p = \<lparr>fp_verb = v, fp_subject = subject, fp_slug = slug, fp_new_slug = new_slug, fp_sentence = sentence\<rparr>"
    by (cases p)
  show ?thesis
  proof (cases v)
    case ProposeNothing
    have "parse_fact_proposal ''nothing'' = Some no_proposal" by code_simp
    moreover have "p = no_proposal" using ok by (simp add: p ProposeNothing proposal_ok_def)
    moreover have "memory_command no_proposal rig story = ''nothing''" by (simp add: memory_command_def no_proposal_def)
    ultimately show ?thesis by (simp only:)
  next
    case ProposeSupersede
    with ok assms show ?thesis by (auto simp: p proposal_ok_defs intro!: superseded_reads_back)
  next
    case ProposeRetire
    with ok assms show ?thesis by (auto simp: p proposal_ok_defs intro!: retired_reads_back)
  next
    case ProposeRecheck
    with ok assms show ?thesis by (auto simp: p proposal_ok_defs intro!: retired_reads_back)
  next
    case ProposeGotcha
    with ok assms show ?thesis by (auto simp: p proposal_ok_defs intro!: added_reads_back)
  next
    case ProposeDecision
    with ok assms show ?thesis by (auto simp: p proposal_ok_defs intro!: added_reads_back)
  qed
qed

definition sample_proposal :: fact_proposal where
  "sample_proposal = \<lparr>fp_verb = ProposeGotcha, fp_subject = ''git'', fp_slug = [], fp_new_slug = [],
     fp_sentence = ''it'' @ [CHR 0x27] @ ''s $HOME that counts''\<rparr>"

theorem proposal_pastes_back_witness:
  "parse_fact_proposal (memory_command sample_proposal ''mill/one'' ''mw-1.2'') = Some sample_proposal"
  by (rule proposal_pastes_back [of "''gotcha [git ]:  it'' @ [CHR 0x27] @ ''s  $HOME that counts''"]) code_simp+

text \<open>A sentence that begins as a flag does is not read back from the line to paste.\<close>

lemma dashed_sentence_lost:
  defines "p \<equiv> \<lparr>fp_verb = ProposeGotcha, fp_subject = ''git'', fp_slug = [], fp_new_slug = [], fp_sentence = ''--force loses work''\<rparr>"
  shows "parse_fact_proposal ''gotcha [git]: --force loses work'' = Some p"
    "parse_fact_proposal (memory_command p ''r'' ''s'') = None"
proof -
  show "parse_fact_proposal ''gotcha [git]: --force loses work'' = Some p" unfolding p_def by code_simp
  define toks where "toks = [''add'', ''r'', ''--kind'', ''gotcha'', ''--subject'', shell_quoted ''git'', ''--source'', ''s'',
    shell_quoted ''--force loses work'']"
  have "valid_utf8 ''git''" "valid_utf8 ''--force loses work''" "shell_safe ''r''" "shell_safe ''s''" by code_simp+
  then have "list_all2 one_word toks (''add'' # [''r'', ''--kind'', ''gotcha'', ''--subject'', ''git'', ''--source'', ''s'', ''--force loses work''])"
    by (simp add: toks_def command_words_one shell_safe_one shell_quoted_one)
  from shell_words_join [OF this] have words: "shell_words (join '' '' toks) =
    Some (''add'' # [''r'', ''--kind'', ''gotcha'', ''--subject'', ''git'', ''--source'', ''s'', ''--force loses work''])" .
  have "memory_command p ''r'' ''s'' = memory_command_prefix @ join '' '' toks"
    by (simp add: p_def memory_command_def slug_flag_def toks_def memory_command_prefix_def)
  moreover have "read_flags [''kind'', ''subject'', ''source'', ''slug''] [] Map.empty
      [''r'', ''--kind'', ''gotcha'', ''--subject'', ''git'', ''--source'', ''s'', ''--force loses work''] = None"
    by code_simp
  ultimately show "parse_fact_proposal (memory_command p ''r'' ''s'') = None"
    using command_not_nothing [of "join '' '' toks"] words
    by (simp add: parse_fact_proposal_def parse_memory_command_def trim_prefix_def memory_command_shape_def)
qed

subsection \<open>Finding the section\<close>

lemma set_replace_all: "set (replace_all s old new) \<subseteq> set s \<union> set new"
proof (induction s old new rule: replace_all.induct)
  case (2 a s old new)
  have "set (drop (length old) (a # s)) \<subseteq> set (a # s)" by (rule set_drop_subset)
  with 2 show ?case by (auto split: if_splits)
qed simp

lemma ascii_lines: "list_all ascii comment \<Longrightarrow> list_all (list_all ascii) (comment_lines comment)"
proof -
  assume "list_all ascii comment"
  moreover have "ascii CHR 0x0A" by (simp add: ascii_def byte_def)
  ultimately have "list_all ascii (replace_all comment [CHR 0x0D, CHR 0x0A] [CHR 0x0A])"
    using set_replace_all [of comment "[CHR 0x0D, CHR 0x0A]" "[CHR 0x0A]"] by (auto simp: list_all_iff)
  then show ?thesis using set_split_on_sub unfolding comment_lines_def list_all_iff by blast
qed

lemma index_of_le: "index_of s sub = Some i \<Longrightarrow> i + length sub \<le> length s"
proof (induction s arbitrary: i)
  case (Cons a s)
  have "length sub \<le> length (a # s)" if "has_prefix (a # s) sub"
    using that by (metis has_prefix_def length_take min.cobounded1)
  with Cons show ?case by (auto split: if_splits)
qed (simp split: if_splits)

lemma ascii_heading:
  assumes "list_all ascii line" "list_all ascii marker"
  shows "after_heading lower marker line =
    Inr (map_option (\<lambda>at. drop (at + length marker) line) (index_of (map lower_byte line) (map lower_byte marker)))"
proof (cases "index_of (map lower_byte line) (map lower_byte marker)")
  case (Some at)
  then have "at + length marker \<le> length line" using index_of_le by fastforce
  with Some assms show ?thesis by (simp add: after_heading_def go_lower_def)
qed (use assms in \<open>simp add: after_heading_def go_lower_def\<close>)

lemma ascii_section:
  assumes "list_all (list_all ascii) lines" "list_all ascii marker"
  shows "\<exists>found. last_section lower marker lines = Inr found \<and>
    (found = None \<longleftrightarrow> (\<forall>line \<in> set lines. \<not> contains (map lower_byte line) (map lower_byte marker)))"
  using assms by (induction lines) (auto simp: ascii_heading contains_def split: option.splits)

lemma marker_ascii: "list_all ascii RigMemoryMarker" "list_all ascii CommonErrorsMarker"
  by code_simp+

text \<open>C15. A comment of ASCII text is read to its end, whatever it holds, and has a section exactly when
  one of its lines has the heading in some mixture of cases.\<close>

theorem ascii_comment_read:
  assumes "list_all ascii comment"
  shows "\<exists>found. parse_fact_proposals lower comment = Inr found \<and>
    (found = None \<longleftrightarrow>
       (\<forall>line \<in> set (comment_lines comment). \<not> contains (map lower_byte line) (map lower_byte RigMemoryMarker)))"
proof -
  obtain found where "last_section lower RigMemoryMarker (comment_lines comment) = Inr found"
    "found = None \<longleftrightarrow> (\<forall>line \<in> set (comment_lines comment). \<not> contains (map lower_byte line) (map lower_byte RigMemoryMarker))"
    using ascii_section [OF ascii_lines [OF assms] marker_ascii(1)] by blast
  then show ?thesis by (simp add: parse_fact_proposals_def section_of_def)
qed

theorem ascii_comment_read_witness:
  "\<exists>found. parse_fact_proposals id ''done. FOR THE rig memory: nothing'' = Inr found \<and>
    (found = None \<longleftrightarrow> (\<forall>line \<in> set (comment_lines ''done. FOR THE rig memory: nothing'').
       \<not> contains (map lower_byte line) (map lower_byte RigMemoryMarker)))"
  by (rule ascii_comment_read) code_simp

text \<open>
  The heading is found in the lowered line and cut out of the line as written.  A letter that takes
  more bytes in lower case, and a byte that is no rune at all, moves the one against the other:
  before a heading at the end of its line, the cut is past the end.
\<close>

lemma grown_line_panics:
  assumes "\<And>c. ascii c \<Longrightarrow> lower (byte c) = byte (lower_byte c)" "lower 0xFFFD = 0xFFFD"
  shows "after_heading lower RigMemoryMarker (CHR 0xFF # RigMemoryMarker) = Inl (PastLine (CHR 0xFF # RigMemoryMarker))"
proof -
  define m where "m = map lower_byte RigMemoryMarker"
  have m: "m = ''for the rig memory:''" unfolding m_def by code_simp
  have "map lower (map byte RigMemoryMarker) = map byte m"
    using assms(1) marker_ascii(1) by (simp add: m_def list_all_iff)
  moreover have "decode_runes (CHR 0xFF # RigMemoryMarker) = 0xFFFD # map byte RigMemoryMarker"
    using decode_runes_ascii [of RigMemoryMarker] marker_ascii(1) unfolding ascii_def
    by (subst decode_runes.simps) (simp add: byte_def Let_def)
  moreover have "encode_rune 0xFFFD = [char_of (239 :: nat), char_of (191 :: nat), char_of (189 :: nat)]"
    by (simp add: encode_rune_def)
  moreover have "list_all ascii m" unfolding m by code_simp
  moreover have "\<not> ascii CHR 0xFF" by (simp add: ascii_def byte_def)
  ultimately have "go_lower lower (CHR 0xFF # RigMemoryMarker) = [char_of (239 :: nat), char_of (191 :: nat), char_of (189 :: nat)] @ m"
    using assms(2) encode_ascii [of m] by (simp add: go_lower_def encode_runes_def)
  moreover have "go_lower lower RigMemoryMarker = m" using marker_ascii(1) by (simp add: go_lower_def m_def)
  moreover have "\<not> has_prefix (char_of n # s) m" if "n \<in> {239, 191, 189 :: nat}" for n s
  proof
    assume "has_prefix (char_of n # s) m"
    then have "char_of n = CHR ''f''" by (simp add: m has_prefix_iff)
    then have "byte (char_of n) = 102" by (simp add: byte_def)
    with that show False by (auto simp: byte_def)
  qed
  moreover have "index_of m m = Some 0" by (simp add: m has_prefix_def)
  ultimately show ?thesis by (simp add: after_heading_def RigMemoryMarker_def)
qed

end
