(* ===== verification/Toc.thy ===== *)
theory Toc
  imports GoLower GoNumbers
begin

text \<open>
  \<^verbatim>\<open>domain/toc.go\<close>: the table of contents of a document.  A line inside a fence of code is no
  heading and no marker.  \<^verbatim>\<open>unicode.ToLower\<close> is the parameter \<open>lower\<close>, and whether a rune is
  a letter, a number or a mark the parameter \<open>kept\<close>.
\<close>

subsection \<open>Lines and fences\<close>

definition TocOpen :: string where "TocOpen = ''<!-- toc -->''"
definition TocClose :: string where "TocClose = ''<!-- /toc -->''"
definition TocNone :: string where "TocNone = ''<!-- toc: none -->''"
definition TocMinHeadings :: int where "TocMinHeadings = 4"

record doc_line =
  dl_text :: string
  dl_fence :: bool

definition fence_run :: "string \<Rightarrow> nat \<times> char" where
  "fence_run line =
     (let trimmed = dropWhile (\<lambda>c. c = CHR '' '') line
      in if 3 < length line - length trimmed \<or> trimmed = [] \<or> (hd trimmed \<noteq> CHR 0x60 \<and> hd trimmed \<noteq> CHR 0x7E)
         then (0, CHR 0x00)
         else (length (takeWhile (\<lambda>c. c = hd trimmed) trimmed), hd trimmed))"

text \<open>The fence open after a line, by its character and width, and whether the line is in one.\<close>

definition fence_step :: "(char \<times> nat) option \<Rightarrow> string \<Rightarrow> (char \<times> nat) option \<times> bool" where
  "fence_step marker line =
     (case fence_run line of
        (run, c) \<Rightarrow>
          (case marker of
             None \<Rightarrow> if 3 \<le> run then (Some (c, run), True) else (None, False)
           | Some (m, width) \<Rightarrow>
               (if c = m \<and> width \<le> run \<and> drop run (trim_space line) = [] then None else marker, True)))"

fun doc_lines_from :: "(char \<times> nat) option \<Rightarrow> string list \<Rightarrow> doc_line list" where
  "doc_lines_from marker [] = []"
| "doc_lines_from marker (part # parts) =
     (let line = trim_right_set part [CHR 0x0D]
      in case fence_step marker line of
           (marker', fence) \<Rightarrow> \<lparr>dl_text = line, dl_fence = fence\<rparr> # doc_lines_from marker' parts)"

definition doc_lines :: "string \<Rightarrow> doc_line list" where
  "doc_lines doc = doc_lines_from None (split_on CHR 0x0A doc)"

subsection \<open>Headings\<close>

text \<open>Of a title, the closing run of \<open>#\<close> taken off.\<close>

definition unclosed :: "string \<Rightarrow> string" where
  "unclosed title =
     (let closed = trim_right_set title ''#''
      in if closed \<noteq> title \<and> (closed = [] \<or> has_suffix closed '' '') then trim_space closed else title)"

definition heading_of :: "string \<Rightarrow> (nat \<times> string) option" where
  "heading_of line =
     (let level = (if has_prefix line ''### '' then 3 else if has_prefix line ''## '' then 2 else 0);
          title = unclosed (trim_space (drop (level + 1) line))
      in if level = 0 \<or> title = [] then None else Some (level, title))"

text \<open>\<open>unicode.IsSpace\<close>.\<close>

definition rune_space :: "nat \<Rightarrow> bool" where
  "rune_space r \<longleftrightarrow>
     9 \<le> r \<and> r \<le> 13 \<or> r = 0x20 \<or> r = 0x85 \<or> r = 0xA0 \<or> r = 0x1680 \<or> 0x2000 \<le> r \<and> r \<le> 0x200A \<or>
     r = 0x2028 \<or> r = 0x2029 \<or> r = 0x202F \<or> r = 0x205F \<or> r = 0x3000"

definition anchor_rune :: "(nat \<Rightarrow> bool) \<Rightarrow> nat \<Rightarrow> string" where
  "anchor_rune kept r =
     (if rune_space r then ''-'' else if kept r \<or> r = 0x5F \<or> r = 0x2D then encode_rune r else [])"

definition toc_anchor :: "(nat \<Rightarrow> nat) \<Rightarrow> (nat \<Rightarrow> bool) \<Rightarrow> string \<Rightarrow> string" where
  "toc_anchor lower kept title = concat (map (anchor_rune kept) (decode_runes (go_lower lower (trim_space title))))"

record heading =
  h_level :: nat
  h_title :: string
  h_anchor :: string

text \<open>The first of \<open>base-n\<close> on from a number that is not taken, and its number.\<close>

definition numbered :: "string \<Rightarrow> nat \<Rightarrow> string" where
  "numbered base n = base @ ''-'' @ nat_str n"

lemma numbered_inj: "numbered base m = numbered base n \<longleftrightarrow> m = n"
  using digits_val_nat_str by (metis append_same_eq numbered_def same_append_eq)

lemma finite_numbered: "finite {k. numbered base k \<in> set taken}"
proof -
  have "finite (numbered base -` set taken)"
    by (rule finite_vimageI) (auto simp: inj_def numbered_inj)
  then show ?thesis by (simp add: vimage_def)
qed

function free_from :: "string list \<Rightarrow> string \<Rightarrow> nat \<Rightarrow> string \<times> nat" where
  "free_from taken base n =
     (if numbered base (n + 1) \<in> set taken then free_from taken base (n + 1) else (numbered base (n + 1), n + 1))"
  by pat_completeness auto
termination
proof (relation "measure (\<lambda>(taken, base, n). card {k. n < k \<and> numbered base k \<in> set taken})")
  fix taken base n
  assume "numbered base (n + 1) \<in> set taken"
  then have "{k. n + 1 < k \<and> numbered base k \<in> set taken} \<subset> {k. n < k \<and> numbered base k \<in> set taken}" by force
  moreover have "finite {k. n < k \<and> numbered base k \<in> set taken}"
    by (rule finite_subset [OF _ finite_numbered [of base taken]]) auto
  ultimately show "((taken, base, n + 1), (taken, base, n)) \<in> measure (\<lambda>(taken, base, n). card {k. n < k \<and> numbered base k \<in> set taken})"
    by (simp add: psubset_card_mono)
qed simp

declare free_from.simps [simp del]

definition next_anchor :: "string list \<Rightarrow> (string \<Rightarrow> nat) \<Rightarrow> string \<Rightarrow> string \<times> nat" where
  "next_anchor taken repeats base =
     (if base \<in> set taken then free_from taken base (repeats base) else (base, repeats base))"

text \<open>The headings of lines, with the anchors taken and how often each was repeated.\<close>

fun anchored :: "(nat \<Rightarrow> nat) \<Rightarrow> (nat \<Rightarrow> bool) \<Rightarrow> string list \<Rightarrow> (string \<Rightarrow> nat) \<Rightarrow> (nat \<times> string) list \<Rightarrow> heading list" where
  "anchored lower kept taken repeats [] = []"
| "anchored lower kept taken repeats ((level, title) # hs) =
     (let base = toc_anchor lower kept title
      in case next_anchor taken repeats base of
           (anchor, n) \<Rightarrow>
             \<lparr>h_level = level, h_title = title, h_anchor = anchor\<rparr> #
             anchored lower kept (anchor # taken) (repeats(base := n)) hs)"

definition line_heading :: "doc_line \<Rightarrow> (nat \<times> string) option" where
  "line_heading l = (if dl_fence l then None else heading_of (dl_text l))"

definition headings :: "(nat \<Rightarrow> nat) \<Rightarrow> (nat \<Rightarrow> bool) \<Rightarrow> string \<Rightarrow> heading list" where
  "headings lower kept doc = anchored lower kept [] (\<lambda>_. 0) (List.map_filter line_heading (doc_lines doc))"

subsection \<open>The table\<close>

definition toc_item :: "heading \<Rightarrow> string" where
  "toc_item h = (if h_level h = 3 then ''  '' else []) @ ''- ['' @ h_title h @ ''](#'' @ h_anchor h @ '')''"

definition render_toc :: "heading list \<Rightarrow> string" where
  "render_toc hs = concat (map (\<lambda>h. toc_item h @ newline) hs)"

definition toc_block :: "heading list \<Rightarrow> string" where
  "toc_block hs = TocOpen @ newline @ newline @ render_toc hs @ newline @ TocClose"

text \<open>The lines of the markers, an opening one and a closing one after it, from line \<open>i\<close> on.\<close>

fun span_from :: "nat \<Rightarrow> nat option \<Rightarrow> doc_line list \<Rightarrow> (nat \<times> nat) option" where
  "span_from i opened [] = None"
| "span_from i opened (l # ls) =
     (if dl_fence l then span_from (i + 1) opened ls
      else if trim_space (dl_text l) = TocOpen then span_from (i + 1) (case opened of None \<Rightarrow> Some i | Some a \<Rightarrow> Some a) ls
      else if trim_space (dl_text l) = TocClose
      then (case opened of None \<Rightarrow> span_from (i + 1) None ls | Some a \<Rightarrow> Some (a, i))
      else span_from (i + 1) opened ls)"

definition toc_span :: "doc_line list \<Rightarrow> (nat \<times> nat) option" where
  "toc_span ls = span_from 0 None ls"

definition opt_out_line :: "doc_line \<Rightarrow> bool" where
  "opt_out_line l \<longleftrightarrow> \<not> dl_fence l \<and> trim_space (dl_text l) = TocNone"

definition toc_opted_out :: "string \<Rightarrow> bool" where
  "toc_opted_out doc \<longleftrightarrow> list_ex opt_out_line (doc_lines doc)"

definition toc_wants :: "(nat \<Rightarrow> nat) \<Rightarrow> (nat \<Rightarrow> bool) \<Rightarrow> string \<Rightarrow> int \<Rightarrow> bool" where
  "toc_wants lower kept doc least \<longleftrightarrow>
     \<not> toc_opted_out doc \<and> least \<le> int (length (filter (\<lambda>h. h_level h = 2) (headings lower kept doc)))"

text \<open>Lines with the block put before the first heading of level 2, where there is one.\<close>

definition level_two :: "doc_line \<Rightarrow> bool" where
  "level_two l \<longleftrightarrow> (case line_heading l of None \<Rightarrow> False | Some (level, _) \<Rightarrow> level = 2)"

definition apply_toc :: "(nat \<Rightarrow> nat) \<Rightarrow> (nat \<Rightarrow> bool) \<Rightarrow> string \<Rightarrow> int \<Rightarrow> string" where
  "apply_toc lower kept doc least =
     (if toc_opted_out doc then doc
      else let lines = doc_lines doc; raw = split_on CHR 0x0A doc;
               block = split_on CHR 0x0A (toc_block (headings lower kept doc))
           in (case toc_span lines of
                 Some (a, b) \<Rightarrow> join newline (take a raw @ block @ drop (b + 1) raw)
               | None \<Rightarrow>
                   if \<not> toc_wants lower kept doc least then doc
                   else (let i = length (takeWhile (\<lambda>l. \<not> level_two l) lines)
                         in if i = length lines then doc
                            else join newline (take i raw @
                                   (if 0 < i \<and> trim_space (raw ! (i - 1)) \<noteq> [] then [[]] else []) @
                                   block @ [[]] @ drop i raw))))"

definition toc_current :: "(nat \<Rightarrow> nat) \<Rightarrow> (nat \<Rightarrow> bool) \<Rightarrow> string \<Rightarrow> bool" where
  "toc_current lower kept doc \<longleftrightarrow> toc_span (doc_lines doc) \<noteq> None \<and> apply_toc lower kept doc 0 = doc"

datatype toc_state = TocFine | TocStale | TocMissing

definition toc_state_of :: "(nat \<Rightarrow> nat) \<Rightarrow> (nat \<Rightarrow> bool) \<Rightarrow> string \<Rightarrow> int \<Rightarrow> toc_state" where
  "toc_state_of lower kept doc least =
     (if toc_opted_out doc then TocFine
      else if toc_span (doc_lines doc) \<noteq> None
      then (if toc_current lower kept doc then TocFine else TocStale)
      else if toc_wants lower kept doc least then TocMissing
      else TocFine)"

subsection \<open>Anchors are distinct\<close>





subsection \<open>Lines put together\<close>

definition text_line :: "string \<Rightarrow> string" where
  "text_line part = trim_right_set part [CHR 0x0D]"

definition fence_after :: "(char \<times> nat) option \<Rightarrow> string list \<Rightarrow> (char \<times> nat) option" where
  "fence_after = foldl (\<lambda>m part. fst (fence_step m (text_line part)))"

lemma fence_after_simps [simp]:
  "fence_after m [] = m" "fence_after m (p # ps) = fence_after (fst (fence_step m (text_line p))) ps"
  by (simp_all add: fence_after_def)

lemma fence_after_append [simp]: "fence_after m (a @ b) = fence_after (fence_after m a) b"
  by (simp add: fence_after_def)

lemma doc_lines_from_Cons:
  "doc_lines_from m (p # ps) =
     \<lparr>dl_text = text_line p, dl_fence = snd (fence_step m (text_line p))\<rparr> # doc_lines_from (fst (fence_step m (text_line p))) ps"
  by (simp add: text_line_def Let_def split: prod.splits)

declare doc_lines_from.simps(2) [simp del]
declare doc_lines_from_Cons [simp]

lemma doc_lines_from_append: "doc_lines_from m (a @ b) = doc_lines_from m a @ doc_lines_from (fence_after m a) b"
  by (induction a arbitrary: m) simp_all

lemma length_lines_from [simp]: "length (doc_lines_from m ps) = length ps"
  by (induction ps arbitrary: m) simp_all

lemma doc_lines_from_take: "take n (doc_lines_from m ps) = doc_lines_from m (take n ps)"
  by (induction ps arbitrary: m n) (simp_all add: take_Cons split: nat.splits)

lemma doc_lines_from_drop: "drop n (doc_lines_from m ps) = doc_lines_from (fence_after m (take n ps)) (drop n ps)"
  by (induction ps arbitrary: m n) (simp_all add: drop_Cons take_Cons split: nat.splits)

text \<open>A line outside a fence has no fence open before it or after it.\<close>

lemma outside_step: "\<not> snd (fence_step m line) \<Longrightarrow> m = None \<and> fst (fence_step m line) = None"
  by (auto simp: fence_step_def split: option.splits prod.splits if_splits)

lemma outside_line:
  assumes "doc_lines_from None ps = A @ l # B" "\<not> dl_fence l"
  shows "fence_after None (take (length A) ps) = None" "fence_after None (take (Suc (length A)) ps) = None"
proof -
  have "length A < length ps" using arg_cong [OF assms(1), of length] by simp
  then have drop: "drop (length A) ps = ps ! length A # drop (Suc (length A)) ps" by (simp add: Cons_nth_drop_Suc)
  have "doc_lines_from (fence_after None (take (length A) ps)) (drop (length A) ps) = l # B"
    using doc_lines_from_drop [of "length A" None ps] assms(1) by simp
  then have "\<not> snd (fence_step (fence_after None (take (length A) ps)) (text_line (ps ! length A)))"
    using assms(2) unfolding drop by auto
  note outside = outside_step [OF this]
  note before = conjunct1 [OF outside] and after = conjunct2 [OF outside]
  show "fence_after None (take (length A) ps) = None" by (rule before)
  show "fence_after None (take (Suc (length A)) ps) = None"
    using before after by (simp add: take_Suc_conv_app_nth [OF \<open>length A < length ps\<close>])
qed

subsection \<open>Markers\<close>

definition opens :: "doc_line \<Rightarrow> bool" where
  "opens l \<longleftrightarrow> \<not> dl_fence l \<and> trim_space (dl_text l) = TocOpen"

definition closes :: "doc_line \<Rightarrow> bool" where
  "closes l \<longleftrightarrow> \<not> dl_fence l \<and> trim_space (dl_text l) = TocClose"

lemma open_not_close: "opens l \<Longrightarrow> \<not> closes l"
  by (simp add: opens_def closes_def TocOpen_def TocClose_def)

lemma span_from_step:
  "span_from i opened (l # ls) =
     (if opens l then span_from (i + 1) (case opened of None \<Rightarrow> Some i | Some a \<Rightarrow> Some a) ls
      else if closes l then (case opened of None \<Rightarrow> span_from (i + 1) None ls | Some a \<Rightarrow> Some (a, i))
      else span_from (i + 1) opened ls)"
  by (simp add: opens_def closes_def)

declare span_from.simps(2) [simp del]
declare span_from_step [simp]

lemma span_opened:
  "span_from i (Some a) ls = Some (c, b) \<Longrightarrow>
     c = a \<and> (\<exists>M y B. ls = M @ y # B \<and> closes y \<and> list_all (\<lambda>l. \<not> closes l) M \<and> b = i + length M)"
proof (induction ls arbitrary: i)
  case (Cons l ls)
  show ?case
  proof (cases "closes l")
    case True
    then have "\<not> opens l" using open_not_close by blast
    with True Cons.prems show ?thesis by (auto intro!: exI [of _ "[]"])
  next
    case False
    with Cons.prems have "span_from (i + 1) (Some a) ls = Some (c, b)" by (auto split: if_splits)
    from Cons.IH [OF this] obtain M y B where "c = a" "ls = M @ y # B" "closes y" "list_all (\<lambda>l. \<not> closes l) M" "b = i + 1 + length M"
      by auto
    with False show ?thesis by (auto intro!: exI [of _ "l # M"])
  qed
qed simp

lemma span_opened_at: "list_all (\<lambda>l. \<not> closes l) M \<Longrightarrow> closes y \<Longrightarrow> span_from i (Some a) (M @ y # B) = Some (a, i + length M)"
  using open_not_close by (induction M arbitrary: i) auto

lemma span_found:
  "span_from i None ls = Some (a, b) \<Longrightarrow>
     \<exists>A x M y B. ls = A @ x # M @ y # B \<and> list_all (\<lambda>l. \<not> opens l) A \<and> opens x \<and> closes y \<and> a = i + length A \<and> b = a + 1 + length M"
proof (induction ls arbitrary: i)
  case (Cons l ls)
  show ?case
  proof (cases "opens l")
    case True
    with Cons.prems have "span_from (i + 1) (Some i) ls = Some (a, b)" by simp
    from span_opened [OF this] obtain M y B where
      "a = i" "ls = M @ y # B" "closes y" "b = i + 1 + length M" by auto
    with True have "l # ls = [] @ l # M @ y # B \<and> list_all (\<lambda>l. \<not> opens l) [] \<and> opens l \<and> closes y \<and>
        a = i + length ([] :: doc_line list) \<and> b = a + 1 + length M" by simp
    then show ?thesis by blast
  next
    case False
    with Cons.prems have "span_from (i + 1) None ls = Some (a, b)" by (auto split: if_splits)
    from Cons.IH [OF this] obtain A x M y B where
      "ls = A @ x # M @ y # B" "list_all (\<lambda>l. \<not> opens l) A" "opens x" "closes y" "a = i + 1 + length A" "b = a + 1 + length M" by blast
    with False have "l # ls = (l # A) @ x # M @ y # B \<and> list_all (\<lambda>l. \<not> opens l) (l # A) \<and> opens x \<and> closes y \<and>
        a = i + length (l # A) \<and> b = a + 1 + length M" by simp
    then show ?thesis by blast
  qed
qed simp

lemma span_at:
  assumes "list_all (\<lambda>l. \<not> opens l) A" "opens x" "list_all (\<lambda>l. \<not> closes l) M" "closes y"
  shows "span_from i None (A @ x # M @ y # B) = Some (i + length A, i + length A + 1 + length M)"
  using assms(1)
proof (induction A arbitrary: i)
  case Nil
  then show ?case using span_opened_at [OF assms(3,4)] assms(2) by simp
qed auto

subsection \<open>The lines of the block\<close>

lemma set_trim_space: "set (trim_space s) \<subseteq> set s"
proof -
  have "set (trim_left_space t) \<subseteq> set t" for t using trim_left_space_suffix [of t] by (metis Un_upper2 set_append)
  moreover have "set (trim_right_space t) \<subseteq> set t" for t using trim_right_space_prefix [of t] by (metis Un_upper1 set_append)
  ultimately show ?thesis unfolding trim_space_def by (meson subset_trans)
qed

lemma set_trim_right_set: "set (trim_right_set s cs) \<subseteq> set s"
  using set_dropWhileD [of _ "\<lambda>c. c \<in> set cs" "rev s"] by (auto simp: trim_right_set_def)

lemma heading_title_chars:
  assumes "heading_of line = Some (level, title)"
  shows "set title \<subseteq> set line"
proof -
  have "set (unclosed t) \<subseteq> set t" for t
    using set_trim_space [of "trim_right_set t ''#''"] set_trim_right_set [of t "''#''"] by (auto simp: unclosed_def Let_def)
  moreover obtain n where "title = unclosed (trim_space (drop n line))"
    using assms by (auto simp: heading_of_def Let_def split: if_splits)
  ultimately show ?thesis using set_trim_space [of "drop n line"] set_drop_subset [of n line] by blast
qed

lemma byte_of_code: "byte (char_of (n :: nat)) = n mod 256"
  by (simp add: byte_def)

lemma encode_rune_no_newline:
  assumes "r \<noteq> 10"
  shows "CHR 0x0A \<notin> set (encode_rune r)"
proof -
  have "byte c \<noteq> 10" if "c \<in> set (encode_rune r)" for c
  proof (cases "r < 0x80")
    case True
    with that assms show ?thesis by (auto simp: encode_rune_def byte_of_code)
  next
    case False
    have "r div 64 < 32" if "r < 0x800" using that by simp
    moreover have "r div 4096 < 16" if "r < 0x10000" using that by simp
    moreover have "r div 262144 < 5" if "r \<le> 0x10FFFF" using that by (simp add: div_less_iff_less_mult)
    moreover have "r mod 64 < 64" "r div 64 mod 64 < 64" "r div 4096 mod 64 < 64" by simp_all
    ultimately show ?thesis using that False
      by (auto simp: encode_rune_def Let_def byte_of_code split: if_splits)
  qed
  moreover have "byte CHR 0x0A = 10" by (simp add: byte_def)
  ultimately show ?thesis by fastforce
qed

lemma anchor_no_newline: "CHR 0x0A \<notin> set (toc_anchor lower kept title)"
proof -
  have "CHR 0x0A \<notin> set (anchor_rune kept r)" for r
    using encode_rune_no_newline [of r] by (auto simp: anchor_rune_def rune_space_def)
  then show ?thesis by (auto simp: toc_anchor_def)
qed

lemma numbered_no_newline: "CHR 0x0A \<notin> set base \<Longrightarrow> CHR 0x0A \<notin> set (numbered base n)"
  using nat_str_digits [of n] by (auto simp: numbered_def list_all_iff is_digit_def byte_def)

lemma free_from_numbered: "\<exists>k. fst (free_from taken base n) = numbered base k"
  by (induction taken base n rule: free_from.induct) (subst free_from.simps, auto)

lemma anchored_levels:
  "list_all (\<lambda>(level, title). level \<noteq> n) hs \<Longrightarrow> filter (\<lambda>h. h_level h = n) (anchored lower kept taken repeats hs) = []"
  by (induction hs arbitrary: taken repeats) (auto simp: Let_def split: prod.splits)

definition one_line_heading :: "heading \<Rightarrow> bool" where
  "one_line_heading h \<longleftrightarrow> CHR 0x0A \<notin> set (h_title h) \<and> CHR 0x0A \<notin> set (h_anchor h)"

lemma anchored_one_line:
  "list_all (\<lambda>(level, title). CHR 0x0A \<notin> set title) hs \<Longrightarrow> list_all one_line_heading (anchored lower kept taken repeats hs)"
proof (induction hs arbitrary: taken repeats)
  case (Cons h hs)
  obtain level title where h: "h = (level, title)" by (cases h)
  define base where "base = toc_anchor lower kept title"
  obtain a n where a: "next_anchor taken repeats base = (a, n)" by (cases "next_anchor taken repeats base")
  have "a = base \<or> (\<exists>k. a = numbered base k)"
    using a free_from_numbered [of taken base "repeats base"] by (auto simp: next_anchor_def split: if_splits)
  moreover have "CHR 0x0A \<notin> set base" unfolding base_def by (rule anchor_no_newline)
  ultimately have "CHR 0x0A \<notin> set a" using numbered_no_newline by blast
  then show ?case using Cons by (simp add: h a base_def [symmetric] one_line_heading_def)
qed simp

definition item_text :: "heading \<Rightarrow> string" where
  "item_text h = ''- ['' @ h_title h @ ''](#'' @ h_anchor h @ '')''"

lemma toc_item_text: "toc_item h = (if h_level h = 3 then ''  '' else []) @ item_text h"
  by (simp add: toc_item_def item_text_def)

lemma item_no_newline: "one_line_heading h \<Longrightarrow> CHR 0x0A \<notin> set (toc_item h)"
  by (auto simp: toc_item_def one_line_heading_def)

lemma split_render:
  "list_all one_line_heading hs \<Longrightarrow> split_on CHR 0x0A (render_toc hs @ rest) = map toc_item hs @ split_on CHR 0x0A rest"
proof (induction hs)
  case (Cons h hs)
  then show ?case using split_on_append [OF item_no_newline, of h "render_toc hs @ rest"]
    by (simp add: render_toc_def newline_def)
qed (simp add: render_toc_def)

definition block_lines :: "heading list \<Rightarrow> string list" where
  "block_lines hs = TocOpen # [] # map toc_item hs @ [[], TocClose]"

lemma split_block: "list_all one_line_heading hs \<Longrightarrow> split_on CHR 0x0A (toc_block hs) = block_lines hs"
proof -
  assume hs: "list_all one_line_heading hs"
  have "CHR 0x0A \<notin> set TocOpen" "CHR 0x0A \<notin> set TocClose" by (simp_all add: TocOpen_def TocClose_def)
  then show ?thesis using split_render [OF hs, of "newline @ TocClose"]
    by (simp add: toc_block_def newline_def block_lines_def split_on_append split_on_absent)
qed

text \<open>A line that is no fence, no heading and no marker.\<close>

definition quiet_line :: "doc_line \<Rightarrow> bool" where
  "quiet_line l \<longleftrightarrow> \<not> dl_fence l \<and> heading_of (dl_text l) = None \<and> trim_space (dl_text l) \<notin> {TocOpen, TocClose, TocNone}"

definition quiet :: "string \<Rightarrow> bool" where
  "quiet part \<longleftrightarrow> fence_step None (text_line part) = (None, False) \<and> heading_of (text_line part) = None \<and>
     trim_space (text_line part) \<notin> {TocOpen, TocClose, TocNone}"

lemma quiet_lines: "list_all quiet ps \<Longrightarrow> fence_after None ps = None \<and> list_all quiet_line (doc_lines_from None ps)"
  by (induction ps) (simp_all add: quiet_def quiet_line_def)

lemma quiet_line_not:
  assumes "quiet_line l"
  shows "\<not> opens l" "\<not> closes l" "\<not> opt_out_line l" "line_heading l = None"
  using assms by (auto simp: quiet_line_def opens_def closes_def opt_out_line_def line_heading_def)

lemma trim_blank: "trim_space (CHR '' '' # s) = trim_space s"
  by (rule trim_space_ascii) (simp add: ascii_space_def byte_def)

lemma item_text_trimmed: "trim_space (item_text h) = item_text h"
  by (rule trim_space_plain) (simp_all add: item_text_def plain_def ascii_space_def byte_def)

lemma text_line_last: "c \<noteq> CHR 0x0D \<Longrightarrow> text_line (s @ [c]) = s @ [c]"
  by (simp add: text_line_def trim_right_set_def)

lemma text_line_item: "text_line (toc_item h) = toc_item h"
  using text_line_last [of "CHR '')''" "(if h_level h = 3 then ''  '' else []) @ ''- ['' @ h_title h @ ''](#'' @ h_anchor h"]
  by (simp add: toc_item_def)

lemma quiet_item: "quiet (toc_item h)"
proof -
  obtain t where t: "item_text h = CHR ''-'' # t" by (simp add: item_text_def)
  have "fence_step None (toc_item h) = (None, False)"
    by (simp add: fence_step_def fence_run_def toc_item_text t Let_def)
  moreover have "heading_of (toc_item h) = None"
    by (simp add: heading_of_def toc_item_text t has_prefix_def Let_def numeral_eq_Suc)
  moreover have "trim_space (toc_item h) = CHR ''-'' # t"
    using item_text_trimmed [of h] by (simp add: toc_item_text t trim_blank)
  ultimately show ?thesis by (simp add: quiet_def text_line_item TocOpen_def TocClose_def TocNone_def)
qed

lemma quiet_blank: "quiet []"
  by (simp add: quiet_def text_line_def trim_right_set_def fence_step_def fence_run_def heading_of_def has_prefix_def
      TocOpen_def TocClose_def TocNone_def)

definition marker_line :: "string \<Rightarrow> doc_line" where
  "marker_line s = \<lparr>dl_text = s, dl_fence = False\<rparr>"

lemma marker_facts:
  "fence_step None TocOpen = (None, False)" "text_line TocOpen = TocOpen"
  "fence_step None TocClose = (None, False)" "text_line TocClose = TocClose"
  "opens (marker_line TocOpen)" "closes (marker_line TocClose)"
  "line_heading (marker_line TocOpen) = None" "line_heading (marker_line TocClose) = None"
  "\<not> opt_out_line (marker_line TocOpen)" "\<not> opt_out_line (marker_line TocClose)"
  by code_simp+

lemma block_lines_from:
  assumes "list_all one_line_heading hs"
  obtains M where
    "\<And>rest. doc_lines_from None (block_lines hs @ rest) = marker_line TocOpen # M @ marker_line TocClose # doc_lines_from None rest"
    "list_all quiet_line M" "length M = length hs + 2"
proof -
  define inner where "inner = [] # map toc_item hs @ [[]]"
  have "list_all quiet inner" using quiet_blank quiet_item by (simp add: inner_def list_all_iff)
  note quiet = quiet_lines [OF this]
  have "doc_lines_from None (block_lines hs @ rest) =
      marker_line TocOpen # doc_lines_from None inner @ marker_line TocClose # doc_lines_from None rest" for rest
  proof -
    have "block_lines hs @ rest = TocOpen # inner @ TocClose # rest" by (simp add: block_lines_def inner_def)
    then show ?thesis using quiet doc_lines_from_append [of None inner "TocClose # rest"]
      by (simp add: marker_facts(1-4) marker_line_def)
  qed
  moreover have "list_all quiet_line (doc_lines_from None inner)" using quiet by blast
  moreover have "length (doc_lines_from None inner) = length hs + 2" by (simp add: inner_def)
  ultimately show thesis by (rule that)
qed

lemma trimmed_head:
  assumes "trim_space (c # s) = d # t" "plain c"
  shows "d = c"
proof -
  have "trim_left_space (c # s) = c # s" using assms(2) by (simp add: space_len_plain)
  then have "trim_right_space (c # s) = d # t" using assms(1) by (simp add: trim_space_def)
  with trim_right_space_prefix [of "c # s"] show ?thesis by auto
qed

lemma marker_no_heading: "opens l \<or> closes l \<Longrightarrow> line_heading l = None"
proof -
  assume marker: "opens l \<or> closes l"
  have hash: "plain CHR ''#''" by (simp add: plain_def ascii_space_def byte_def)
  have "\<not> has_prefix (dl_text l) (CHR ''#'' # p)" for p
  proof
    assume "has_prefix (dl_text l) (CHR ''#'' # p)"
    then obtain u where u: "dl_text l = CHR ''#'' # u" by (auto simp: has_prefix_iff)
    obtain t where "trim_space (dl_text l) = CHR ''<'' # t"
      using marker by (auto simp: opens_def closes_def TocOpen_def TocClose_def)
    then have "CHR ''<'' = CHR ''#''" using trimmed_head [OF _ hash] unfolding u by blast
    then show False by simp
  qed
  then show ?thesis by (simp add: line_heading_def heading_of_def)
qed

subsection \<open>A document with its table in it\<close>

lemma titles_one_line:
  "\<forall>p \<in> set ps. CHR 0x0A \<notin> set p \<Longrightarrow>
     list_all (\<lambda>(level, title). CHR 0x0A \<notin> set title) (List.map_filter line_heading (doc_lines_from m ps))"
proof (induction ps arbitrary: m)
  case (Cons p ps)
  have "CHR 0x0A \<notin> set title" if "heading_of (text_line p) = Some (level, title)" for level title
    using heading_title_chars [OF that] set_trim_right_set [of p "[CHR 0x0D]"] Cons.prems by (auto simp: text_line_def)
  with Cons show ?case by (auto simp: map_filter_simps line_heading_def split: option.splits)
qed (simp add: map_filter_simps)

lemma map_filter_append: "List.map_filter f (a @ b) = List.map_filter f a @ List.map_filter f b"
  by (simp add: List.map_filter_def)

lemma map_filter_none: "list_all (\<lambda>x. f x = None) xs \<Longrightarrow> List.map_filter f xs = []"
  by (induction xs) (simp_all add: map_filter_simps)

lemma table_settled:
  assumes A: "fence_after None A = None" "list_all (\<lambda>l. \<not> opens l) (doc_lines_from None A)"
    and nl: "\<forall>p \<in> set A \<union> set B. CHR 0x0A \<notin> set p"
    and opt: "\<not> list_ex opt_out_line (doc_lines_from None A)" "\<not> list_ex opt_out_line (doc_lines_from None B)"
    and hs: "hs = anchored lower kept [] (\<lambda>_. 0)
      (List.map_filter line_heading (doc_lines_from None A) @ List.map_filter line_heading (doc_lines_from None B))"
  defines "doc \<equiv> join newline (A @ block_lines hs @ B)"
  shows "apply_toc lower kept doc least = doc" "toc_state_of lower kept doc least = TocFine"
proof -
  have one: "list_all one_line_heading hs"
    unfolding hs using nl titles_one_line [of A None] titles_one_line [of B None] by (intro anchored_one_line) simp
  obtain M where M: "\<And>rest. doc_lines_from None (block_lines hs @ rest) = marker_line TocOpen # M @ marker_line TocClose # doc_lines_from None rest"
    "list_all quiet_line M" "length M = length hs + 2" by (rule block_lines_from [OF one]) blast
  have "CHR 0x0A \<notin> set p" if "p \<in> set (block_lines hs)" for p
    using that split_on_no_sep unfolding split_block [OF one, symmetric] by blast
  then have raw: "split_on CHR 0x0A doc = A @ block_lines hs @ B"
    unfolding doc_def newline_def using nl by (intro split_on_join) (auto simp: block_lines_def)
  have lines: "doc_lines doc = doc_lines_from None A @ marker_line TocOpen # M @ marker_line TocClose # doc_lines_from None B"
    using doc_lines_from_append [of None A "block_lines hs @ B"] by (simp add: doc_lines_def raw A(1) M(1))
  have "list_all (\<lambda>l. \<not> closes l) M" "list_all (\<lambda>l. line_heading l = None) M" "\<not> list_ex opt_out_line M"
    using M(2) quiet_line_not by (auto simp: list_all_iff list_ex_iff)
  note quiet = this
  have span: "toc_span (doc_lines doc) = Some (length A, length A + 1 + length M)"
    unfolding toc_span_def lines using span_at [OF A(2) marker_facts(5) quiet(1) marker_facts(6), of 0] by simp
  have all: "headings lower kept doc = hs"
    unfolding headings_def lines using map_filter_none [OF quiet(2)] hs marker_facts(7,8)
    by (simp add: map_filter_append map_filter_simps)
  have out: "\<not> toc_opted_out doc"
    unfolding toc_opted_out_def lines using opt quiet(3) marker_facts(9,10) by simp
  show settled: "apply_toc lower kept doc least = doc" for least
  proof -
    have "length (block_lines hs) = length M + 2" by (simp add: block_lines_def M(3))
    then have "drop (length A + 1 + length M + 1) (A @ block_lines hs @ B) = B" by simp
    then show ?thesis using out
      unfolding apply_toc_def Let_def raw span all split_block [OF one] by (simp add: doc_def)
  qed
  show "toc_state_of lower kept doc least = TocFine"
    using out span settled [of 0] by (simp add: toc_state_of_def toc_current_def)
qed

text \<open>
  Where the markers must stand: no heading between them, for the table lists it and then takes its
  place; and when there are not both, no opening one alone, for the table's closing one ends it.
\<close>

definition toc_well_placed :: "string \<Rightarrow> bool" where
  "toc_well_placed doc \<longleftrightarrow>
     (case toc_span (doc_lines doc) of
        Some (a, b) \<Rightarrow> list_all (\<lambda>l. line_heading l = None) (drop (a + 1) (take b (doc_lines doc)))
      | None \<Rightarrow> \<not> list_ex opens (doc_lines doc))"

lemma part_no_newline: "\<forall>p \<in> set (take i (split_on c s)) \<union> set (drop j (split_on c s)). c \<notin> set p"
  using split_on_no_sep by (metis Un_iff in_set_dropD in_set_takeD)

lemma opt_out_parts: "\<not> list_ex opt_out_line (P @ Q) \<Longrightarrow> \<not> list_ex opt_out_line P \<and> \<not> list_ex opt_out_line Q"
  by simp

lemma replaced_table_settled:
  assumes "toc_well_placed doc" "\<not> toc_opted_out doc" "toc_span (doc_lines doc) = Some (a, b)"
  shows "apply_toc lower kept (apply_toc lower kept doc least) n = apply_toc lower kept doc least"
    "toc_state_of lower kept (apply_toc lower kept doc least) n = TocFine"
proof -
  define raw where "raw = split_on CHR 0x0A doc"
  obtain A x M y B where lines: "doc_lines_from None raw = A @ x # M @ y # B"
    and open_close: "list_all (\<lambda>l. \<not> opens l) A" "opens x" "closes y" and ab: "a = length A" "b = a + 1 + length M"
    using span_found [of 0 "doc_lines doc" a b] assms(3) by (auto simp: toc_span_def doc_lines_def raw_def)
  have quiet: "list_all (\<lambda>l. line_heading l = None) M"
    using assms(1,3) lines by (simp add: toc_well_placed_def doc_lines_def raw_def [symmetric] ab)
  have A: "doc_lines_from None (take a raw) = A" using doc_lines_from_take [of a None raw] by (simp add: lines ab)
  have "fence_after None (take a raw) = None"
    using outside_line(1) [OF lines] open_close(2) by (simp add: ab opens_def)
  moreover have "fence_after None (take (b + 1) raw) = None"
    using outside_line(2) [of raw "A @ x # M" y B] lines open_close(3) by (simp add: ab closes_def)
  then have B: "doc_lines_from None (drop (b + 1) raw) = B"
    using doc_lines_from_drop [of "b + 1" None raw] by (simp add: lines ab)
  define hs where "hs = headings lower kept doc"
  have hs: "hs = anchored lower kept [] (\<lambda>_. 0) (List.map_filter line_heading (doc_lines_from None (take a raw)) @
      List.map_filter line_heading (doc_lines_from None (drop (b + 1) raw)))"
    unfolding hs_def headings_def doc_lines_def raw_def [symmetric] A B lines
    using map_filter_none [OF quiet] marker_no_heading open_close by (simp add: map_filter_append map_filter_simps)
  have one: "list_all one_line_heading hs"
    unfolding hs_def headings_def doc_lines_def
    by (intro anchored_one_line titles_one_line ballI) (rule split_on_no_sep)
  have "\<not> list_ex opt_out_line A" "\<not> list_ex opt_out_line B"
    using assms(2) by (simp_all add: toc_opted_out_def doc_lines_def raw_def [symmetric] lines)
  then have opt: "\<not> list_ex opt_out_line (doc_lines_from None (take a raw))" "\<not> list_ex opt_out_line (doc_lines_from None (drop (b + 1) raw))"
    by (simp_all only: A B not_False_eq_True)
  have "apply_toc lower kept doc least = join newline (take a raw @ block_lines hs @ drop (b + 1) raw)"
    using assms(2,3) split_block [OF one] by (simp add: apply_toc_def Let_def raw_def hs_def)
  moreover have "list_all (\<lambda>l. \<not> opens l) (doc_lines_from None (take a raw))" using open_close(1) by (simp add: A)
  ultimately show "apply_toc lower kept (apply_toc lower kept doc least) n = apply_toc lower kept doc least"
    "toc_state_of lower kept (apply_toc lower kept doc least) n = TocFine"
    using table_settled [OF \<open>fence_after None (take a raw) = None\<close> _ part_no_newline [of a "CHR 0x0A" doc "b + 1", folded raw_def] opt hs] by simp_all
qed

lemma level_two_heading: "level_two l \<Longrightarrow> \<not> dl_fence l"
  by (auto simp: level_two_def line_heading_def split: if_splits)

lemma inserted_table_settled:
  assumes "toc_well_placed doc" "\<not> toc_opted_out doc" "toc_span (doc_lines doc) = None" "toc_wants lower kept doc least"
    and i: "i = length (takeWhile (\<lambda>l. \<not> level_two l) (doc_lines doc))" "i < length (doc_lines doc)"
  shows "apply_toc lower kept (apply_toc lower kept doc least) n = apply_toc lower kept doc least"
    "toc_state_of lower kept (apply_toc lower kept doc least) n = TocFine"
proof -
  define raw where "raw = split_on CHR 0x0A doc"
  define gap where "gap = (if 0 < i \<and> trim_space (raw ! (i - 1)) \<noteq> [] then [[]] else [] :: string list)"
  define A where "A = take i raw @ gap"
  define B where "B = [] # drop i raw"
  have doc: "doc_lines doc = doc_lines_from None raw" by (simp add: doc_lines_def raw_def)
  have "doc_lines doc = take i (doc_lines doc) @ doc_lines doc ! i # drop (Suc i) (doc_lines doc)"
    using i(2) by (rule id_take_nth_drop)
  moreover have "\<not> dl_fence (doc_lines doc ! i)"
    using nth_length_takeWhile [of "\<lambda>l. \<not> level_two l" "doc_lines doc"] i level_two_heading by simp
  ultimately have "fence_after None (take (length (take i (doc_lines doc))) raw) = None"
    by (intro outside_line(1)) (simp_all add: doc)
  then have before: "fence_after None (take i raw) = None" using i(2) by (simp add: min_def)
  note blank = quiet_blank [unfolded quiet_def]
  have gap: "fence_after None gap = None" "list_all quiet_line (doc_lines_from None gap)"
    using quiet_lines [of gap] quiet_blank by (auto simp: gap_def)
  have lA: "doc_lines_from None A = doc_lines_from None (take i raw) @ doc_lines_from None gap"
    by (simp add: A_def doc_lines_from_append before)
  obtain l where lB: "doc_lines_from None B = l # doc_lines_from None (drop i raw)" "quiet_line l"
    using quiet_lines [of "[[]]"] quiet_blank blank by (simp add: B_def)
  have all: "doc_lines doc = doc_lines_from None (take i raw) @ doc_lines_from None (drop i raw)"
    using doc_lines_from_append [of None "take i raw" "drop i raw"] before by (simp add: doc)
  define hs where "hs = headings lower kept doc"
  have "list_all (\<lambda>l. line_heading l = None) (doc_lines_from None gap)" "line_heading l = None"
    using gap(2) lB(2) quiet_line_not by (auto simp: list_all_iff)
  then have hs: "hs = anchored lower kept [] (\<lambda>_. 0)
      (List.map_filter line_heading (doc_lines_from None A) @ List.map_filter line_heading (doc_lines_from None B))"
    unfolding hs_def headings_def all lA lB(1) by (simp add: map_filter_append map_filter_simps map_filter_none)
  have one: "list_all one_line_heading hs"
    unfolding hs_def headings_def doc_lines_def
    by (intro anchored_one_line titles_one_line ballI) (rule split_on_no_sep)
  have "\<not> list_ex opens (doc_lines doc)" using assms(1,3) by (simp add: toc_well_placed_def)
  then have "list_all (\<lambda>l. \<not> opens l) (doc_lines_from None A)"
    using gap(2) quiet_line_not unfolding all lA by (auto simp: list_all_iff list_ex_iff)
  moreover have "\<forall>p \<in> set A \<union> set B. CHR 0x0A \<notin> set p"
    using part_no_newline [of i "CHR 0x0A" doc i] by (auto simp: A_def B_def gap_def raw_def)
  moreover have "\<not> list_ex opt_out_line (doc_lines_from None A)" "\<not> list_ex opt_out_line (doc_lines_from None B)"
    using assms(2) gap(2) lB quiet_line_not unfolding toc_opted_out_def all lA by (auto simp: list_all_iff list_ex_iff)
  moreover have "fence_after None A = None" by (simp add: A_def before gap)
  moreover have "apply_toc lower kept doc least = join newline (A @ block_lines hs @ B)"
    using assms(2,3,4) i split_block [OF one]
    by (simp add: apply_toc_def Let_def raw_def [symmetric] hs_def A_def B_def gap_def)
  ultimately show "apply_toc lower kept (apply_toc lower kept doc least) n = apply_toc lower kept doc least"
    "toc_state_of lower kept (apply_toc lower kept doc least) n = TocFine"
    using table_settled [OF _ _ _ _ _ hs] by simp_all
qed

lemma no_level_two:
  "list_all (\<lambda>l. \<not> level_two l) ls \<Longrightarrow> list_all (\<lambda>(level, title). level \<noteq> 2) (List.map_filter line_heading ls)"
  by (induction ls) (auto simp: map_filter_simps level_two_def split: option.splits)

text \<open>C17. A table of contents written into a document whose markers stand well is current: the document
  is then as it should be, and writing the table again changes nothing.\<close>

theorem applied_table_is_current:
  assumes "toc_well_placed doc" "0 < least"
  shows "apply_toc lower kept (apply_toc lower kept doc least) least = apply_toc lower kept doc least \<and>
    toc_state_of lower kept (apply_toc lower kept doc least) least = TocFine"
proof (cases "toc_opted_out doc")
  case True
  then show ?thesis by (simp add: apply_toc_def toc_state_of_def)
next
  case False
  show ?thesis
  proof (cases "toc_span (doc_lines doc)")
    case (Some ab)
    then show ?thesis using replaced_table_settled [OF assms(1) False] by (cases ab) simp
  next
    case None
    define i where "i = length (takeWhile (\<lambda>l. \<not> level_two l) (doc_lines doc))"
    show ?thesis
    proof (cases "toc_wants lower kept doc least")
      case no: False
      then have "apply_toc lower kept doc least = doc" using False None by (simp add: apply_toc_def Let_def)
      with no False None show ?thesis by (simp add: toc_state_of_def)
    next
      case True
      have "i < length (doc_lines doc)"
      proof (rule ccontr)
        assume "\<not> i < length (doc_lines doc)"
        then have "takeWhile (\<lambda>l. \<not> level_two l) (doc_lines doc) = doc_lines doc"
          unfolding i_def by (metis length_takeWhile_le nat_less_le takeWhile_eq_take take_all)
        then have "list_all (\<lambda>l. \<not> level_two l) (doc_lines doc)" by (metis list_all_iff takeWhile_eq_all_conv)
        then have "list_all (\<lambda>(level, title). level \<noteq> 2) (List.map_filter line_heading (doc_lines doc))"
          by (rule no_level_two)
        then have "filter (\<lambda>h. h_level h = 2) (headings lower kept doc) = []"
          by (simp add: headings_def anchored_levels)
        then show False using True assms(2) by (simp add: toc_wants_def)
      qed
      with inserted_table_settled [OF assms(1) False None True i_def] show ?thesis by simp
    qed
  qed
qed

definition sample_doc :: string where
  "sample_doc = ''# T'' @ [CHR 0x0A] @ ''## A'' @ [CHR 0x0A] @ ''text''"

theorem applied_table_is_current_witness:
  "apply_toc id (\<lambda>_. True) (apply_toc id (\<lambda>_. True) sample_doc 1) 1 = apply_toc id (\<lambda>_. True) sample_doc 1 \<and>
    toc_state_of id (\<lambda>_. True) (apply_toc id (\<lambda>_. True) sample_doc 1) 1 = TocFine"
  by (rule applied_table_is_current) code_simp+

subsection \<open>Markers that stand badly\<close>

lemma anchor_of_A: "toc_anchor id (\<lambda>_. True) ''A'' = ''a''"
proof -
  have "decode_runes (go_lower id (trim_space ''A'')) = [97]" by code_simp
  moreover have "\<not> rune_space 97" by (simp add: rune_space_def)
  moreover have "encode_rune 97 = ''a''"
    using char_of_byte [of "CHR ''a''"] by (simp add: encode_rune_def byte_def)
  ultimately show ?thesis by (simp add: toc_anchor_def anchor_rune_def)
qed

lemma headings_A:
  "List.map_filter line_heading (doc_lines doc) = [(2, ''A'')] \<Longrightarrow>
     headings id (\<lambda>_. True) doc = [\<lparr>h_level = 2, h_title = ''A'', h_anchor = ''a''\<rparr>]"
  by (simp add: headings_def anchor_of_A next_anchor_def)

definition apply_with :: "heading list \<Rightarrow> string \<Rightarrow> int \<Rightarrow> string" where
  "apply_with hs doc least =
     (if toc_opted_out doc then doc
      else let lines = doc_lines doc; raw = split_on CHR 0x0A doc; block = split_on CHR 0x0A (toc_block hs);
               i = length (takeWhile (\<lambda>l. \<not> level_two l) lines)
           in (case toc_span lines of
                 Some (a, b) \<Rightarrow> join newline (take a raw @ block @ drop (b + 1) raw)
               | None \<Rightarrow>
                   if int (length (filter (\<lambda>h. h_level h = 2) hs)) < least \<or> i = length lines then doc
                   else join newline (take i raw @ (if 0 < i \<and> trim_space (raw ! (i - 1)) \<noteq> [] then [[]] else []) @
                          block @ [[]] @ drop i raw)))"

lemma apply_toc_with: "apply_toc lower kept doc least = apply_with (headings lower kept doc) doc least"
  by (simp add: apply_toc_def apply_with_def toc_wants_def Let_def not_le split: option.splits)

text \<open>A heading between the markers is listed by the table that takes its place, and gone from the next.\<close>

definition heading_inside :: string where
  "heading_inside = join newline [TocOpen, ''## A'', TocClose]"

definition heading_inside_once :: string where
  "heading_inside_once = join newline [TocOpen, [], ''- [A](#a)'', [], TocClose]"

lemma heading_between_markers_lost:
  "apply_toc id (\<lambda>_. True) heading_inside 1 = heading_inside_once"
  "apply_toc id (\<lambda>_. True) heading_inside_once 1 = join newline [TocOpen, [], [], TocClose]"
proof -
  have "List.map_filter line_heading (doc_lines heading_inside) = [(2, ''A'')]" by code_simp
  note found = headings_A [OF this]
  show "apply_toc id (\<lambda>_. True) heading_inside 1 = heading_inside_once"
    unfolding apply_toc_with found by code_simp
  have "List.map_filter line_heading (doc_lines heading_inside_once) = []" by code_simp
  then have none: "headings id (\<lambda>_. True) heading_inside_once = []" by (simp add: headings_def)
  show "apply_toc id (\<lambda>_. True) heading_inside_once 1 = join newline [TocOpen, [], [], TocClose]"
    unfolding apply_toc_with none by code_simp
qed

text \<open>An opening marker alone, above the first heading, ends at the new table's closing one: the text between goes.\<close>

definition opened_alone :: string where
  "opened_alone = join newline [TocOpen, ''text'', ''## A'']"

definition opened_alone_once :: string where
  "opened_alone_once =
     join newline [TocOpen, ''text'', [], TocOpen, [], ''- [A](#a)'', [], TocClose, [], ''## A'']"

lemma text_after_lone_marker_lost:
  "apply_toc id (\<lambda>_. True) opened_alone 1 = opened_alone_once"
  "apply_toc id (\<lambda>_. True) opened_alone_once 1 = join newline [TocOpen, [], ''- [A](#a)'', [], TocClose, [], ''## A'']"
proof -
  have "List.map_filter line_heading (doc_lines opened_alone) = [(2, ''A'')]" by code_simp
  note found = headings_A [OF this]
  show "apply_toc id (\<lambda>_. True) opened_alone 1 = opened_alone_once"
    unfolding apply_toc_with found by code_simp
  have "List.map_filter line_heading (doc_lines opened_alone_once) = [(2, ''A'')]" by code_simp
  note found = headings_A [OF this]
  show "apply_toc id (\<lambda>_. True) opened_alone_once 1 =
      join newline [TocOpen, [], ''- [A](#a)'', [], TocClose, [], ''## A'']"
    unfolding apply_toc_with found by code_simp
qed

end
