(* ===== verification/Versions.thy ===== *)
theory Versions
  imports GoNumbers
begin

text \<open>
  The versions of \<^verbatim>\<open>domain/version.go\<close>: raising the patch or the minor of a plain
  X.Y.Z version, and which of two is below the other.  A part past the range of a Go
  \<open>int\<close> is read as the largest there is.
\<close>

datatype version_error =
    NotPlain string
  | PartTooLarge string

definition plain_version :: "string \<Rightarrow> (string \<times> string \<times> string) option" where
  "plain_version v =
     (case split_on (CHR ''.'') v of
        [a, b, c] \<Rightarrow> if all_digits a \<and> all_digits b \<and> all_digits c then Some (a, b, c) else None
      | _ \<Rightarrow> None)"

definition next_patch :: "string \<Rightarrow> (version_error, string) result" where
  "next_patch version =
     (case plain_version version of
        None \<Rightarrow> Inl (NotPlain version)
      | Some (a, b, c) \<Rightarrow>
          (case num_ok (atoi c) of
             None \<Rightarrow> Inl (PartTooLarge version)
           | Some patch \<Rightarrow> Inr (a @ ''.'' @ b @ ''.'' @ itoa (int_wrap (patch + 1)))))"

definition next_minor :: "string \<Rightarrow> (version_error, string) result" where
  "next_minor version =
     (case plain_version version of
        None \<Rightarrow> Inl (NotPlain version)
      | Some (a, b, c) \<Rightarrow>
          (case num_ok (atoi b) of
             None \<Rightarrow> Inl (PartTooLarge version)
           | Some minor \<Rightarrow> Inr (a @ ''.'' @ itoa (int_wrap (minor + 1)) @ ''.0'')))"

text \<open>The loop of \<open>VersionBelow\<close> over the parts of the two.\<close>

fun parts_below :: "string list \<Rightarrow> string list \<Rightarrow> bool" where
  "parts_below (x # xs) (y # ys) =
     (let p = num_value (atoi x); q = num_value (atoi y)
      in if p \<noteq> q then p < q else parts_below xs ys)"
| "parts_below _ _ = False"

definition version_below :: "string \<Rightarrow> string \<Rightarrow> bool" where
  "version_below a b =
     (case (plain_version a, plain_version b) of
        (Some (x1, x2, x3), Some (y1, y2, y3)) \<Rightarrow> parts_below [x1, x2, x3] [y1, y2, y3]
      | _ \<Rightarrow> False)"

subsection \<open>The order of versions\<close>

text \<open>The three numbers a plain version compares by.\<close>

definition version_key :: "string \<Rightarrow> (int \<times> int \<times> int) option" where
  "version_key v =
     map_option (\<lambda>(a, b, c). (num_value (atoi a), num_value (atoi b), num_value (atoi c)))
       (plain_version v)"

definition key_less :: "int \<times> int \<times> int \<Rightarrow> int \<times> int \<times> int \<Rightarrow> bool" where
  "key_less x y \<longleftrightarrow>
     (case (x, y) of ((a, b, c), (a', b', c')) \<Rightarrow>
        a < a' \<or> a = a' \<and> (b < b' \<or> b = b' \<and> c < c'))"

lemma version_below_key:
  "version_below v w \<longleftrightarrow>
     (case (version_key v, version_key w) of (Some x, Some y) \<Rightarrow> key_less x y | _ \<Rightarrow> False)"
  by (auto simp: version_below_def version_key_def key_less_def Let_def
      split: option.splits prod.splits)

lemma plain_version_parts:
  assumes "all_digits a" "all_digits b" "all_digits c"
  shows "plain_version (a @ ''.'' @ b @ ''.'' @ c) = Some (a, b, c)"
proof -
  have "CHR ''.'' \<notin> set d" if "all_digits d" for d
    using that by (auto simp: all_digits_def list_all_iff is_digit_def byte_def)
  then show ?thesis
    using assms by (simp add: plain_version_def split_on_append split_on_absent)
qed

lemma plain_version_Some:
  assumes "plain_version v = Some (a, b, c)"
  shows "all_digits a" "all_digits b" "all_digits c" "v = a @ ''.'' @ b @ ''.'' @ c"
proof -
  have s: "split_on (CHR ''.'') v = [a, b, c]" and "all_digits a \<and> all_digits b \<and> all_digits c"
    using assms by (auto simp: plain_version_def split: list.splits if_splits)
  then show "all_digits a" "all_digits b" "all_digits c" by auto
  show "v = a @ ''.'' @ b @ ''.'' @ c" using join_split_on [of "CHR ''.''" v] by (simp add: s)
qed

lemma itoa_next:
  assumes "0 \<le> n" "n < int_max"
  shows "itoa (int_wrap (n + 1)) = nat_str (nat n + 1)" "atoi (nat_str (nat n + 1)) = NumOk (n + 1)"
proof -
  have "int_wrap (n + 1) = n + 1" using assms by (intro int_wrap_id) (auto simp: int_min_def)
  moreover have "nat (n + 1) = nat n + 1" using assms(1) by simp
  ultimately show "itoa (int_wrap (n + 1)) = nat_str (nat n + 1)" using assms(1) by (simp add: itoa_def)
  show "atoi (nat_str (nat n + 1)) = NumOk (n + 1)"
    using atoi_nat_str [of "nat n + 1"] assms by simp
qed



text \<open>The next patch of a plain version whose patch is not the largest number there is
  stands right above it: it is plain, the version is below it, and no plain version whose
  numbers are in range is above the one and below the other.\<close>

theorem next_patch_right_above:
  assumes "version_key v = Some (a, b, n)" and "n < int_max"
  shows "\<exists>w. next_patch v = Inr w \<and> version_key w = Some (a, b, n + 1) \<and> version_below v w \<and>
     (\<nexists>u. version_below v u \<and> version_below u w)"
proof -
  obtain x y z where p: "plain_version v = Some (x, y, z)"
    and k: "a = num_value (atoi x)" "b = num_value (atoi y)" "n = num_value (atoi z)"
    using assms(1) by (auto simp: version_key_def)
  note parts = plain_version_Some [OF p]
  have z: "atoi z = NumOk n" "0 \<le> n"
    using atoi_all_digits [OF parts(3)] k(3) assms(2) by (auto split: if_splits)
  define w where "w = x @ ''.'' @ y @ ''.'' @ nat_str (nat n + 1)"
  have "next_patch v = Inr w"
    using itoa_next [OF z(2) assms(2)] by (simp add: next_patch_def p z(1) w_def)
  moreover have "plain_version w = Some (x, y, nat_str (nat n + 1))"
    unfolding w_def using parts by (intro plain_version_parts) simp_all
  then have w: "version_key w = Some (a, b, n + 1)"
    using itoa_next(2) [OF z(2) assms(2)] by (simp add: version_key_def k)
  moreover have "version_below v w" by (simp add: version_below_key assms(1) w key_less_def)
  moreover have "\<not> (version_below v u \<and> version_below u w)" for u
    by (auto simp: version_below_key assms(1) w key_less_def split: option.splits)
  ultimately show ?thesis by blast
qed

lemma next_patch_right_above_witness:
  "\<exists>w. next_patch ''1.2.3'' = Inr w \<and> version_below ''1.2.3'' w"
proof -
  have "version_key ''1.2.3'' = Some (1, 2, 3)" by code_simp
  from next_patch_right_above [OF this] show ?thesis by (auto simp: int_max_def)
qed

text \<open>
  Raising the largest patch there is wraps round instead of being refused as too large: what
  comes back is no version at all.
\<close>

lemma next_patch_wraps:
  "next_patch ''1.2.9223372036854775807'' = Inr ''1.2.-9223372036854775808'' \<and>
   plain_version ''1.2.-9223372036854775808'' = None"
proof -
  have "all_digits ''1'' \<and> all_digits ''2'' \<and> all_digits ''9223372036854775807''" by code_simp
  then have p: "plain_version ''1.2.9223372036854775807'' = Some (''1'', ''2'', ''9223372036854775807'')"
    using plain_version_parts [of "''1''" "''2''" "''9223372036854775807''"] by simp
  have "digits_val ''9223372036854775807'' = 9223372036854775807"
    by (simp add: digits_val_def digit_val_def byte_def)
  then have "atoi ''9223372036854775807'' = NumOk int_max"
    by (simp add: atoi_def Let_def all_digits_def is_digit_def byte_def int_max_def int_min_def)
  moreover have "int_wrap (int_max + 1) = - 9223372036854775808"
    by (simp add: int_wrap_def int_max_def)
  moreover have "itoa (- 9223372036854775808) = ''-9223372036854775808''"
    by (simp add: itoa_def nat_str.simps digit_chars digit_chars(2) [unfolded One_nat_def])
  ultimately have "next_patch ''1.2.9223372036854775807'' = Inr ''1.2.-9223372036854775808''"
    by (simp add: next_patch_def p)
  moreover have "plain_version ''1.2.-9223372036854775808'' = None" by code_simp
  ultimately show ?thesis by simp
qed

end
