(* ===== verification/Spec2Isabelle.thy ===== *)
theory Spec2Isabelle
  imports Ansi Acceptance BeadGraph Cards ConfigSet EventStore ShipRun Changelog EpicRules EventLog EventMachine FilesKey Hands JsonScan PathModel PlanOrder RigProposals Toc Versions
begin

section \<open>Millwright: the factory's rules, verified\<close>

text \<open>
  Millwright (\<^verbatim>\<open>mw\<close>) runs a software factory: a Mayor files plans of stories as beads in a
  tracker, a dispatcher gives ready stories to agents, batches land, and a stream of events
  says what happened.  The rules all of that follows live in the Go package
  \<^verbatim>\<open>domain\<close> (and \<^verbatim>\<open>domain/events\<close>), functions over plain values with no I/O; the
  use cases of \<^verbatim>\<open>application\<close> call them, the adapters of \<^verbatim>\<open>infrastructure\<close> feed them
  and \<^verbatim>\<open>cmd/mw\<close> is the command line.  This development models the rules.

  \<^bold>\<open>Layers.\<close>
  \<^item> \<open>GoPrelude\<close>: results and errors as sums, list facts, times.  \<open>GoStrings\<close>,
    \<open>GoNumbers\<close>, \<open>Utf8\<close>, \<open>GoPath\<close>: the parts of Go's \<^verbatim>\<open>strings\<close>,
    \<^verbatim>\<open>strconv\<close>, \<^verbatim>\<open>unicode/utf8\<close> and \<^verbatim>\<open>path\<close> the program uses, over byte strings.
    \<open>GraphSearch\<close>: the locale of a finite graph (\<open>finite_graph\<close>), with what walks and runs
    are, interpreted on the transition tables in \<open>EventMachine\<close>.
  \<^item> \<open>EventMachine\<close> (\<^verbatim>\<open>domain/events/machine.go\<close>): the transition tables of a bead,
    a card, a talk and a job, and the breadth-first search for the run between two states.
    \<open>EventLog\<close> (\<^verbatim>\<open>events.go\<close>, \<^verbatim>\<open>control.go\<close>, \<^verbatim>\<open>handover.go\<close>): events, batches of
    them and the texts some carry.
  \<^item> \<open>PathModel\<close> (\<^verbatim>\<open>path.go\<close>): the path of a story, its overlay on its epic's and its turn
    caps; the locale \<open>keyed_fields\<close> states what a record read and written by key promises,
    interpreted on the path's fields.
  \<^item> \<open>Acceptance\<close> (\<^verbatim>\<open>acceptance.go\<close>, \<^verbatim>\<open>listmarker.go\<close>, \<^verbatim>\<open>bugstory.go\<close>,
    \<^verbatim>\<open>sweep.go\<close>, \<^verbatim>\<open>expect.go\<close>): lines that begin with a word, the sweep a bug owes and the
    metrics an epic expects.
  \<^item> \<open>PlanModel\<close>, \<open>PlanOrder\<close> (\<^verbatim>\<open>plan.go\<close>): plans, their validation with its search
    for a cycle, and the order their stories are filed in.  \<open>EpicRules\<close>
    (\<^verbatim>\<open>epicrules.go\<close>): what an epic must have before it is filed, and its waivers.
  \<^item> \<open>FilesKey\<close> (\<^verbatim>\<open>files.go\<close>): which files a story touches and whether two stories share
    one.  \<open>BeadGraph\<close> (\<^verbatim>\<open>doneopen.go\<close>, \<^verbatim>\<open>heldfor.go\<close>): finished work still open and
    what is held for whom.
  \<^item> \<open>Hands\<close> (\<^verbatim>\<open>hands.go\<close>): steps a person must approve.  \<open>Versions\<close>, \<open>JsonScan\<close>
    (\<^verbatim>\<open>version.go\<close>): version numbers, the scanner that finds one in JSON and the edit that
    replaces it.  \<open>Changelog\<close> (\<^verbatim>\<open>changelog.go\<close>), \<open>Ansi\<close> (\<^verbatim>\<open>ansi.go\<close>),
    \<open>Cards\<close> (\<^verbatim>\<open>card.go\<close>): the Mayor's numbered lists.
  \<^item> \<open>EventStore\<close> (\<^verbatim>\<open>infrastructure/eventlog\<close>): the event log on disk, appended to,
    read from the end, trimmed into the archive, with crashes at any byte.  \<open>EventShip\<close>
    (\<^verbatim>\<open>application/eventship.go\<close>, \<^verbatim>\<open>eventlog/ship.go\<close>): a pass of the shipper that
    sends the events to the Governor on chain and direct, and the retire.  \<open>EventTrim\<close>
    (\<^verbatim>\<open>eventtrim.go\<close>): how far the log may be cut.  \<open>ShipRun\<close>: the shipper, the
    trims, the restarts and the writers together, as an inductive relation of runs, and what
    every run keeps.
  \<^item> \<open>ConfigToml\<close> (\<^verbatim>\<open>domain/configtoml.go\<close>): the config file's scanner, its parser, and the
    edit of one key.  \<open>TomlReads\<close>, \<open>TomlValues\<close>: what each reading of the scanner leaves, and
    that it stands when text it does not reach changes.  \<open>TomlEdit\<close>, \<open>TomlInsert\<close>: a key
    changed where it stands, a key and a table added, as an update of the map from table and key
    to value (\<open>config_map\<close>).  \<open>TomlLiteral\<close>: values as text, and \<^verbatim>\<open>strconv.Unquote\<close>.
    \<open>ConfigSet\<close> (\<^verbatim>\<open>application/configset.go\<close>, \<^verbatim>\<open>domain/factoryshare.go\<close>):
    \<^verbatim>\<open>mw config set\<close> and \<^verbatim>\<open>get\<close> over a file that may fail to be read, backed up or written.
  \<^item> \<open>ShellWords\<close> (\<^verbatim>\<open>application/shellword.go\<close>): words for a shell written and read.
    \<open>RigProposals\<close> (\<^verbatim>\<open>application/rigproposals.go\<close>, \<^verbatim>\<open>errors.go\<close>): what a closing
    comment proposes for the rig's memory and for common errors, and the commands to paste.
  \<^item> \<open>Toc\<close> (\<^verbatim>\<open>domain/toc.go\<close>): headings and their anchors, fences of code, and the
    table of contents kept between its markers.  \<open>GoLower\<close>: \<^verbatim>\<open>strings.ToLower\<close>.
  \<^bold>\<open>State.\<close>  The domain keeps no global state: what a Go function mutates (a map of seen keys,
  a stack, a builder) is an argument of the recursion that models its loop and is returned.
  An event log is the list of events accepted so far.  The shipper's world (\<open>ship_world\<close>) is
  the log, the state kept, what has been sent, and for every kind of call the answers it will
  give, so a proof over all worlds is one over every way the calls may fail; a process that
  dies in a pass is one whose calls all fail from there on, started anew.  A Go map read by key is a function or
  an association list; where Go iterates over a map the code sorts the result, and so does the
  model.  Errors are constructors of an error datatype per component, one for each refusal of
  the code; the words of a refusal are not spelt.

  \<^bold>\<open>What the lemmas show.\<close>  Searches are complete and shortest (event runs) or agree with the
  relation they compute (cycle, waits-on); parsers read back what the printers write (metadata,
  controls, handovers, expectations, card items, config values, shell words, proposals); validators accept exactly the well-formed
  values (batches, plans, epics, cards); edits change only what they name (versions, changelogs, the config file, which refines a map) and settle (the table of contents);
  bounds hold in bytes and in 64 bits (titles, details, turn caps, approval windows).  Of the
  event log: an acknowledged event is never lost, whatever crashes come between; what the
  shipper counts as sent is sent, what has not reached the chain is pending or retired, no trim
  takes what a reader needs, and no emergency waits.

  \<^bold>\<open>Fuel.\<close>  Four loops carry fuel, each with a lemma that the fuel given is enough:
  \<open>cycle_of\<close> (\<open>cycle_run_total\<close>), \<open>scan_value\<close> (\<open>scan_value_total\<close>), the values of
  a config file, twice the bytes left and one (\<open>scan_toml_enough\<close>), and the order of
  filing, which makes at most one pass a story (\<open>order_loop_complete\<close>).

  \<^bold>\<open>Parameters.\<close>  Code that is not in the repository is an argument: JSON decoding and
  encoding in \<open>Changelog\<close> and, as the \<open>codec\<close> of an event, in \<open>EventStore\<close> and
  \<open>EventShip\<close>, \<^verbatim>\<open>unicode.IsLetter\<close> in \<open>BeadGraph\<close>,
  \<^verbatim>\<open>unicode.ToLower\<close> in \<open>GoLower\<close>, the letters, numbers and marks of \<open>Toc\<close>, and \<^verbatim>\<open>strconv.ParseFloat\<close> in \<open>ConfigSet\<close>.

  \<^bold>\<open>Not modelled.\<close>  SHA-256 of the canonical text of a hands step; the words of refusals; case
  mapping of letters outside ASCII (see \<open>GoStrings\<close>); the use cases of
  \<^verbatim>\<open>application\<close> but for those named above, the rest of \<^verbatim>\<open>domain\<close> (\<^verbatim>\<open>prompt.go\<close>,
  \<^verbatim>\<open>home.go\<close>, \<^verbatim>\<open>stamp.go\<close>, \<^verbatim>\<open>boosttables.go\<close>, \<^verbatim>\<open>mechanisms.go\<close> and the details of
  seat events: parsers of times, durations and word patterns), the adapters of \<^verbatim>\<open>infrastructure\<close> and the
  commands of \<^verbatim>\<open>cmd\<close>, which are I/O around the rules: tmux, git, the tracker, the network.
\<close>

end
